(* ===== verification/Prelude.thy ===== *)
theory Prelude
  imports Complex_Main "HOL-Library.Word" "HOL-Library.Sublist" "HOL-Library.Multiset"
begin

unbundle bit_operations_syntax

text \<open>
  The vocabulary the component theories share: names for the machine integers of
  the C++ sources, the outcomes of C++ code whose behaviour is undefined, the error
  monad that threads them, the two loop shapes of the packet loops (a loop over the
  packets of a burst, and a loop over a list of external inputs), and lemmas about
  lists and words that no component owns.

  \<^item> \<open>res_simps\<close> collects the rewrite rules of the error monad and of the two loops;
    most component proofs start with \<open>auto simp: res_simps\<close>.
\<close>

named_theorems res_simps

section \<open>Machine integers\<close>

type_synonym u8 = "8 word"
type_synonym u16 = "16 word"
type_synonym u32 = "32 word"
type_synonym u64 = "64 word"
type_synonym u128 = "128 word"
type_synonym bytes = "u8 list"

section \<open>Undefined behaviour as a value\<close>

text \<open>
  A C++ operation with undefined behaviour yields \<open>Inl\<close> of the reason, and so does
  everything that depends on it. A theorem that a routine returns \<open>Inr\<close> is therefore
  a theorem that none of these happens on the way.
\<close>

datatype ub =
    FloatToInt   \<comment> \<open>conversion of a double that does not fit the integer type\<close>
  | OutOfBounds  \<comment> \<open>array or mapping access past its end\<close>
  | DivByZero    \<comment> \<open>integer division by zero\<close>
  | NullDeref    \<comment> \<open>dereference of a null pointer\<close>
  | SignedOverflow \<comment> \<open>overflow of a signed addition, subtraction or multiplication\<close>
  | Uninit       \<comment> \<open>use of a variable without a value\<close>

type_synonym 'a res = "ub + 'a"

fun rbind :: "'a res \<Rightarrow> ('a \<Rightarrow> 'b res) \<Rightarrow> 'b res" where
  "rbind (Inl e) f = Inl e"
| "rbind (Inr x) f = f x"

declare rbind.simps [res_simps]

lemma rbind_Inr_iff [res_simps]: "rbind m f = Inr y \<longleftrightarrow> (\<exists>x. m = Inr x \<and> f x = Inr y)"
  by (cases m) auto

lemma rbind_Inr_elim:
  assumes "rbind m f = Inr y"
  obtains x where "m = Inr x" and "f x = Inr y"
  using assms by (auto simp: res_simps)

lemma rbind_assoc: "rbind (rbind m f) g = rbind m (\<lambda>x. rbind (f x) g)"
  by (cases m) auto

text \<open>A routine with a loop that may run forever: \<open>None\<close> means that it does not return.\<close>

type_synonym 'a run = "'a res option"

fun obind :: "'a run \<Rightarrow> ('a \<Rightarrow> 'b run) \<Rightarrow> 'b run" where
  "obind None f = None"
| "obind (Some (Inl e)) f = Some (Inl e)"
| "obind (Some (Inr x)) f = f x"

declare obind.simps [res_simps]

lemma obind_Inr_iff [res_simps]:
  "obind m f = Some (Inr y) \<longleftrightarrow> (\<exists>x. m = Some (Inr x) \<and> f x = Some (Inr y))"
  by (cases "(m, f)" rule: obind.cases) auto

section \<open>Loops\<close>

text \<open>
  \<open>run_loop f s xs\<close> is the loop \<open>while (is_running(0)) \<dots>\<close>: one element of \<open>xs\<close> per
  iteration, holding what the external calls of that iteration returned; the list ends
  when \<open>is_running\<close> returns false. \<open>f\<close> yields the calls the iteration makes.
\<close>

fun run_loop :: "('s \<Rightarrow> 'i \<Rightarrow> ('o list \<times> 's) res) \<Rightarrow> 's \<Rightarrow> 'i list \<Rightarrow> ('o list \<times> 's) res" where
  "run_loop f s [] = Inr ([], s)"
| "run_loop f s (x # xs) =
     rbind (f s x) (\<lambda>(os, s'). rbind (run_loop f s' xs) (\<lambda>(os', s''). Inr (os @ os', s'')))"

lemma run_loop_Cons [res_simps]:
  "run_loop f s (x # xs) = Inr (out, t) \<longleftrightarrow>
     (\<exists>os s' os'. f s x = Inr (os, s') \<and> run_loop f s' xs = Inr (os', t) \<and> out = os @ os')"
  by (auto simp: rbind_Inr_iff)

declare run_loop.simps(2) [simp del]

lemma run_loop_append:
  "run_loop f s (xs @ ys) =
     rbind (run_loop f s xs) (\<lambda>(os, s'). rbind (run_loop f s' ys) (\<lambda>(os', s''). Inr (os @ os', s'')))"
proof (induction xs arbitrary: s)
  case Nil
  then show ?case by (cases "run_loop f s ys") auto
next
  case (Cons x xs)
  show ?case
  proof (cases "f s x")
    case (Inr r)
    obtain os s' where r: "r = (os, s')" by (cases r)
    show ?thesis
    proof (cases "run_loop f s' xs")
      case (Inr r2)
      then show ?thesis
        using Cons.IH[of s'] by (cases r2; cases "run_loop f (snd r2) ys") (auto simp: \<open>f s x = Inr r\<close> r run_loop.simps)
    qed (use Cons.IH[of s'] in \<open>simp add: \<open>f s x = Inr r\<close> r run_loop.simps\<close>)
  qed (simp add: run_loop.simps)
qed

text \<open>A loop over bursts with a loop over the packets of each is a loop over all packets.\<close>

lemma run_loop_concat: "run_loop (\<lambda>s b. run_loop f s b) s bs = run_loop f s (concat bs)"
  by (induction bs arbitrary: s) (simp_all add: run_loop_append run_loop.simps)

text \<open>An invariant of the iterations is an invariant of the loop.\<close>

lemma run_loop_invariant:
  assumes "\<And>s x os s'. P s \<Longrightarrow> x \<in> set xs \<Longrightarrow> f s x = Inr (os, s') \<Longrightarrow> P s' \<and> (\<forall>b\<in>set os. Q b)"
    and "run_loop f s xs = Inr (out, t)" and "P s"
  shows "P t \<and> (\<forall>b\<in>set out. Q b)"
  using assms
proof (induction xs arbitrary: s out)
  case Nil
  then show ?case by simp
next
  case (Cons x xs)
  from Cons.prems(2) obtain os s' os' where
      step: "f s x = Inr (os, s')" and rest: "run_loop f s' xs = Inr (os', t)"
      and out: "out = os @ os'"
    by (auto simp: res_simps)
  have s': "P s'" "\<forall>b\<in>set os. Q b" using Cons.prems(1)[OF Cons.prems(3) _ step] by auto
  have "P t \<and> (\<forall>b\<in>set os'. Q b)"
  proof (rule Cons.IH [OF _ rest s'(1)])
    fix s x os s' assume "P s" "x \<in> set xs" "f s x = Inr (os, s')"
    then show "P s' \<and> (\<forall>b\<in>set os. Q b)" by (intro Cons.prems(1)) auto
  qed
  with s'(2) out show ?case by auto
qed

lemma run_loop_total:
  assumes "\<And>s x. P s \<Longrightarrow> x \<in> set xs \<Longrightarrow> \<exists>os s'. f s x = Inr (os, s') \<and> P s'" and "P s"
  shows "\<exists>out t. run_loop f s xs = Inr (out, t) \<and> P t"
  using assms
proof (induction xs arbitrary: s)
  case Nil
  then show ?case by simp
next
  case (Cons x xs)
  from Cons.prems obtain os s' where step: "f s x = Inr (os, s')" and s': "P s'" by fastforce
  from Cons.prems(1) s' have "\<exists>out t. run_loop f s' xs = Inr (out, t) \<and> P t"
    by (intro Cons.IH) auto
  with step show ?case by (fastforce simp: run_loop_Cons)
qed

section \<open>Lists and words\<close>

lemma subseq_set: "subseq xs ys \<Longrightarrow> set xs \<subseteq> set ys"
  by (induction rule: list_emb.induct) auto

lemma subseq_sorted_map: "subseq xs ys \<Longrightarrow> sorted (map f ys) \<Longrightarrow> sorted (map f xs)"
  by (induction rule: list_emb.induct) (auto dest: subseq_set)

lemma unat_u64_less: "unat (w :: u64) < 2 ^ 64"
  using unsigned_less[of w] by simp

lemma unat_u32_less: "unat (w :: u32) < 2 ^ 32"
  using unsigned_less[of w] by simp

lemma unat_u32_u64 [simp]: "unat (ucast (w :: u32) :: u64) = unat w"
  using unat_u32_less[of w] by (simp add: unsigned_ucast_eq take_bit_nat_eq_self)

lemma unat_u8_less: "unat (w :: u8) < 256"
  using unsigned_less[of w] by simp

lemma unat_u16_less: "unat (w :: u16) < 2 ^ 16"
  using unsigned_less[of w] by simp

lemma unat_u16_ucast [simp]:
  "unat (ucast (w :: u16) :: u32) = unat w" "unat (ucast (w :: u16) :: u64) = unat w"
  using unat_u16_less[of w] by (simp_all add: unsigned_ucast_eq take_bit_nat_eq_self)

lemma unat_mult_no_wrap: "unat (a :: u64) * unat b < 2 ^ 64 \<Longrightarrow> unat (a * b) = unat a * unat b"
  by (simp add: unat_word_ariths(2))

lemma unat_add_no_wrap: "unat (a :: u64) + unat b < 2 ^ 64 \<Longrightarrow> unat (a + b) = unat a + unat b"
  by (simp add: unat_word_ariths(1))

lemma sint_diff:
  assumes "unat (a :: u64) \<le> 2 ^ 62" "unat b \<le> 2 ^ 62"
  shows "sint (a - b) = int (unat a) - int (unat b)"
proof -
  have small: "signed_take_bit 63 (int m - int n) = int m - int n" if "m \<le> 2 ^ 62" "n \<le> 2 ^ 62" for m n
    using that by (intro signed_take_bit_int_eq_self) auto
  have m: "sint x = int (unat x)" if "unat x \<le> 2 ^ 62" for x :: u64
    using small[OF that, of 0] by (simp add: sint_uint)
  have "sint (a - b) = signed_take_bit 63 (sint a - sint b)"
    by (simp add: sint_word_ariths)
  then show ?thesis unfolding m[OF assms(1)] m[OF assms(2)] small[OF assms] .
qed

end
