(* ===== verification/Mbuf.thy ===== *)
theory Mbuf
  imports Prelude
begin

text \<open>
  The packet buffers of DPDK as the sources use them, and the loop shape every
  receive routine shares: walk over the packets of a burst, give each one back to its
  pool or append its pointer to an output array.

  \<^item> \<open>mbuf\<close> has the fields of \<open>struct rte_mbuf\<close> that the sources read or write, the
    two dynamic fields (timestamp and burst size), and \<open>mid\<close>, the address of the buffer:
    two pointers are equal exactly when their \<open>mid\<close> is.
  \<^item> \<open>call\<close> is a call of a routine outside the repository that consumes packets.
  \<^item> \<open>filter_loop\<close> is the loop; the locale \<open>burst_filter\<close> is its contract, stated for the
    step of one packet and interpreted for each loss model and each rate limiter.
\<close>

record mbuf =
  mid :: nat
  pkt_len :: u32
  data_len :: u16
  ol_flags :: u64
  ts_field :: u64
  burst_field :: u32
  pkt_data :: bytes

datatype call =
    Free mbuf            \<comment> \<open>\<open>rte_pktmbuf_free\<close>\<close>
  | Enqueue "mbuf list"  \<comment> \<open>\<open>rte_ring_sp_enqueue_bulk\<close>\<close>
  | Send "mbuf list"     \<comment> \<open>\<open>dpdk_send_all_packets\<close>\<close>

text \<open>A packet for the worked examples.\<close>

definition ex_pkt :: "nat \<Rightarrow> mbuf" where
  "ex_pkt n = \<lparr>mid = n, pkt_len = 60, data_len = 60, ol_flags = 0, ts_field = 1000 * of_nat n,
     burst_field = 0, pkt_data = replicate 60 0\<rparr>"

abbreviation BURST_SIZE :: nat where
  "BURST_SIZE \<equiv> 64"

text \<open>One step yields the packet as it is stored in the output array, or \<open>None\<close> when it is
  freed, with the state for the next packet.\<close>

fun filter_loop :: "('s \<Rightarrow> mbuf \<Rightarrow> (mbuf option \<times> 's) res) \<Rightarrow> 's \<Rightarrow> mbuf list
    \<Rightarrow> (mbuf list \<times> mbuf list \<times> 's) res" where
  "filter_loop f s [] = Inr ([], [], s)"
| "filter_loop f s (p # ps) =
     rbind (f s p) (\<lambda>(r, s').
     rbind (filter_loop f s' ps) (\<lambda>(acc, freed, s'').
       Inr (case r of Some q \<Rightarrow> (q # acc, freed, s'') | None \<Rightarrow> (acc, p # freed, s''))))"

text \<open>The calls of one iteration of a receive loop: the frees in packet order, then the
  hand-over of the accepted packets.\<close>

fun call_pkts :: "call \<Rightarrow> mbuf list" where
  "call_pkts (Free p) = [p]"
| "call_pkts (Enqueue ps) = ps"
| "call_pkts (Send ps) = ps"

definition trace_ids :: "call list \<Rightarrow> nat list" where
  "trace_ids cs = map mid (concat (map call_pkts cs))"

fun forwarded :: "call list \<Rightarrow> mbuf list" where
  "forwarded [] = []"
| "forwarded (Free p # cs) = forwarded cs"
| "forwarded (Enqueue ps # cs) = ps @ forwarded cs"
| "forwarded (Send ps # cs) = ps @ forwarded cs"

lemma forwarded_append [simp]: "forwarded (xs @ ys) = forwarded xs @ forwarded ys"
  by (induction xs rule: forwarded.induct) auto

lemma forwarded_frees [simp]: "forwarded (map Free ps) = []"
  by (induction ps) auto

lemma trace_ids_simps [simp]:
  "trace_ids [] = []"
  "trace_ids (c # cs) = map mid (call_pkts c) @ trace_ids cs"
  "trace_ids (xs @ ys) = trace_ids xs @ trace_ids ys"
  "trace_ids (map Free ps) = map mid ps"
  by (auto simp: trace_ids_def comp_def)

lemma filter_loop_Cons [res_simps]:
  "filter_loop f s (p # ps) = Inr (acc, freed, t) \<longleftrightarrow>
     (\<exists>r s' acc' freed'. f s p = Inr (r, s') \<and> filter_loop f s' ps = Inr (acc', freed', t) \<and>
        (case r of Some q \<Rightarrow> acc = q # acc' \<and> freed = freed'
                 | None \<Rightarrow> acc = acc' \<and> freed = p # freed'))"
  by (force simp: rbind_Inr_iff split: option.splits)

declare filter_loop.simps(2) [simp del]

lemma filter_loop_total:
  assumes "\<And>s p. P s \<Longrightarrow> p \<in> set ps \<Longrightarrow> \<exists>r s'. f s p = Inr (r, s') \<and> P s'" and "P s"
  shows "\<exists>acc freed t. filter_loop f s ps = Inr (acc, freed, t) \<and> P t"
  using assms
proof (induction ps arbitrary: s)
  case (Cons p ps)
  from Cons.prems obtain r s' where step: "f s p = Inr (r, s')" and s': "P s'" by fastforce
  from Cons.prems(1) have "\<exists>acc freed t. filter_loop f s' ps = Inr (acc, freed, t) \<and> P t"
    by (intro Cons.IH [OF _ s']) auto
  with step show ?case by (cases r) (auto simp: filter_loop.simps)
qed simp

section \<open>The contract of a burst filter\<close>

text \<open>The state stays within \<open>inv\<close>, and an accepted packet is the packet that came in, with
  at most its dynamic fields changed.\<close>

locale burst_filter =
  fixes step :: "'s \<Rightarrow> mbuf \<Rightarrow> (mbuf option \<times> 's) res"
    and inv :: "'s \<Rightarrow> bool"
  assumes step_inv: "inv s \<Longrightarrow> step s p = Inr (r, s') \<Longrightarrow> inv s'"
    and step_same: "step s p = Inr (Some q, s') \<Longrightarrow>
      mid q = mid p \<and> pkt_len q = pkt_len p \<and> pkt_data q = pkt_data p"
begin

lemma loop_inv: "inv s \<Longrightarrow> filter_loop step s ps = Inr (acc, freed, t) \<Longrightarrow> inv t"
  by (induction ps arbitrary: s acc freed) (auto simp: res_simps split: option.splits dest: step_inv)

lemma loop_order:
  "filter_loop step s ps = Inr (acc, freed, t) \<Longrightarrow> subseq (map mid acc) (map mid ps)"
proof (induction ps arbitrary: s acc freed)
  case (Cons p ps)
  then show ?case
    by (auto simp: res_simps split: option.splits dest!: step_same)
qed simp

lemma loop_conserve:
  "filter_loop step s ps = Inr (acc, freed, t) \<Longrightarrow>
     mset (map mid acc) + mset (map mid freed) = mset (map mid ps)"
proof (induction ps arbitrary: s acc freed)
  case (Cons p ps)
  then show ?case
    by (fastforce simp: res_simps split: option.splits dest!: step_same)
qed simp

lemma loop_length:
  assumes "filter_loop step s ps = Inr (acc, freed, t)"
  shows "length acc + length freed = length ps"
  using arg_cong[where f = size, OF loop_conserve[OF assms]] by simp

lemma loop_bytes:
  "filter_loop step s ps = Inr (acc, freed, t) \<Longrightarrow> subseq (map pkt_len acc) (map pkt_len ps)"
proof (induction ps arbitrary: s acc freed)
  case (Cons p ps)
  then show ?case
    by (auto simp: res_simps split: option.splits dest!: step_same)
qed simp

end

section \<open>The contract of a receive loop\<close>

text \<open>What holds of the packets of one iteration holds of the whole run. \<open>pkts_of\<close> are the packets
  among the inputs of an iteration.\<close>

locale burst_handler =
  fixes iter :: "'s \<Rightarrow> 'i \<Rightarrow> (call list \<times> 's) res" and pkts_of :: "'i \<Rightarrow> mbuf list"
  assumes iter_exact: "iter s x = Inr (cs, s') \<Longrightarrow> mset (trace_ids cs) = mset (map mid (pkts_of x))"
    and iter_in_order: "iter s x = Inr (cs, s') \<Longrightarrow> subseq (map mid (forwarded cs)) (map mid (pkts_of x))"
begin

lemma run_exact:
  "run_loop iter s xs = Inr (cs, t) \<Longrightarrow> mset (trace_ids cs) = mset (map mid (concat (map pkts_of xs)))"
proof (induction xs arbitrary: s cs)
  case (Cons x xs)
  then show ?case by (auto simp: run_loop_Cons dest!: iter_exact)
qed simp

lemma run_in_order:
  "run_loop iter s xs = Inr (cs, t) \<Longrightarrow> subseq (map mid (forwarded cs)) (map mid (concat (map pkts_of xs)))"
proof (induction xs arbitrary: s cs)
  case (Cons x xs)
  then show ?case by (auto simp: run_loop_Cons dest!: iter_in_order intro!: list_emb_append_mono)
qed simp

end

end
