(* ===== verification/Loss.thy ===== *)
theory Loss
  imports Mbuf
begin

text \<open>
  The loss models of the path emulator (\<open>src/moonem_common.h\<close>): the generator
  \<open>wyhash64\<close>, the Gilbert-Elliott step \<open>ge_drop\<close>, the four-state step \<open>netem_drop\<close>, and
  \<open>applyLoss\<close>, which removes the dropped packets of a burst.

  The array \<open>loss_state[2]\<close> of the callers is the record \<open>loss_st\<close>: the state of the
  generator and the state of the Markov chain. The parameters of a model are the array
  \<open>loss_model_parameters\<close>; a read past its end is \<open>OutOfBounds\<close>.
\<close>

datatype loss_type = NONE | UNIFORM | GE | NETEM

record moonem_config =
  cfg_delay :: u64
  cfg_rate :: u64
  cfg_capacity :: u64
  cfg_loss_seed :: u64
  cfg_loss_type :: loss_type
  cfg_loss :: u64
  cfg_params :: "u64 list"

record loss_st =
  rand_st :: u64
  chain_st :: u64

text \<open>The declared size of \<open>loss_model_parameters\<close>.\<close>

definition struct_params :: "moonem_config \<Rightarrow> bool" where
  "struct_params c \<longleftrightarrow> length (cfg_params c) = 5"

definition param :: "moonem_config \<Rightarrow> u64 \<Rightarrow> u64 res" where
  "param c i = (if unat i < length (cfg_params c) then Inr (cfg_params c ! unat i) else Inl OutOfBounds)"

section \<open>The generator\<close>

definition mum :: "u64 \<Rightarrow> u64 \<Rightarrow> u64" where
  "mum a b = (let tmp = (ucast a :: u128) * ucast b in ucast (drop_bit 64 tmp XOR tmp))"

definition wyhash64 :: "u64 \<Rightarrow> u64 \<times> u64" where
  "wyhash64 state =
     (let state' = state + 0x60bee2bee120fc15;
          m1 = mum state' 0xa3b195354a39b70d;
          m2 = mum m1 0x1b03738712fad5c9
      in (m2, state'))"

section \<open>The loss models\<close>

definition uniform_drop :: "moonem_config \<Rightarrow> loss_st \<Rightarrow> bool \<times> loss_st" where
  "uniform_drop c s = (let (x, r) = wyhash64 (rand_st s) in (x < cfg_loss c, s\<lparr>rand_st := r\<rparr>))"

definition ge_drop :: "moonem_config \<Rightarrow> loss_st \<Rightarrow> (bool \<times> loss_st) res" where
  "ge_drop c s =
     (let (x, r1) = wyhash64 (rand_st s); (y, r2) = wyhash64 r1 in
      rbind (if chain_st s \<noteq> 0 then rbind (param c 0) (\<lambda>p. Inr (x < p))
             else rbind (param c 1) (\<lambda>r. Inr (r \<le> x))) (\<lambda>bad.
      if bad then rbind (param c 2) (\<lambda>h. Inr (y < h, \<lparr>rand_st = r2, chain_st = 0\<rparr>))
      else rbind (param c 3) (\<lambda>k. Inr (y < k, \<lparr>rand_st = r2, chain_st = 1\<rparr>))))"

definition netem_drop :: "moonem_config \<Rightarrow> loss_st \<Rightarrow> (bool \<times> loss_st) res" where
  "netem_drop c s =
     (let drop12_keep34 = chain_st s < 2; (x, r) = wyhash64 (rand_st s) in
      rbind (param c (chain_st s * 2)) (\<lambda>stay.
      if x < stay then Inr (\<not> drop12_keep34, s\<lparr>rand_st := r\<rparr>)
      else rbind (param c (chain_st s * 2 + 1)) (\<lambda>keep.
        if x < stay + keep
        then Inr (drop12_keep34, \<lparr>rand_st = r, chain_st = chain_st s XOR 3\<rparr>)
        else Inr (drop12_keep34, \<lparr>rand_st = r, chain_st = chain_st s XOR 2\<rparr>))))"

text \<open>One iteration of the loops of \<open>applyLoss\<close>: free the packet or copy its pointer.\<close>

definition loss_step :: "(loss_st \<Rightarrow> (bool \<times> loss_st) res) \<Rightarrow> loss_st \<Rightarrow> mbuf
    \<Rightarrow> (mbuf option \<times> loss_st) res" where
  "loss_step decide s p = rbind (decide s) (\<lambda>(d, s'). Inr (if d then None else Some p, s'))"

text \<open>Result: the packets copied to \<open>bufs_send\<close> (their number is the return value), the
  freed packets, and the new loss state.\<close>

definition applyLoss :: "moonem_config \<Rightarrow> loss_st \<Rightarrow> mbuf list \<Rightarrow> (mbuf list \<times> mbuf list \<times> loss_st) res" where
  "applyLoss c s bufs =
     (case cfg_loss_type c of
        NONE \<Rightarrow> Inr ([], [], s)
      | UNIFORM \<Rightarrow> filter_loop (loss_step (\<lambda>s. Inr (uniform_drop c s))) s bufs
      | GE \<Rightarrow> filter_loop (loss_step (ge_drop c)) s bufs
      | NETEM \<Rightarrow> filter_loop (loss_step (netem_drop c)) s bufs)"

definition applyLoss_export :: "moonem_config \<Rightarrow> loss_st \<Rightarrow> mbuf list \<Rightarrow> (mbuf list \<times> mbuf list \<times> loss_st) res" where
  "applyLoss_export c s bufs = applyLoss c s bufs"

text \<open>The loss state at the start of a receive loop.\<close>

definition init_loss :: "moonem_config \<Rightarrow> loss_st" where
  "init_loss c = \<lparr>rand_st = cfg_loss_seed c, chain_st = 0\<rparr>"


section \<open>The generator never repeats a state before \<open>2\<^sup>6\<^sup>4\<close> calls\<close>

text \<open>Reference: the state before call \<open>n\<close>, and the value call \<open>n\<close> returns.\<close>

definition wy_state :: "u64 \<Rightarrow> nat \<Rightarrow> u64" where
  "wy_state seed n = seed + of_nat n * 0x60bee2bee120fc15"

definition wy_out :: "u64 \<Rightarrow> nat \<Rightarrow> u64" where
  "wy_out seed n = fst (wyhash64 (wy_state seed n))"

lemma wyhash64_state: "snd (wyhash64 s) = s + 0x60bee2bee120fc15"
  by (simp add: wyhash64_def Let_def)

lemma wy_state_0 [simp]: "wy_state seed 0 = seed"
  by (simp add: wy_state_def)

lemma wy_state_Suc: "snd (wyhash64 (wy_state seed n)) = wy_state seed (Suc n)"
  by (simp add: wyhash64_state wy_state_def algebra_simps)

lemma wy_state_shift: "wy_state (wy_state seed 1) n = wy_state seed (Suc n)"
  by (simp add: wy_state_def algebra_simps)

lemma odd_mult_cancel:
  fixes a b :: u64
  assumes "a * 0x60bee2bee120fc15 = b * 0x60bee2bee120fc15"
  shows "a = b"
proof -
  have inv: "(0x60bee2bee120fc15 :: u64) * 0x4718c01ea76cf33d = 1" by simp
  have "a * 0x60bee2bee120fc15 * 0x4718c01ea76cf33d = b * 0x60bee2bee120fc15 * 0x4718c01ea76cf33d"
    by (rule arg_cong[OF assms])
  then show ?thesis unfolding mult.assoc inv mult_1_right .
qed

lemma wy_state_inj:
  assumes "wy_state seed i = wy_state seed j" "i < 2 ^ 64" "j < 2 ^ 64"
  shows "i = j"
proof -
  have "of_nat i * (0x60bee2bee120fc15 :: u64) = of_nat j * 0x60bee2bee120fc15"
    using assms(1) unfolding wy_state_def by (rule add_left_imp_eq)
  then have "(of_nat i :: u64) = of_nat j" by (rule odd_mult_cancel)
  then have "unat (of_nat i :: u64) = unat (of_nat j :: u64)" by (rule arg_cong)
  then have "i mod 2 ^ 64 = j mod 2 ^ 64" by (simp only: unat_of_nat len_num0 len_num1 len_bit0 len_bit1 One_nat_def)
      simp
  then show ?thesis using assms(2,3) by (simp only: mod_less)
qed

section \<open>The steps of the models\<close>

lemma chain_cases:
  assumes "(q :: u64) < 4"
  obtains "q = 0" | "q = 1" | "q = 2" | "q = 3"
proof -
  have "unat q < 4" using assms by (simp add: word_less_nat_alt)
  then have "unat q = 0 \<or> unat q = 1 \<or> unat q = 2 \<or> unat q = 3" by linarith
  then show ?thesis using that by (auto simp: word_unat_eq_iff)
qed

lemma param_Inr: "param c i = Inr v \<longleftrightarrow> unat i < length (cfg_params c) \<and> v = cfg_params c ! unat i"
  by (auto simp: param_def)

lemma netem_drop_chain:
  assumes "netem_drop c s = Inr (d, s')" "chain_st s < 4"
  shows "chain_st s' < 4 \<and> (d \<longleftrightarrow> 2 \<le> chain_st s')"
  using assms(2)
proof (cases rule: chain_cases)
qed (use assms(1) in \<open>auto simp: netem_drop_def Let_def res_simps word_le_nat_alt split: prod.splits if_splits\<close>)

lemma ge_drop_chain:
  "ge_drop c s = Inr (d, s') \<Longrightarrow> chain_st s' = 0 \<or> chain_st s' = 1"
  by (auto simp: ge_drop_def Let_def res_simps split: prod.splits if_splits)

lemma loss_step_same:
  "loss_step decide s p = Inr (Some q, s') \<Longrightarrow> q = p"
  by (auto simp: loss_step_def res_simps split: if_splits)

interpretation uni: burst_filter "loss_step (\<lambda>s. Inr (uniform_drop c s))" "\<lambda>_. True" for c
  by unfold_locales (auto dest: loss_step_same)

interpretation ge: burst_filter "loss_step (ge_drop c)" "\<lambda>s. chain_st s < 2" for c
proof unfold_locales
  fix s p r s' assume "loss_step (ge_drop c) s p = Inr (r, s')"
  then show "chain_st s' < 2" by (auto simp: loss_step_def res_simps dest!: ge_drop_chain)
qed (auto dest: loss_step_same)

interpretation netem: burst_filter "loss_step (netem_drop c)" "\<lambda>s. chain_st s < 4" for c
proof unfold_locales
  fix s p r s' assume "loss_step (netem_drop c) s p = Inr (r, s')" "chain_st s < 4"
  then show "chain_st s' < 4" by (auto simp: loss_step_def res_simps dest: netem_drop_chain)
qed (auto dest: loss_step_same)

text \<open>The three loops as one: what the receive loops use of \<open>applyLoss\<close>.\<close>

lemma applyLoss_conserve:
  assumes "applyLoss c s bufs = Inr (acc, freed, t)" "cfg_loss_type c \<noteq> NONE"
  shows "mset (map mid acc) + mset (map mid freed) = mset (map mid bufs)"
  using assms
  by (auto simp: applyLoss_def split: loss_type.splits
      dest: uni.loop_conserve ge.loop_conserve netem.loop_conserve)

lemma applyLoss_order:
  assumes "applyLoss c s bufs = Inr (acc, freed, t)"
  shows "subseq (map mid acc) (map mid bufs)"
  using assms
  by (auto simp: applyLoss_def split: loss_type.splits
      dest: uni.loop_order ge.loop_order netem.loop_order)

lemma loss_loop_subseq:
  "filter_loop (loss_step decide) s ps = Inr (acc, freed, t) \<Longrightarrow> subseq acc ps"
proof (induction ps arbitrary: s acc freed)
  case (Cons p ps)
  then show ?case by (fastforce simp: res_simps split: option.splits dest: loss_step_same)
qed simp

lemma applyLoss_subseq:
  "applyLoss c s bufs = Inr (acc, freed, t) \<Longrightarrow> subseq acc bufs"
  by (auto simp: applyLoss_def split: loss_type.splits dest: loss_loop_subseq)

section \<open>Properties\<close>

subsection \<open>The generator\<close>

text \<open>(C33) The generator behind all loss models has the full period: the states before any two
  of its first \<open>2\<^sup>6\<^sup>4\<close> calls are different, whatever the seed.\<close>

theorem wyhash64_full_period:
  assumes "i < 2 ^ 64" "j < 2 ^ 64"
  shows "((\<lambda>s. snd (wyhash64 s)) ^^ i) seed = ((\<lambda>s. snd (wyhash64 s)) ^^ j) seed \<longleftrightarrow> i = j"
proof -
  have "((\<lambda>s. snd (wyhash64 s)) ^^ n) seed = wy_state seed n" for n
    by (induction n) (simp_all only: funpow.simps comp_apply id_apply wy_state_Suc wy_state_0)
  then show ?thesis using wy_state_inj[OF _ assms] by auto
qed

theorem wyhash64_full_period_witness:
  "((\<lambda>s. snd (wyhash64 s)) ^^ 0) 12345 \<noteq> ((\<lambda>s. snd (wyhash64 s)) ^^ 1) 12345"
  using wyhash64_full_period[of 0 1 12345] by (simp del: funpow.simps)

subsection \<open>Uniform loss\<close>

lemma wy_out_Suc: "wy_out (snd (wyhash64 seed)) i = wy_out seed (Suc i)"
  using wy_state_shift[of seed i] wy_state_Suc[of seed 0] by (simp only: wy_out_def wy_state_0 One_nat_def)

lemma filter_zip_Suc:
  "map fst (filter (\<lambda>(p, i). P i) (zip (x # xs) [0..<length (x # xs)])) =
     (if P 0 then [x] else []) @ map fst (filter (\<lambda>(p, i). P (Suc i)) (zip xs [0..<length xs]))"
proof -
  have "zip xs (map Suc [0..<length xs]) = map (\<lambda>(p, i). (p, Suc i)) (zip xs [0..<length xs])"
    by (simp add: zip_map2)
  moreover have "map fst (filter (\<lambda>(p, i). P i) (map (\<lambda>(p, i). (p, Suc i)) ys)) =
      map fst (filter (\<lambda>(p, i). P (Suc i)) ys)" for ys :: "('a \<times> nat) list"
    by (induction ys) auto
  moreover have "[0..<Suc (length xs)] = 0 # map Suc [0..<length xs]"
    by (simp only: upt_conv_Cons map_Suc_upt zero_less_Suc)
  ultimately show ?thesis by simp
qed

lemma uniform_loop:
  "filter_loop (loss_step (\<lambda>s. Inr (uniform_drop c s))) s bufs =
     Inr (map fst (filter (\<lambda>(p, i). cfg_loss c \<le> wy_out (rand_st s) i) (zip bufs [0..<length bufs])),
          map fst (filter (\<lambda>(p, i). \<not> cfg_loss c \<le> wy_out (rand_st s) i) (zip bufs [0..<length bufs])),
          s\<lparr>rand_st := wy_state (rand_st s) (length bufs)\<rparr>)"
proof (induction bufs arbitrary: s)
  case (Cons p ps)
  let ?s = "s\<lparr>rand_st := snd (wyhash64 (rand_st s))\<rparr>"
  have step: "loss_step (\<lambda>s. Inr (uniform_drop c s)) s p =
      Inr (if cfg_loss c \<le> wy_out (rand_st s) 0 then Some p else None, ?s)"
    by (cases "wyhash64 (rand_st s)") (auto simp: loss_step_def uniform_drop_def wy_out_def not_le)
  have st: "wy_state (snd (wyhash64 (rand_st s))) (length ps) = wy_state (rand_st s) (Suc (length ps))"
    using wy_state_shift[of "rand_st s"] wy_state_Suc[of "rand_st s" 0] by (simp only: wy_state_0 One_nat_def)
  have ih: "filter_loop (loss_step (\<lambda>s. Inr (uniform_drop c s))) ?s ps =
      Inr (map fst (filter (\<lambda>(p, i). cfg_loss c \<le> wy_out (rand_st s) (Suc i)) (zip ps [0..<length ps])),
           map fst (filter (\<lambda>(p, i). \<not> cfg_loss c \<le> wy_out (rand_st s) (Suc i)) (zip ps [0..<length ps])),
           s\<lparr>rand_st := wy_state (rand_st s) (Suc (length ps))\<rparr>)"
    using Cons.IH[of ?s] by (simp add: wy_out_Suc st)
  show ?case
    unfolding filter_zip_Suc filter_loop.simps step rbind.simps case_prod_conv ih
    by (simp del: not_le)
qed simp

text \<open>(C32) Uniform loss drops by position: packet \<open>i\<close> of a burst survives exactly when output
  \<open>i\<close> of the generator is at least the configured threshold, survivors keep their order
  and contents, every other packet is freed, and the generator advances by one call per
  packet, so a stream is dropped the same way however it is cut into bursts.\<close>

theorem applyLoss_uniform:
  assumes "cfg_loss_type c = UNIFORM"
  shows "applyLoss c s bufs =
     Inr (map fst (filter (\<lambda>(p, i). cfg_loss c \<le> wy_out (rand_st s) i) (zip bufs [0..<length bufs])),
          map fst (filter (\<lambda>(p, i). \<not> cfg_loss c \<le> wy_out (rand_st s) i) (zip bufs [0..<length bufs])),
          s\<lparr>rand_st := wy_state (rand_st s) (length bufs)\<rparr>)"
  using assms by (simp only: applyLoss_def loss_type.case uniform_loop)

definition ex_cfg :: "loss_type \<Rightarrow> u64 list \<Rightarrow> moonem_config" where
  "ex_cfg lt ps = \<lparr>cfg_delay = 5000, cfg_rate = 8000, cfg_capacity = 32768, cfg_loss_seed = 12345,
     cfg_loss_type = lt, cfg_loss = 0x8000000000000000, cfg_params = ps\<rparr>"

theorem applyLoss_uniform_witness:
  "cfg_loss_type (ex_cfg UNIFORM []) = UNIFORM \<and>
   applyLoss (ex_cfg UNIFORM []) (init_loss (ex_cfg UNIFORM [])) [ex_pkt 0, ex_pkt 1, ex_pkt 2] =
     Inr ([ex_pkt 1], [ex_pkt 0, ex_pkt 2], \<lparr>rand_st = wy_state 12345 3, chain_st = 0\<rparr>)"
  using applyLoss_uniform[of "ex_cfg UNIFORM []" "init_loss (ex_cfg UNIFORM [])" "[ex_pkt 0, ex_pkt 1, ex_pkt 2]"]
  by (simp add: ex_cfg_def init_loss_def wy_out_def wy_state_def wyhash64_def mum_def Let_def)

subsection \<open>Four-state loss\<close>

lemma netem_drop_table:
  assumes "8 \<le> length (cfg_params c)" and "chain_st s < 4"
  shows "\<exists>d s'. netem_drop c s = Inr (d, s') \<and> rand_st s' = snd (wyhash64 (rand_st s)) \<and>
     chain_st s' < 4 \<and> (d \<longleftrightarrow> 2 \<le> chain_st s') \<and>
     chain_st s' =
       (let x = fst (wyhash64 (rand_st s)); q = chain_st s; i = 2 * unat q;
            stay = cfg_params c ! i; keep = cfg_params c ! Suc i
        in if x < stay then q else if x < stay + keep then q XOR 3 else q XOR 2)"
proof -
  from assms(2) have i: "unat (chain_st s * 2) = 2 * unat (chain_st s)"
      "unat (chain_st s * 2 + 1) = Suc (2 * unat (chain_st s))" "unat (chain_st s) < 4"
    by (cases rule: chain_cases; simp)+
  have p: "param c (chain_st s * 2) = Inr (cfg_params c ! (2 * unat (chain_st s)))"
      "param c (chain_st s * 2 + 1) = Inr (cfg_params c ! Suc (2 * unat (chain_st s)))"
    using i assms(1) by (auto simp: param_def)
  have "\<exists>d s'. netem_drop c s = Inr (d, s')"
    by (cases "wyhash64 (rand_st s)") (simp add: netem_drop_def Let_def p)
  then obtain d s' where ok: "netem_drop c s = Inr (d, s')" by blast
  show ?thesis
    using ok netem_drop_chain[OF ok assms(2)]
    by (cases "wyhash64 (rand_st s)") (auto simp: netem_drop_def p Let_def split: if_splits)
qed

text \<open>The four-state model with its eight parameters: from state \<open>q\<close> (0 to 3 for q1 to q4)
  it never reads past them, it stays in \<open>q\<close> when the random value is below the stay
  threshold, moves to \<open>q XOR 3\<close> below the sum of both thresholds and to \<open>q XOR 2\<close> otherwise,
  the new state is again one of the four, and the packet is dropped exactly when the new
  state is q3 or q4.\<close>

theorem netem_drop_correct:
  assumes "8 \<le> length (cfg_params c)" and "chain_st s < 4"
  shows "\<exists>d s'. netem_drop c s = Inr (d, s') \<and> rand_st s' = snd (wyhash64 (rand_st s)) \<and>
     chain_st s' < 4 \<and> (d \<longleftrightarrow> 2 \<le> chain_st s') \<and>
     chain_st s' =
       (let x = fst (wyhash64 (rand_st s)); q = chain_st s; i = 2 * unat q;
            stay = cfg_params c ! i; keep = cfg_params c ! Suc i
        in if x < stay then q else if x < stay + keep then q XOR 3 else q XOR 2)"
  using assms by (rule netem_drop_table)

theorem netem_drop_correct_witness:
  "8 \<le> length (cfg_params (ex_cfg NETEM [0, 0, 1, 2, 3, 4, 5, 6])) \<and>
   chain_st (init_loss (ex_cfg NETEM [0, 0, 1, 2, 3, 4, 5, 6])) < 4 \<and>
   (\<exists>s'. netem_drop (ex_cfg NETEM [0, 0, 1, 2, 3, 4, 5, 6]) (init_loss (ex_cfg NETEM [0, 0, 1, 2, 3, 4, 5, 6]))
      = Inr (True, s') \<and> chain_st s' = 2)"
  using netem_drop_correct[of "ex_cfg NETEM [0, 0, 1, 2, 3, 4, 5, 6]" "init_loss (ex_cfg NETEM [0, 0, 1, 2, 3, 4, 5, 6])"]
  by (auto simp: ex_cfg_def init_loss_def)

text \<open>(C39) With the array as \<open>struct moonem_config\<close> declares it (five entries), the four-state
  model reads past the end of \<open>loss_model_parameters\<close>: always in state q4, and in state q3
  whenever it leaves that state; in the other cases it does not.\<close>

theorem netem_drop_struct_bounds:
  assumes "struct_params c" and "chain_st s < 4"
  shows "netem_drop c s = Inl OutOfBounds \<longleftrightarrow>
     chain_st s = 3 \<or> (chain_st s = 2 \<and> cfg_params c ! 4 \<le> fst (wyhash64 (rand_st s)))"
  using assms(2)
proof (cases rule: chain_cases)
qed (use assms(1) in \<open>cases "wyhash64 (rand_st s)",
  auto simp: netem_drop_def struct_params_def param_def not_less split: if_splits\<close>)+

theorem netem_drop_struct_bounds_witness:
  "struct_params (ex_cfg NETEM [0, 0, 1, 2, 3]) \<and>
   netem_drop (ex_cfg NETEM [0, 0, 1, 2, 3]) \<lparr>rand_st = 12345, chain_st = 3\<rparr> = Inl OutOfBounds"
  using netem_drop_struct_bounds[of "ex_cfg NETEM [0, 0, 1, 2, 3]" "\<lparr>rand_st = 12345, chain_st = 3\<rparr>"]
  by (simp add: ex_cfg_def struct_params_def)

subsection \<open>All models\<close>

lemma ge_drop_total: "struct_params c \<Longrightarrow> \<exists>d s'. ge_drop c s = Inr (d, s')"
  by (cases "wyhash64 (rand_st s)") (auto simp: ge_drop_def struct_params_def param_def split: prod.splits)

definition params_fit :: "moonem_config \<Rightarrow> bool" where
  "params_fit c \<longleftrightarrow> (case cfg_loss_type c of
      NETEM \<Rightarrow> 8 \<le> length (cfg_params c) | _ \<Rightarrow> struct_params c)"

lemma applyLoss_total:
  assumes "params_fit c" "chain_st s < 4"
  shows "\<exists>acc freed t. applyLoss c s bufs = Inr (acc, freed, t) \<and> chain_st t < 4"
proof (cases "cfg_loss_type c")
  case GE
  have "\<exists>acc freed t. filter_loop (loss_step (ge_drop c)) s bufs = Inr (acc, freed, t) \<and> chain_st t < 4"
  proof (rule filter_loop_total [where P = "\<lambda>s. chain_st s < 4", OF _ assms(2)])
    fix s p
    obtain d s' where "ge_drop c s = Inr (d, s')"
      using ge_drop_total[of c s] assms(1) GE by (auto simp: params_fit_def)
    then show "\<exists>r s'. loss_step (ge_drop c) s p = Inr (r, s') \<and> chain_st s' < 4"
      using ge_drop_chain[of c s d s'] by (auto simp: loss_step_def)
  qed
  then show ?thesis using GE by (simp add: applyLoss_def)
next
  case NETEM
  have "\<exists>acc freed t. filter_loop (loss_step (netem_drop c)) s bufs = Inr (acc, freed, t) \<and> chain_st t < 4"
  proof (rule filter_loop_total [where P = "\<lambda>s. chain_st s < 4", OF _ assms(2)])
    fix s :: loss_st and p assume "chain_st s < 4"
    then obtain d s' where "netem_drop c s = Inr (d, s')" "chain_st s' < 4"
      using netem_drop_table[of c s] assms(1) NETEM by (auto simp: params_fit_def)
    then show "\<exists>r s'. loss_step (netem_drop c) s p = Inr (r, s') \<and> chain_st s' < 4"
      by (auto simp: loss_step_def)
  qed
  then show ?thesis using NETEM by (simp add: applyLoss_def)
qed (use assms(2) in \<open>auto simp: applyLoss_def uniform_loop\<close>)

end
