(* ===== verification/Float64.thy ===== *)
theory Float64
  imports Prelude "HOL-Library.Log_Nat"
begin

text \<open>
  The C++ type \<open>double\<close>: IEEE 754 binary64 with round-to-nearest, ties-to-even.

  A finite double is the rational number it denotes; \<open>rnd\<close> rounds a rational to the
  nearest multiple of the unit in the last place (53 significant bits, subnormals
  below \<open>2\<^sup>-\<^sup>1\<^sup>0\<^sup>2\<^sup>2\<close>), and every arithmetic operation is the exact operation followed by one
  rounding, with overflow to an infinity from \<open>2\<^sup>1\<^sup>0\<^sup>2\<^sup>4\<close> on. The two signed zeros are one
  value: no operation of the modelled sources divides by a computed zero whose sign
  could differ, and no other operation they use tells the zeros apart.
  A comparison with a NaN is false. A conversion to an integer type truncates and
  is undefined when the truncated value does not fit.

  The locale \<open>rounding\<close> is the contract the bucket shapers, the launch timer and the
  running statistics rely on (monotone, idempotent, odd); it is interpreted on \<open>rnd\<close>.
\<close>

section \<open>Rounding\<close>

text \<open>\<open>rlog2 x\<close> is the binary exponent of a positive \<open>x\<close>, \<open>rne\<close> rounds to the nearest
  integer with ties to even, \<open>ulp_exp x\<close> is the exponent of the last place of \<open>x\<close>.\<close>

definition rlog2 :: "rat \<Rightarrow> int" where
  "rlog2 x = (if 1 \<le> x then bitlen \<lfloor>x\<rfloor> - 1 else - bitlen (\<lceil>1 / x\<rceil> - 1))"

definition rne :: "rat \<Rightarrow> int" where
  "rne x = (let f = \<lfloor>x\<rfloor>; r = x - of_int f in
     if r < 1/2 then f else if 1/2 < r then f + 1 else if even f then f else f + 1)"

definition ulp_exp :: "rat \<Rightarrow> int" where
  "ulp_exp x = max (rlog2 \<bar>x\<bar>) (-1022) - 52"

definition rnd :: "rat \<Rightarrow> rat" where
  "rnd x = (if x = 0 then 0
     else let u = 2 powi ulp_exp x in of_int (rne (x / u)) * u)"

section \<open>Doubles\<close>

datatype double = Fin rat | PInf | NInf | NaN

definition dinf :: "bool \<Rightarrow> double" where
  "dinf neg = (if neg then NInf else PInf)"

definition mkd :: "rat \<Rightarrow> double" where
  "mkd x = (let r = rnd x in
     if r \<noteq> 0 \<and> 1024 \<le> rlog2 \<bar>r\<bar> then dinf (r < 0) else Fin r)"

fun dneg :: "double \<Rightarrow> double" where
  "dneg (Fin x) = Fin (- x)"
| "dneg PInf = NInf"
| "dneg NInf = PInf"
| "dneg NaN = NaN"

instantiation double :: "{zero, one, plus, minus, times, inverse, ord}"
begin

definition zero_double :: double where "0 = Fin 0"
definition one_double :: double where "1 = Fin 1"

fun plus_double :: "double \<Rightarrow> double \<Rightarrow> double" where
  "Fin x + Fin y = mkd (x + y)"
| "NaN + _ = NaN"
| "_ + NaN = NaN"
| "PInf + NInf = NaN"
| "NInf + PInf = NaN"
| "PInf + _ = PInf"
| "_ + PInf = PInf"
| "NInf + _ = NInf"
| "_ + NInf = NInf"

definition minus_double :: "double \<Rightarrow> double \<Rightarrow> double" where
  "a - b = a + dneg b"

fun times_double :: "double \<Rightarrow> double \<Rightarrow> double" where
  "Fin x * Fin y = mkd (x * y)"
| "NaN * _ = NaN"
| "_ * NaN = NaN"
| "Fin x * PInf = (if x = 0 then NaN else dinf (x < 0))"
| "Fin x * NInf = (if x = 0 then NaN else dinf (0 < x))"
| "PInf * Fin y = (if y = 0 then NaN else dinf (y < 0))"
| "NInf * Fin y = (if y = 0 then NaN else dinf (0 < y))"
| "PInf * PInf = PInf"
| "NInf * NInf = PInf"
| "_ * _ = NInf"

fun divide_double :: "double \<Rightarrow> double \<Rightarrow> double" where
  "divide_double (Fin x) (Fin y) =
     (if y = 0 then (if x = 0 then NaN else dinf (x < 0)) else mkd (x / y))"
| "divide_double NaN _ = NaN"
| "divide_double _ NaN = NaN"
| "divide_double (Fin x) _ = Fin 0"
| "divide_double PInf (Fin y) = dinf (y < 0)"
| "divide_double NInf (Fin y) = dinf (0 \<le> y)"
| "divide_double _ _ = NaN"

definition inverse_double :: "double \<Rightarrow> double" where
  "inverse_double a = divide 1 a"

fun less_double :: "double \<Rightarrow> double \<Rightarrow> bool" where
  "Fin x < Fin y \<longleftrightarrow> x < y"
| "NaN < _ \<longleftrightarrow> False"
| "_ < NaN \<longleftrightarrow> False"
| "_ < NInf \<longleftrightarrow> False"
| "NInf < _ \<longleftrightarrow> True"
| "PInf < _ \<longleftrightarrow> False"
| "_ < PInf \<longleftrightarrow> True"

definition less_eq_double :: "double \<Rightarrow> double \<Rightarrow> bool" where
  "a \<le> b \<longleftrightarrow> a < b \<or> (a = b \<and> a \<noteq> NaN)"

instance ..

end

definition rval :: "'a::len word \<Rightarrow> rat" where
  "rval w = of_nat (unat w)"

definition d_of_u64 :: "u64 \<Rightarrow> double" where
  "d_of_u64 w = mkd (rval w)"

definition d_of_u32 :: "u32 \<Rightarrow> double" where
  "d_of_u32 w = mkd (rval w)"

definition d_of_s64 :: "u64 \<Rightarrow> double" where
  "d_of_s64 w = mkd (of_int (sint w))"

definition dtrunc :: "rat \<Rightarrow> int" where
  "dtrunc x = (if x < 0 then \<lceil>x\<rceil> else \<lfloor>x\<rfloor>)"

fun u64_of_d :: "double \<Rightarrow> u64 res" where
  "u64_of_d (Fin x) = (if 0 \<le> dtrunc x \<and> dtrunc x < 2 ^ 64 then Inr (word_of_int (dtrunc x)) else Inl FloatToInt)"
| "u64_of_d _ = Inl FloatToInt"

fun s64_of_d :: "double \<Rightarrow> u64 res" where
  "s64_of_d (Fin x) = (if - (2 ^ 63) \<le> dtrunc x \<and> dtrunc x < 2 ^ 63 then Inr (word_of_int (dtrunc x)) else Inl FloatToInt)"
| "s64_of_d _ = Inl FloatToInt"

section \<open>The exponent and the nearest integer\<close>

lemma pow2_less_iff [simp]: "(2::rat) powi a < 2 powi b \<longleftrightarrow> a < b"
proof
  assume "(2::rat) powi a < 2 powi b"
  then show "a < b" using power_int_increasing[of b a "2::rat"] by (cases "b \<le> a") auto
qed (simp add: power_int_strict_increasing)

lemma pow2_le_iff [simp]: "(2::rat) powi a \<le> 2 powi b \<longleftrightarrow> a \<le> b"
  by (simp flip: not_less)

lemma pow2_pos [simp]: "0 < (2::rat) powi a"
  by simp

lemma rlog2_lower: "0 < x \<Longrightarrow> 2 powi rlog2 x \<le> x"
proof (cases "1 \<le> x")
  case True
  then have f: "1 \<le> \<lfloor>x\<rfloor>" by simp
  then have "2 ^ nat (bitlen \<lfloor>x\<rfloor> - 1) \<le> \<lfloor>x\<rfloor>" using bitlen_bounds[of "\<lfloor>x\<rfloor>"] by simp
  then have "(of_int (2 ^ nat (bitlen \<lfloor>x\<rfloor> - 1)) :: rat) \<le> of_int \<lfloor>x\<rfloor>" by (simp only: of_int_le_iff)
  also have "\<dots> \<le> x" by simp
  finally have "2 ^ nat (bitlen \<lfloor>x\<rfloor> - 1) \<le> x" by simp
  moreover have "1 \<le> bitlen \<lfloor>x\<rfloor>" using f bitlen_le_iff_power[of "\<lfloor>x\<rfloor>" 0] by (simp add: not_le)
  ultimately show ?thesis using True by (simp add: rlog2_def power_int_def)
next
  case False
  assume "0 < x"
  with False have y: "1 < 1 / x" by (simp add: field_simps)
  let ?c = "\<lceil>1 / x\<rceil> - 1"
  from y have c: "1 \<le> ?c" by linarith
  have "?c < 2 ^ nat (bitlen ?c)" using bitlen_bounds[of ?c] c by simp
  then have "\<lceil>1 / x\<rceil> \<le> 2 ^ nat (bitlen ?c)" by simp
  then have "(of_int \<lceil>1 / x\<rceil> :: rat) \<le> 2 ^ nat (bitlen ?c)" by (metis of_int_le_iff of_int_numeral of_int_power)
  moreover have "1 / x \<le> of_int \<lceil>1 / x\<rceil>" by simp
  ultimately have "1 / x \<le> 2 ^ nat (bitlen ?c)" by linarith
  with \<open>0 < x\<close> have "1 / 2 ^ nat (bitlen ?c) \<le> x" by (simp add: field_simps)
  moreover have "0 \<le> bitlen ?c" by (simp add: bitlen_def)
  ultimately show ?thesis using False
    by (cases "bitlen ?c = 0") (simp_all add: rlog2_def power_int_def power_one_over)
qed

lemma rlog2_upper: "0 < x \<Longrightarrow> x < 2 powi (rlog2 x + 1)"
proof (cases "1 \<le> x")
  case True
  then have f: "1 \<le> \<lfloor>x\<rfloor>" by simp
  then have "\<lfloor>x\<rfloor> + 1 \<le> 2 ^ nat (bitlen \<lfloor>x\<rfloor>)" using bitlen_bounds[of "\<lfloor>x\<rfloor>"] by simp
  then have "of_int (\<lfloor>x\<rfloor> + 1) \<le> (2 :: rat) ^ nat (bitlen \<lfloor>x\<rfloor>)" by (metis of_int_le_iff of_int_numeral of_int_power)
  then have "x < 2 ^ nat (bitlen \<lfloor>x\<rfloor>)" using floor_correct[of x] by linarith
  then show ?thesis using True by (simp add: rlog2_def power_int_def bitlen_def)
next
  case False
  assume "0 < x"
  with False have y: "1 < 1 / x" by (simp add: field_simps)
  let ?c = "\<lceil>1 / x\<rceil> - 1"
  from y have c: "1 \<le> ?c" by linarith
  then have b: "1 \<le> bitlen ?c" using bitlen_le_iff_power[of ?c 0] by (simp add: not_le)
  have "2 ^ nat (bitlen ?c - 1) \<le> ?c" using bitlen_bounds[of ?c] c by simp
  then have "(2 :: rat) ^ nat (bitlen ?c - 1) \<le> of_int ?c" by (metis of_int_le_iff of_int_numeral of_int_power)
  moreover have "of_int ?c < 1 / x" using ceiling_correct[of "1/x"] by linarith
  ultimately have "2 ^ nat (bitlen ?c - 1) < 1 / x" by linarith
  with \<open>0 < x\<close> have "x < 1 / 2 ^ nat (bitlen ?c - 1)" by (simp add: field_simps)
  moreover have "(2::rat) powi (1 - bitlen ?c) = 1 / 2 ^ nat (bitlen ?c - 1)" 
    using b by (cases "bitlen ?c = 1") (simp_all add: power_int_def field_simps)
  ultimately show ?thesis using False by (simp add: rlog2_def)
qed

lemma rlog2_unique:
  assumes "2 powi k \<le> x" and "x < 2 powi (k + 1)"
  shows "rlog2 x = k"
proof -
  have pos: "0 < x" using assms(1) by (meson less_le_trans zero_less_numeral zero_less_power_int)
  have "(2::rat) powi k < 2 powi (rlog2 x + 1)" using assms(1) rlog2_upper[OF pos] by (rule le_less_trans)
  then have "k < rlog2 x + 1" by simp
  moreover have "(2::rat) powi (rlog2 x) < 2 powi (k + 1)" using rlog2_lower[OF pos] assms(2) by (rule le_less_trans)
  then have "rlog2 x < k + 1" by simp
  ultimately show ?thesis by simp
qed

lemma rlog2_mono: assumes "0 < x" "x \<le> y" shows "rlog2 x \<le> rlog2 y"
proof -
  have "0 < y" using assms by simp
  have "(2::rat) powi (rlog2 x) < 2 powi (rlog2 y + 1)"
    using rlog2_lower[OF assms(1)] rlog2_upper[OF \<open>0 < y\<close>] assms(2) by linarith
  then show ?thesis by simp
qed

lemma rlog2_less_iff: assumes "0 < x" shows "rlog2 x < k \<longleftrightarrow> x < 2 powi k"
proof
  assume "rlog2 x < k"
  then have "(2::rat) powi (rlog2 x + 1) \<le> 2 powi k" by (intro power_int_increasing) auto
  then show "x < 2 powi k" using rlog2_upper[OF assms] by (rule less_le_trans [rotated])
next
  assume "x < 2 powi k"
  then have "(2::rat) powi (rlog2 x) < 2 powi k" using rlog2_lower[OF assms] by (rule le_less_trans [rotated])
  then show "rlog2 x < k" by simp
qed

lemma rne_cases: "rne x = \<lfloor>x\<rfloor> \<and> x - of_int \<lfloor>x\<rfloor> \<le> 1/2 \<or> rne x = \<lfloor>x\<rfloor> + 1 \<and> 1/2 \<le> x - of_int \<lfloor>x\<rfloor>"
  by (auto simp: rne_def Let_def)

lemma rne_error: "\<bar>of_int (rne x) - x\<bar> \<le> 1/2"
  using rne_cases[of x] floor_correct[of x] by (auto simp: abs_le_iff)

lemma rne_of_int [simp]: "rne (of_int i) = i"
  by (simp add: rne_def)

lemma rne_mono: assumes "x \<le> y" shows "rne x \<le> rne y"
proof (cases "\<lfloor>x\<rfloor> = \<lfloor>y\<rfloor>")
  case True
  then show ?thesis using assms by (auto simp: rne_def Let_def)
next
  case False
  then have "\<lfloor>x\<rfloor> + 1 \<le> \<lfloor>y\<rfloor>" using floor_mono[OF assms] by simp
  then show ?thesis using rne_cases[of x] rne_cases[of y] by auto
qed

lemma rne_minus: "rne (- x) = - rne x"
proof (cases "x = of_int \<lfloor>x\<rfloor>")
  case True
  then have "rne (- x) = rne (of_int (- \<lfloor>x\<rfloor>))" by simp
  also have "\<dots> = - rne (of_int \<lfloor>x\<rfloor>)" by (simp only: rne_of_int)
  finally show ?thesis using True by simp
next
  case False
  then have "of_int \<lfloor>x\<rfloor> < x" using of_int_floor_le[of x] by (metis less_le)
  then have f: "\<lfloor>- x\<rfloor> = - \<lfloor>x\<rfloor> - 1" using floor_correct[of x]
    by (intro floor_unique) auto
  show ?thesis unfolding rne_def f Let_def by auto
qed


lemma rnd_zero [simp]: "rnd 0 = 0"
  by (simp add: rnd_def)

lemma rnd_scaled: "rnd x = of_int (rne (x / 2 powi ulp_exp x)) * 2 powi ulp_exp x"
proof (cases "x = 0")
  case True
  then show ?thesis using rne_of_int[of 0] by (simp add: rnd_def)
qed (simp add: rnd_def Let_def)

lemma ulp_exp_minus [simp]: "ulp_exp (- x) = ulp_exp x"
  by (simp add: ulp_exp_def)

lemma ulp_exp_ge: "-1074 \<le> ulp_exp x"
  by (simp add: ulp_exp_def)

lemma rnd_minus [simp]: "rnd (- x) = - rnd x"
  by (simp add: rnd_scaled [of "- x"] rnd_scaled [of x] rne_minus)

lemma pow2_split: "j \<le> k \<Longrightarrow> (2::rat) powi k = of_int (2 ^ nat (k - j)) * 2 powi j"
  using power_int_add[of "2::rat" "k - j" j] by (simp add: power_int_def)

text \<open>Rounding stays on the side of every grid point it can represent.\<close>

lemma rnd_le_grid:
  assumes "x \<le> of_int b * 2 powi k" and "ulp_exp x \<le> k"
  shows "rnd x \<le> of_int b * 2 powi k"
proof -
  let ?u = "(2::rat) powi ulp_exp x"
  let ?c = "b * 2 ^ nat (k - ulp_exp x)"
  have eq: "of_int b * 2 powi k = of_int ?c * ?u"
    using pow2_split[OF assms(2)] by simp
  have "x / ?u \<le> of_int ?c" using assms(1) unfolding eq by (simp add: pos_divide_le_eq)
  then have "rne (x / ?u) \<le> ?c" using rne_mono rne_of_int by metis
  then have "of_int (rne (x / ?u)) * ?u \<le> of_int ?c * ?u"
    by (intro mult_right_mono) (simp_all only: of_int_le_iff, simp)
  then show ?thesis unfolding eq by (simp only: rnd_scaled)
qed

lemma rnd_ge_grid:
  assumes "of_int b * 2 powi k \<le> x" and "ulp_exp x \<le> k"
  shows "of_int b * 2 powi k \<le> rnd x"
  using rnd_le_grid[of "- x" "- b" k] assms by simp

lemma ulp_exp_upper: "\<bar>x\<bar> < 2 powi (ulp_exp x + 53)"
proof (cases "x = 0")
  case False
  have "\<bar>x\<bar> < 2 powi (rlog2 \<bar>x\<bar> + 1)" using False by (simp add: rlog2_upper)
  also have "\<dots> \<le> 2 powi (ulp_exp x + 53)" by (simp add: ulp_exp_def)
  finally show ?thesis .
qed simp

lemma rnd_grid:
  assumes "\<bar>m\<bar> \<le> 2 ^ 53" and "-1074 \<le> k"
  shows "rnd (of_int m * 2 powi k) = of_int m * 2 powi k"
proof -
  let ?x = "of_int m * 2 powi k :: rat"
  show ?thesis
  proof (cases "\<bar>m\<bar> = 2 ^ 53 \<or> m = 0")
    case False
    then have "\<bar>m\<bar> + 1 \<le> 2 ^ 53" and "m \<noteq> 0" using assms(1) by auto
    then have "of_int (\<bar>m\<bar> + 1) \<le> (2::rat) ^ 53" by (metis of_int_le_iff of_int_numeral of_int_power)
    then have "\<bar>?x\<bar> < 2 ^ 53 * 2 powi k" by (simp add: abs_mult)
    also have "\<dots> = 2 powi (53 + k)" using power_int_add[of "2::rat" 53 k] by simp
    finally have "\<bar>?x\<bar> < 2 powi (53 + k)" .
    then have "rlog2 \<bar>?x\<bar> < 53 + k" using \<open>m \<noteq> 0\<close> rlog2_less_iff[of "\<bar>?x\<bar>"] by simp
    then have "ulp_exp ?x \<le> k" using assms(2) by (simp add: ulp_exp_def)
    then show ?thesis using rnd_le_grid[of ?x m k] rnd_ge_grid[of m k ?x] by simp
  next
    case True
    then show ?thesis
    proof
      assume m: "\<bar>m\<bar> = 2 ^ 53"
      then have big: "\<bar>?x\<bar> = 2 powi (53 + k)" 
        using power_int_add[of "2::rat" 53 k] by (simp add: abs_mult flip: of_int_abs)
      have r: "rlog2 (2 powi (53 + k)) = 53 + k" by (rule rlog2_unique) simp_all
      have u: "ulp_exp ?x = k + 1" unfolding ulp_exp_def big r using assms(2) by simp
      obtain n where n: "m = 2 * n" using m by (cases "0 \<le> m") (auto simp: abs_if intro: that[of "2^52"] that[of "-(2^52)"])
      have x: "?x = of_int n * 2 powi (k + 1)" using power_int_add[of "2::rat" 1 k] by (simp add: n add.commute)
      show ?thesis using rnd_le_grid[of ?x n "k+1"] rnd_ge_grid[of n "k+1" ?x] u by (simp add: x)
    qed simp
  qed
qed

lemma rnd_on_grid: "\<exists>m k. rnd x = of_int m * 2 powi k \<and> \<bar>m\<bar> \<le> 2 ^ 53 \<and> -1074 \<le> k"
proof -
  let ?u = "(2::rat) powi ulp_exp x"
  have "\<bar>x\<bar> < 2 ^ 53 * ?u" using ulp_exp_upper[of x] power_int_add[of "2::rat" 53 "ulp_exp x"] by (simp add: add.commute)
  then have "\<bar>x / ?u\<bar> \<le> 2 ^ 53" by (simp add: abs_divide pos_divide_le_eq)
  then have "x / ?u \<le> of_int (2 ^ 53)" "of_int (- (2 ^ 53)) \<le> x / ?u" by (auto simp only: abs_le_iff of_int_power of_int_numeral of_int_minus minus_le_iff)
  then have "rne (x / ?u) \<le> 2 ^ 53" "- (2 ^ 53) \<le> rne (x / ?u)" using rne_mono rne_of_int by metis+
  then have "\<bar>rne (x / ?u)\<bar> \<le> 2 ^ 53" by (simp only: abs_le_iff minus_le_iff)
  then show ?thesis using rnd_scaled[of x] ulp_exp_ge[of x] by blast
qed

lemma rnd_idem [simp]: "rnd (rnd x) = rnd x"
  using rnd_on_grid[of x] rnd_grid by metis

lemma rnd_of_int: "\<bar>i\<bar> \<le> 2 ^ 53 \<Longrightarrow> rnd (of_int i) = of_int i"
  using rnd_grid[of i 0] by simp

lemma rnd_nonneg: "0 \<le> x \<Longrightarrow> 0 \<le> rnd x"
  using rnd_ge_grid[of 0 "ulp_exp x" x] by simp

lemma rnd_mono_pos: assumes "0 < x" "x \<le> y" shows "rnd x \<le> rnd y"
proof (cases "ulp_exp x = ulp_exp y")
  case True
  let ?u = "(2::rat) powi ulp_exp y"
  have "rne (x / ?u) \<le> rne (y / ?u)" using assms(2) by (intro rne_mono divide_right_mono) auto
  then have "of_int (rne (x / ?u)) * ?u \<le> of_int (rne (y / ?u)) * ?u"
    by (intro mult_right_mono) (simp_all only: of_int_le_iff, simp)
  then show ?thesis by (simp only: rnd_scaled[of x] rnd_scaled[of y] True)
next
  case False
  have l: "rlog2 x \<le> rlog2 y" using assms by (rule rlog2_mono)
  then have "ulp_exp x \<le> ulp_exp y" using assms by (simp add: ulp_exp_def)
  with False assms have e: "ulp_exp y = rlog2 y - 52" "ulp_exp x \<le> rlog2 y" "rlog2 x + 1 \<le> rlog2 y"
    by (auto simp: ulp_exp_def)
  have "x < 2 powi (rlog2 x + 1)" using assms(1) by (rule rlog2_upper)
  also have "\<dots> \<le> 2 powi rlog2 y" using e(3) by simp
  finally have "rnd x \<le> 2 powi rlog2 y" using rnd_le_grid[of x 1 "rlog2 y"] e(2) by simp
  also have "\<dots> \<le> rnd y" using rnd_ge_grid[of 1 "rlog2 y" y] rlog2_lower[of y] assms e(1) by simp
  finally show ?thesis .
qed

lemma rnd_mono: assumes "x \<le> y" shows "rnd x \<le> rnd y"
proof -
  consider "0 < x" | "x \<le> 0" "0 \<le> y" | "y < 0" using assms by linarith
  then show ?thesis
  proof cases
    case 1
    then show ?thesis using assms by (rule rnd_mono_pos)
  next
    case 2
    then show ?thesis using rnd_nonneg[of y] rnd_nonneg[of "- x"] by simp
  next
    case 3
    then show ?thesis using rnd_mono_pos[of "- y" "- x"] assms by simp
  qed
qed

lemma rnd_abs_error: "\<bar>rnd x - x\<bar> \<le> 2 powi ulp_exp x / 2"
proof -
  let ?u = "(2::rat) powi ulp_exp x"
  have "rnd x - x = (of_int (rne (x / ?u)) - x / ?u) * ?u" by (simp add: rnd_scaled[of x] algebra_simps)
  then have "\<bar>rnd x - x\<bar> = \<bar>of_int (rne (x / ?u)) - x / ?u\<bar> * ?u" by (simp add: abs_mult)
  also have "\<dots> \<le> 1/2 * ?u" by (intro mult_right_mono rne_error) simp
  finally show ?thesis by simp
qed

lemma rnd_rel_error: assumes "2 powi (-1022) \<le> \<bar>x\<bar>" shows "\<bar>rnd x - x\<bar> \<le> \<bar>x\<bar> / 2 ^ 53"
proof -
  have x: "0 < \<bar>x\<bar>" using assms pow2_pos by (rule less_le_trans [rotated])
  then have "\<not> rlog2 \<bar>x\<bar> < -1022" using assms rlog2_less_iff[of "\<bar>x\<bar>" "-1022"] by simp
  then have "ulp_exp x = rlog2 \<bar>x\<bar> - 52" by (simp add: ulp_exp_def)
  then have "(2::rat) powi ulp_exp x = 2 powi rlog2 \<bar>x\<bar> / 2 ^ 52" by (simp add: power_int_diff)
  then show ?thesis using rnd_abs_error[of x] rlog2_lower[OF x] by simp
qed


section \<open>The rounding contract\<close>

locale rounding =
  fixes fl :: "rat \<Rightarrow> rat"
  assumes fl_mono: "x \<le> y \<Longrightarrow> fl x \<le> fl y"
    and fl_idem: "fl (fl x) = fl x"
    and fl_odd: "fl (- x) = - fl x"
begin

lemma fl_0: "fl 0 = 0"
  using fl_odd[of 0] by simp

lemma fl_ge0: "0 \<le> x \<Longrightarrow> 0 \<le> fl x"
  using fl_mono[of 0 x] by (simp add: fl_0)

lemma fl_le0: "x \<le> 0 \<Longrightarrow> fl x \<le> 0"
  using fl_mono[of x 0] by (simp add: fl_0)

lemma fl_le_rep: "fl r = r \<Longrightarrow> x \<le> r \<Longrightarrow> fl x \<le> r"
  using fl_mono[of x r] by simp

lemma fl_ge_rep: "fl r = r \<Longrightarrow> r \<le> x \<Longrightarrow> r \<le> fl x"
  using fl_mono[of r x] by simp

lemma fl_add_ge: "fl r = r \<Longrightarrow> 0 \<le> q \<Longrightarrow> r \<le> fl (r + q)"
  by (rule fl_ge_rep) simp_all

lemma fl_diff_le: "fl r = r \<Longrightarrow> 0 \<le> q \<Longrightarrow> fl (r - q) \<le> r"
  by (rule fl_le_rep) simp_all

lemma fl_rep_max: "fl r = r \<Longrightarrow> fl s = s \<Longrightarrow> fl (max r s) = max r s"
  by (auto simp: max_def)

lemma fl_rep_min: "fl r = r \<Longrightarrow> fl s = s \<Longrightarrow> fl (min r s) = min r s"
  by (auto simp: min_def)

end

interpretation b64: rounding rnd
  by unfold_locales (simp_all add: rnd_mono)

section \<open>Finite results\<close>

lemma mkd_fin: assumes "\<bar>x\<bar> \<le> 2 ^ 1000" shows "mkd x = Fin (rnd x)"
proof -
  have r: "rnd (2 ^ 1000) = 2 ^ 1000" using rnd_grid[of 1 1000] by simp
  have "\<bar>rnd x\<bar> \<le> 2 ^ 1000"
    using assms b64.fl_le_rep[OF r, of x] b64.fl_le_rep[OF r, of "- x"] by (simp only: abs_le_iff rnd_minus)
  also have "\<dots> < 2 powi 1024" by simp
  finally have "rnd x = 0 \<or> rlog2 \<bar>rnd x\<bar> < 1024" using rlog2_less_iff[of "\<bar>rnd x\<bar>" 1024] by auto
  then show ?thesis by (auto simp: mkd_def Let_def)
qed

lemma rnd_of_nat_le: "n \<le> 2 ^ k \<Longrightarrow> rnd (of_nat n) \<le> 2 ^ k"
proof -
  assume "n \<le> 2 ^ k"
  then have "(of_nat n :: rat) \<le> 2 ^ k" by (metis of_nat_le_iff of_nat_numeral of_nat_power)
  moreover have "rnd (2 ^ k) = 2 ^ k" using rnd_grid[of 1 "int k"] by (simp add: power_int_def)
  ultimately show ?thesis by (intro b64.fl_le_rep)
qed

lemma rnd_of_nat: "n \<le> 2 ^ 53 \<Longrightarrow> rnd (of_nat n) = of_nat n"
  using rnd_of_int[of "int n"] by simp

lemma rval_nonneg [simp]: "0 \<le> rval w"
  unfolding rval_def by (rule of_nat_0_le_iff)

lemma rval_of_nat_less: "unat w < n \<Longrightarrow> rval w < of_nat n"
  unfolding rval_def by (simp only: of_nat_less_iff)

lemma rval_less_u64: "rval (w :: u64) < 2 ^ 64"
  using rval_of_nat_less[OF unat_u64_less[of w]] by simp

lemma rval_less_u32: "rval (w :: u32) < 2 ^ 32"
  using rval_of_nat_less[OF unat_u32_less[of w]] by simp

lemma rval_ge1: "0 < w \<Longrightarrow> 1 \<le> rval w"
proof -
  assume "0 < w"
  then have "1 \<le> unat w" by (simp add: word_less_nat_alt)
  then show ?thesis unfolding rval_def by (metis of_nat_1 of_nat_le_iff)
qed

lemma rval_le_iff: "rval v \<le> rval w \<longleftrightarrow> v \<le> w"
  unfolding rval_def by (simp only: of_nat_le_iff word_le_nat_alt)

lemma rval_rnd_le_u64: "rnd (rval (w :: u64)) \<le> 2 ^ 64"
  unfolding rval_def by (rule rnd_of_nat_le) (use unat_u64_less[of w] in simp)

lemma rval_rnd_le: "unat w \<le> 2 ^ k \<Longrightarrow> rnd (rval w) \<le> 2 ^ k"
  unfolding rval_def by (rule rnd_of_nat_le)

lemma rval_rnd_exact: "unat w \<le> 2 ^ 53 \<Longrightarrow> rnd (rval w) = rval w"
  unfolding rval_def by (rule rnd_of_nat)

lemma d_of_u64_fin: "d_of_u64 w = Fin (rnd (rval w))"
  unfolding d_of_u64_def
proof (rule mkd_fin)
  have "\<bar>rval w\<bar> < 2 ^ 64" using rval_less_u64[of w] by simp
  also have "\<dots> \<le> 2 ^ 1000" by simp
  finally show "\<bar>rval w\<bar> \<le> 2 ^ 1000" by simp
qed

lemma d_of_u32_fin: "d_of_u32 w = Fin (rval w)"
proof -
  have "\<bar>rval w\<bar> < 2 ^ 32" using rval_less_u32[of w] by simp
  also have "\<dots> \<le> 2 ^ 1000" by simp
  finally have "mkd (rval w) = Fin (rnd (rval w))" by (intro mkd_fin) simp
  moreover have "rnd (rval w) = rval w" using unat_u32_less[of w] by (intro rval_rnd_exact) simp
  ultimately show ?thesis by (simp add: d_of_u32_def)
qed

lemma dtrunc_nonneg: "0 \<le> x \<Longrightarrow> dtrunc x = \<lfloor>x\<rfloor>"
  by (simp add: dtrunc_def)

lemma dtrunc_mono: assumes "x \<le> y" shows "dtrunc x \<le> dtrunc y"
proof (cases "x < 0 \<and> 0 \<le> y")
  case True
  then have "\<lceil>x\<rceil> \<le> 0" "0 \<le> \<lfloor>y\<rfloor>" by (simp_all add: ceiling_le_iff)
  then have "\<lceil>x\<rceil> \<le> \<lfloor>y\<rfloor>" by (rule order.trans)
  then show ?thesis using True by (auto simp: dtrunc_def)
next
  case False
  then consider "x < 0" "y < 0" | "0 \<le> x" "0 \<le> y" using assms by linarith
  then show ?thesis
    by cases (use assms in \<open>simp_all add: dtrunc_def ceiling_mono floor_mono\<close>)
qed

lemma u64_of_d_uint: "u64_of_d (Fin x) = Inr w \<Longrightarrow> uint w = dtrunc x"
  by (auto simp: uint_word_of_int split: if_splits)

lemma u64_of_d_mono:
  assumes "u64_of_d (Fin x) = Inr v" "u64_of_d (Fin y) = Inr w" "x \<le> y"
  shows "v \<le> w"
  unfolding word_le_def u64_of_d_uint[OF assms(1)] u64_of_d_uint[OF assms(2)]
  using assms(3) by (rule dtrunc_mono)

lemma u64_of_d_total: "0 \<le> x \<Longrightarrow> x < 2 ^ 64 \<Longrightarrow> \<exists>w. u64_of_d (Fin x) = Inr w"
  by (simp add: dtrunc_nonneg floor_less_iff)

lemma u64_of_d_Fin: "u64_of_d d = Inr w \<Longrightarrow> \<exists>x. d = Fin x"
  by (cases d) auto

section \<open>Operations on finite doubles\<close>

lemma fin_arith:
  "\<bar>x + y\<bar> \<le> 2 ^ 1000 \<Longrightarrow> Fin x + Fin y = Fin (rnd (x + y))"
  "\<bar>x - y\<bar> \<le> 2 ^ 1000 \<Longrightarrow> Fin x - Fin y = Fin (rnd (x - y))"
  "\<bar>x * y\<bar> \<le> 2 ^ 1000 \<Longrightarrow> Fin x * Fin y = Fin (rnd (x * y))"
  "y \<noteq> 0 \<Longrightarrow> \<bar>x / y\<bar> \<le> 2 ^ 1000 \<Longrightarrow> Fin x / Fin y = Fin (rnd (x / y))"
  using mkd_fin[of "x - y"] by (simp_all add: mkd_fin minus_double_def)

text \<open>The magnitudes of the sources are far from overflow.\<close>

lemma fin_small:
  assumes "\<bar>x\<bar> \<le> 2 ^ 200" "\<bar>y\<bar> \<le> 2 ^ 200"
  shows "Fin x + Fin y = Fin (rnd (x + y))" "Fin x - Fin y = Fin (rnd (x - y))"
    "Fin x * Fin y = Fin (rnd (x * y))"
proof -
  have big: "(2::rat) ^ 200 + 2 ^ 200 \<le> 2 ^ 1000" "(2::rat) ^ 200 * 2 ^ 200 \<le> 2 ^ 1000" by simp_all
  have "\<bar>x + y\<bar> \<le> 2 ^ 200 + 2 ^ 200" "\<bar>x - y\<bar> \<le> 2 ^ 200 + 2 ^ 200" using assms by linarith+
  moreover have "\<bar>x * y\<bar> \<le> 2 ^ 200 * 2 ^ 200" unfolding abs_mult using assms by (intro mult_mono) auto
  ultimately show "Fin x + Fin y = Fin (rnd (x + y))" "Fin x - Fin y = Fin (rnd (x - y))"
    "Fin x * Fin y = Fin (rnd (x * y))"
    using big by (intro fin_arith; linarith)+
qed

lemma fin_div:
  assumes "0 \<le> x" "x \<le> 2 ^ 200" "1 / 2 ^ 200 \<le> y"
  shows "Fin x / Fin y = Fin (rnd (x / y))"
proof (rule fin_arith(4))
  show "y \<noteq> 0" using assms(3) by auto
  have "x / y \<le> 2 ^ 200 / (1 / 2 ^ 200)" using assms by (intro frac_le) auto
  also have "\<dots> \<le> 2 ^ 1000" by simp
  finally show "\<bar>x / y\<bar> \<le> 2 ^ 1000" using assms(1,3) by (simp add: order.trans [of 0 "1 / 2 ^ 200"])
qed

declare plus_double.simps(1) [simp del] times_double.simps(1) [simp del]
  divide_double.simps(1) [simp del] u64_of_d.simps [simp del] s64_of_d.simps [simp del]

lemma rnd_pow2: "-1074 \<le> k \<Longrightarrow> rnd (2 powi k) = 2 powi k"
  using rnd_grid[of 1 k] by simp

lemma rnd_inv_pow2: "k \<le> 1074 \<Longrightarrow> rnd (1 / 2 ^ k) = 1 / 2 ^ k"
  using rnd_pow2[of "- int k"] by (simp add: power_int_minus inverse_eq_divide)

lemma rnd_nat_pow2: "rnd (2 ^ k) = 2 ^ k"
  using rnd_pow2[of "int k"] by simp

lemma rnd_abs_le: "\<bar>x\<bar> \<le> 2 ^ k \<Longrightarrow> \<bar>rnd x\<bar> \<le> 2 ^ k"
  using b64.fl_le_rep[OF rnd_nat_pow2[of k], of x] b64.fl_le_rep[OF rnd_nat_pow2[of k], of "- x"]
  by (simp only: abs_le_iff rnd_minus)

lemma rnd_1 [simp]: "rnd 1 = 1"
  using rnd_pow2[of 0] by simp

lemma rnd_integer:
  assumes "rval (w :: u64) = of_int i"
  shows "\<exists>j. rnd (rval w) = of_int j"
proof (cases "0 \<le> ulp_exp (rval w)")
  case True
  then have "rnd (rval w) = of_int (rne (rval w / 2 powi ulp_exp (rval w)) * 2 ^ nat (ulp_exp (rval w)))"
    by (subst rnd_scaled) (simp add: power_int_def)
  then show ?thesis by blast
next
  case False
  then have u: "ulp_exp (rval w) \<le> 0" by simp
  have "rnd (rval w) = rval w"
    using rnd_le_grid[of "rval w" i 0] rnd_ge_grid[of i 0 "rval w"] u assms by simp
  then show ?thesis using assms by auto
qed

lemma rnd_rval_int: "\<exists>j. rnd (rval (w :: u64)) = of_int j"
  by (rule rnd_integer [of w "uint w"]) (simp add: rval_def)

lemma ulp_exp_mono: "0 < \<bar>x\<bar> \<Longrightarrow> \<bar>x\<bar> \<le> \<bar>y\<bar> \<Longrightarrow> ulp_exp x \<le> ulp_exp y"
  using rlog2_mono[of "\<bar>x\<bar>" "\<bar>y\<bar>"] by (simp add: ulp_exp_def)

text \<open>An absolute error bound for every value below a normal number.\<close>

lemma rnd_error_below:
  assumes "\<bar>x\<bar> \<le> y" and "2 powi (-1022) \<le> y"
  shows "\<bar>rnd x - x\<bar> \<le> y / 2 ^ 53"
proof (cases "x = 0")
  case True
  have "0 < y" using assms(2) pow2_pos by (rule less_le_trans [rotated])
  then show ?thesis using True by simp
next
  case False
  have y: "0 < y" using assms(2) pow2_pos by (rule less_le_trans [rotated])
  then have "\<not> rlog2 y < -1022" using assms(2) rlog2_less_iff[of y "-1022"] by simp
  then have u: "ulp_exp y = rlog2 y - 52" using y by (simp add: ulp_exp_def)
  have "2 powi ulp_exp x \<le> (2::rat) powi ulp_exp y"
    using ulp_exp_mono[of x y] False assms(1) y by simp
  also have "\<dots> = 2 powi rlog2 y / 2 ^ 52" by (simp add: u power_int_diff)
  finally show ?thesis using rnd_abs_error[of x] rlog2_lower[OF y] by simp
qed

lemma min_normal_le: "1 / 2 ^ 100 \<le> y \<Longrightarrow> 2 powi (-1022) \<le> (y :: rat)"
proof -
  have "(2::rat) powi (-1022) \<le> 2 powi (-100)" unfolding pow2_le_iff by simp
  also have "(2::rat) powi (-100) = 1 / 2 ^ 100" by (simp add: power_int_def power_one_over)
  finally show "1 / 2 ^ 100 \<le> y \<Longrightarrow> 2 powi (-1022) \<le> y" by (rule order.trans)
qed

text \<open>Relative error from above, for zero and for values well inside the normal range.\<close>

lemma rnd_le_rel: "x = 0 \<or> 1 / 2 ^ 100 \<le> x \<Longrightarrow> rnd x \<le> x * (1 + 1 / 2 ^ 53)"
proof (erule disjE)
  assume x: "1 / 2 ^ 100 \<le> x"
  then have "0 < x" by (rule less_le_trans [rotated]) simp
  then have "\<bar>rnd x - x\<bar> \<le> x / 2 ^ 53" using x by (intro rnd_error_below min_normal_le) auto
  then have "rnd x \<le> x + x / 2 ^ 53" by (simp only: abs_le_iff) linarith
  then show ?thesis by (simp only: distrib_left mult_1_right times_divide_eq_right)
qed simp

section \<open>Evaluation on integers\<close>

text \<open>\<open>d_eval\<close> evaluates closed double expressions whose intermediate results are integers
  of at most 53 bits.\<close>

named_theorems d_eval

lemma mkd_numeral [d_eval]: "numeral n \<le> (2 ^ 53 :: int) \<Longrightarrow> mkd (numeral n) = Fin (numeral n)"
proof -
  assume n: "numeral n \<le> (2 ^ 53 :: int)"
  have "(numeral n :: rat) = of_int (numeral n)" by simp
  also have "\<dots> \<le> of_int (2 ^ 53)" using n by (simp only: of_int_le_iff)
  also have "\<dots> \<le> 2 ^ 1000" by simp
  finally have "\<bar>numeral n :: rat\<bar> \<le> 2 ^ 1000" by simp
  then have "mkd (numeral n) = Fin (rnd (numeral n))" by (rule mkd_fin)
  then show ?thesis using rnd_of_int[of "numeral n"] n by simp
qed

lemma mkd_01 [d_eval]: "mkd 0 = Fin 0" "mkd 1 = Fin 1"
  using mkd_fin[of 0] mkd_fin[of 1] by simp_all

lemma minus_fin [d_eval]: "Fin x - Fin y = mkd (x - y)"
  by (simp add: minus_double_def plus_double.simps)

lemmas double_eval = d_eval plus_double.simps times_double.simps divide_double.simps
  u64_of_d.simps s64_of_d.simps d_of_u64_def d_of_u32_def d_of_s64_def rval_def dtrunc_def

end
