(* ===== verification/Moonem.thy ===== *)
theory Moonem
  imports Loss Float64
begin

text \<open>
  The receive loops of the hardware path emulator (\<open>src/moonem.cpp\<close>). A loop takes bursts
  of packets with their receive timestamps, stamps the accepted ones with the time they
  are to be sent and hands them to the ring of the transmitter, or, for the token bucket
  without delay, sends them at once.

  An iteration is a function of the packets that \<open>rte_eth_rx_burst\<close> returned; its result
  is the list of calls it makes and the state of the next iteration. The loop of the
  source is \<open>run_loop\<close> of the iteration over the bursts received until \<open>is_running\<close>
  turns false. Doubles are those of \<open>Float64\<close>.
\<close>

section \<open>Shared parts\<close>

text \<open>\<open>MIN\<close> and \<open>MAX\<close> with a double and an unsigned operand: the comparison and the result
  are of type double.\<close>

definition dmax :: "double \<Rightarrow> double \<Rightarrow> double" where
  "dmax a b = (if b < a then a else b)"

definition dmin :: "double \<Rightarrow> double \<Rightarrow> double" where
  "dmin a b = (if a < b then a else b)"

text \<open>The bytes a packet takes on the wire: preamble, start delimiter, frame check sequence and
  inter-frame gap are 24 bytes. The addition is on 32 bits.\<close>

definition wire_len :: "mbuf \<Rightarrow> u32" where
  "wire_len p = pkt_len p + 24"

text \<open>The end of every iteration: apply the loss model, if there is one, and hand the
  packets over. \<open>out\<close> is \<open>Enqueue\<close> or \<open>Send\<close>.\<close>

definition hand_over :: "(mbuf list \<Rightarrow> call) \<Rightarrow> moonem_config \<Rightarrow> loss_st \<Rightarrow> mbuf list \<Rightarrow> (call list \<times> loss_st) res" where
  "hand_over out c ls pkts =
     (if pkts = [] then Inr ([], ls)
      else if cfg_loss_type c \<noteq> NONE
      then rbind (applyLoss c ls pkts) (\<lambda>(acc, freed, ls'). Inr (map Free freed @ [out acc], ls'))
      else Inr ([out pkts], ls))"

section \<open>Delay only\<close>

definition add_delay :: "moonem_config \<Rightarrow> mbuf \<Rightarrow> mbuf" where
  "add_delay c p = (let ts = ts_field p; send_time = ts + cfg_delay c in p\<lparr>ts_field := send_time\<rparr>)"

definition delay_iter :: "moonem_config \<Rightarrow> loss_st \<Rightarrow> mbuf list \<Rightarrow> (call list \<times> loss_st) res" where
  "delay_iter c ls rx_pkts = hand_over Enqueue c ls (map (add_delay c) rx_pkts)"

definition receiver_loop_delay :: "moonem_config \<Rightarrow> mbuf list list \<Rightarrow> (call list \<times> loss_st) res" where
  "receiver_loop_delay c bursts = run_loop (delay_iter c) (init_loss c) bursts"

section \<open>Leaky bucket\<close>

definition B_P_NS_TARGET :: "moonem_config \<Rightarrow> double" where
  "B_P_NS_TARGET c = d_of_u64 (cfg_rate c) / Fin 1000"

definition BACKLOG_BOUND :: "moonem_config \<Rightarrow> double" where
  "BACKLOG_BOUND c = d_of_u64 (cfg_capacity c) / (B_P_NS_TARGET c / Fin 8)"

record leaky_st =
  next_at :: double
  lk_loss :: loss_st

definition leaky_step :: "moonem_config \<Rightarrow> double \<Rightarrow> mbuf \<Rightarrow> (mbuf option \<times> double) res" where
  "leaky_step c nxt p =
     (let send_time = ts_field p + cfg_delay c;
          real_send_time = dmax (d_of_u64 send_time) nxt;
          backlog = real_send_time - d_of_u64 send_time
      in if BACKLOG_BOUND c < backlog then Inr (None, nxt)
         else rbind (u64_of_d real_send_time) (\<lambda>t.
           Inr (Some (p\<lparr>ts_field := t\<rparr>),
                real_send_time + d_of_u32 (wire_len p * 8) / B_P_NS_TARGET c)))"

definition leaky_iter :: "moonem_config \<Rightarrow> leaky_st \<Rightarrow> mbuf list \<Rightarrow> (call list \<times> leaky_st) res" where
  "leaky_iter c s bufs =
     rbind (filter_loop (leaky_step c) (next_at s) bufs) (\<lambda>(bufs_accept, freed, nxt).
     rbind (hand_over Enqueue c (lk_loss s) bufs_accept) (\<lambda>(cs, ls).
       Inr (map Free freed @ cs, \<lparr>next_at = nxt, lk_loss = ls\<rparr>)))"

definition receiver_loop_rate_leaky_bucket :: "moonem_config \<Rightarrow> mbuf list list \<Rightarrow> (call list \<times> leaky_st) res" where
  "receiver_loop_rate_leaky_bucket c bursts =
     run_loop (leaky_iter c) \<lparr>next_at = Fin 0, lk_loss = init_loss c\<rparr> bursts"

section \<open>Token bucket\<close>

definition TOKEN_RATE :: "moonem_config \<Rightarrow> double" where
  "TOKEN_RATE c = d_of_u64 (cfg_rate c) / Fin 8000"

record bucket =
  previous_timestamp :: double
  previous_tokens :: double

record token_st =
  tk_bucket :: bucket
  tk_loss :: loss_st

definition token_step :: "(u64 \<Rightarrow> mbuf \<Rightarrow> mbuf) \<Rightarrow> moonem_config \<Rightarrow> bucket \<Rightarrow> mbuf \<Rightarrow> (mbuf option \<times> bucket) res" where
  "token_step stamp c b p =
     (let recv_time = ts_field p;
          current_tokens = dmin (previous_tokens b + (d_of_u64 recv_time - previous_timestamp b) * TOKEN_RATE c)
                                (d_of_u64 (cfg_capacity c));
          size = d_of_u32 (wire_len p)
      in if size < current_tokens
         then Inr (Some (stamp recv_time p),
                   \<lparr>previous_timestamp = d_of_u64 recv_time, previous_tokens = current_tokens - size\<rparr>)
         else Inr (None, b))"

definition token_iter :: "(u64 \<Rightarrow> mbuf \<Rightarrow> mbuf) \<Rightarrow> (mbuf list \<Rightarrow> call) \<Rightarrow> moonem_config \<Rightarrow> token_st \<Rightarrow> mbuf list
    \<Rightarrow> (call list \<times> token_st) res" where
  "token_iter stamp out c s bufs =
     rbind (filter_loop (token_step stamp c) (tk_bucket s) bufs) (\<lambda>(bufs_accept, freed, b).
     rbind (hand_over out c (tk_loss s) bufs_accept) (\<lambda>(cs, ls).
       Inr (map Free freed @ cs, \<lparr>tk_bucket = b, tk_loss = ls\<rparr>)))"

definition init_token :: "moonem_config \<Rightarrow> token_st" where
  "init_token c = \<lparr>tk_bucket = \<lparr>previous_timestamp = Fin 0, previous_tokens = Fin 0\<rparr>, tk_loss = init_loss c\<rparr>"

definition receiver_loop_rate_token_bucket_fwd :: "moonem_config \<Rightarrow> mbuf list list \<Rightarrow> (call list \<times> token_st) res" where
  "receiver_loop_rate_token_bucket_fwd c bursts =
     run_loop (token_iter (\<lambda>_ p. p) Send c) (init_token c) bursts"

definition receiver_loop_rate_token_bucket :: "moonem_config \<Rightarrow> mbuf list list \<Rightarrow> (call list \<times> token_st) res" where
  "receiver_loop_rate_token_bucket c bursts =
     run_loop (token_iter (\<lambda>recv_time p. p\<lparr>ts_field := recv_time + cfg_delay c\<rparr>) Enqueue c) (init_token c) bursts"

section \<open>Conservation of packets\<close>

text \<open>An output function of \<open>hand_over\<close>.\<close>

definition is_out :: "(mbuf list \<Rightarrow> call) \<Rightarrow> bool" where
  "is_out out \<longleftrightarrow> out = Enqueue \<or> out = Send"

lemma is_out_pkts: "is_out out \<Longrightarrow> call_pkts (out ps) = ps \<and> forwarded [out ps] = ps"
  by (auto simp: is_out_def)

lemma hand_over_conserve:
  assumes "hand_over out c ls pkts = Inr (cs, ls')" "is_out out"
  shows "mset (trace_ids cs) = mset (map mid pkts)"
  using assms is_out_pkts[OF assms(2)]
  by (auto simp: hand_over_def res_simps add.commute dest!: applyLoss_conserve split: if_splits)

lemma hand_over_forwarded:
  assumes "hand_over out c ls pkts = Inr (cs, ls')" "is_out out"
  shows "subseq (forwarded cs) pkts"
  using assms is_out_pkts[OF assms(2)]
  by (auto simp: hand_over_def res_simps dest!: applyLoss_subseq split: if_splits)

lemma hand_over_total:
  assumes "params_fit c" "chain_st ls < 4"
  shows "\<exists>cs ls'. hand_over out c ls ps = Inr (cs, ls') \<and> chain_st ls' < 4"
  using applyLoss_total[OF assms, of ps] assms(2) by (auto simp: hand_over_def)

context burst_filter
begin

lemma iter_conserve:
  assumes "filter_loop step s bufs = Inr (acc, freed, t)" "hand_over out c ls acc = Inr (cs, ls')" "is_out out"
  shows "mset (trace_ids (map Free freed @ cs)) = mset (map mid bufs)"
  using loop_conserve[OF assms(1)] hand_over_conserve[OF assms(2,3)] by (simp add: add.commute)

lemma iter_order:
  assumes "filter_loop step s bufs = Inr (acc, freed, t)" "hand_over out c ls acc = Inr (cs, ls')" "is_out out"
  shows "subseq (map mid (forwarded (map Free freed @ cs))) (map mid bufs)"
  using subseq_order.trans[OF Sublist.subseq_map[OF hand_over_forwarded[OF assms(2,3)]] loop_order[OF assms(1)]]
  by simp

lemma iter_props:
  assumes "rbind (filter_loop step s bufs) (\<lambda>(acc, freed, t).
      rbind (hand_over out c ls acc) (\<lambda>(cs, ls'). Inr (map Free freed @ cs, g t ls'))) = Inr (cs, s')"
    and "is_out out"
  shows "mset (trace_ids cs) = mset (map mid bufs) \<and> subseq (map mid (forwarded cs)) (map mid bufs)"
proof -
  from assms(1) obtain acc freed t cs' ls' where
    "filter_loop step s bufs = Inr (acc, freed, t)" "hand_over out c ls acc = Inr (cs', ls')"
    "cs = map Free freed @ cs'" by (auto simp: res_simps)
  then show ?thesis using iter_conserve iter_order assms(2) by blast
qed

end

interpretation dly: burst_handler "delay_iter c" "\<lambda>x. x" for c
proof unfold_locales
  fix ls x cs ls' assume "delay_iter c ls x = Inr (cs, ls')"
  then have ho: "hand_over Enqueue c ls (map (add_delay c) x) = Inr (cs, ls')" by (simp add: delay_iter_def)
  have ids: "map mid (map (add_delay c) x) = map mid x" by (simp add: add_delay_def Let_def)
  show "mset (trace_ids cs) = mset (map mid x)"
    using hand_over_conserve[OF ho] unfolding ids by (simp add: is_out_def)
  show "subseq (map mid (forwarded cs)) (map mid x)"
    using subseq_map[OF hand_over_forwarded[OF ho], of mid] unfolding ids by (simp add: is_out_def)
qed

lemma leaky_step_same:
  "leaky_step c nxt p = Inr (Some q, s') \<Longrightarrow> \<exists>t. q = p\<lparr>ts_field := t\<rparr>"
  by (auto simp: leaky_step_def Let_def res_simps split: if_splits)

lemma token_step_same:
  "token_step stamp c b p = Inr (Some q, b') \<Longrightarrow> q = stamp (ts_field p) p"
  by (auto simp: token_step_def Let_def split: if_splits)

definition ex_burst :: "mbuf list" where
  "ex_burst = [ex_pkt 0, (ex_pkt 1)\<lparr>ts_field := 10\<rparr>, (ex_pkt 2)\<lparr>ts_field := 20\<rparr>]"

lemmas ex_defs = ex_burst_def ex_cfg_def ex_pkt_def init_loss_def

end
