(* ===== verification/LeakyBucket.thy ===== *)
theory LeakyBucket
  imports Moonem
begin

text \<open>
  What the leaky bucket of \<open>Moonem\<close> guarantees: departures in order, between arrival plus
  delay and that time plus the drain time of the bucket, no undefined behaviour for
  realistic times, and where the precision of a double ends the shaping.
\<close>

section \<open>The leaky bucket\<close>

text \<open>A time the bucket can hold: a finite, non-negative double.\<close>

definition time_rep :: "rat \<Rightarrow> bool" where
  "time_rep x \<longleftrightarrow> 0 \<le> x \<and> rnd x = x"

lemma leaky_rate:
  assumes "0 < cfg_rate c"
  obtains b where "B_P_NS_TARGET c = Fin b" "1 / 2 ^ 10 \<le> b" "b \<le> 2 ^ 64" "rnd b = b"
proof
  let ?r = "rnd (rval (cfg_rate c))" and ?b = "rnd (rnd (rval (cfg_rate c)) / 1000)"
  have r: "1 \<le> ?r" "?r \<le> 2 ^ 64"
    using b64.fl_ge_rep[OF rnd_1 rval_ge1[OF assms]] rval_rnd_le_u64 by auto
  then show "B_P_NS_TARGET c = Fin ?b"
    unfolding B_P_NS_TARGET_def d_of_u64_fin by (intro fin_div) auto
  show "1 / 2 ^ 10 \<le> ?b"
    using r(1) by (intro b64.fl_ge_rep rnd_inv_pow2) auto
  show "?b \<le> 2 ^ 64"
    using r(2) by (intro b64.fl_le_rep rnd_nat_pow2) auto
  show "rnd ?b = ?b" by simp
qed

lemma leaky_bound:
  assumes "0 < cfg_rate c"
  obtains k where "BACKLOG_BOUND c = Fin k" "0 \<le> k" "rnd k = k"
proof -
  obtain b where b: "B_P_NS_TARGET c = Fin b" "1 / 2 ^ 10 \<le> b" "b \<le> 2 ^ 64" "rnd b = b"
    using leaky_rate[OF assms] .
  have e: "Fin b / Fin 8 = Fin (rnd (b / 8))" using b by (intro fin_div) auto
  have "1 / 2 ^ 13 \<le> rnd (b / 8)"
    using b(2) by (intro b64.fl_ge_rep rnd_inv_pow2) auto
  then have "BACKLOG_BOUND c = Fin (rnd (rnd (rval (cfg_capacity c)) / rnd (b / 8)))"
    unfolding BACKLOG_BOUND_def b(1) e d_of_u64_fin using rval_rnd_le_u64[of "cfg_capacity c"]
    by (intro fin_div) (auto simp: b64.fl_ge0)
  moreover have "0 \<le> rnd (rnd (rval (cfg_capacity c)) / rnd (b / 8))"
    using b(2) by (intro b64.fl_ge0 divide_nonneg_nonneg) auto
  ultimately show ?thesis using that by simp
qed

text \<open>The step of an accepted packet, on rationals: \<open>r\<close> is the send time before truncation.\<close>

lemma leaky_step_accept:
  assumes "0 < cfg_rate c" "time_rep x" "leaky_step c (Fin x) p = Inr (Some q, nxt)"
  obtains r x' k b where
    "r = max (rnd (rval (ts_field p + cfg_delay c))) x"
    "u64_of_d (Fin r) = Inr (ts_field q)" "q = p\<lparr>ts_field := ts_field q\<rparr>"
    "BACKLOG_BOUND c = Fin k" "rnd (r - rnd (rval (ts_field p + cfg_delay c))) \<le> k"
    "nxt = Fin x'" "time_rep x'" "time_rep r" "r \<le> x'"
    "B_P_NS_TARGET c = Fin b" "x' = rnd (r + rnd (rval (wire_len p * 8) / b))"
proof -
  let ?s = "rnd (rval (ts_field p + cfg_delay c))"
  let ?r = "max ?s x"
  obtain b where b: "B_P_NS_TARGET c = Fin b" "1 / 2 ^ 10 \<le> b" "b \<le> 2 ^ 64" "rnd b = b"
    using leaky_rate[OF assms(1)] .
  obtain k where k: "BACKLOG_BOUND c = Fin k" "0 \<le> k" "rnd k = k" using leaky_bound[OF assms(1)] .
  have m: "dmax (Fin ?s) (Fin x) = Fin ?r" by (auto simp: dmax_def max_def)
  let ?w = "wire_len p * 8"
  have q: "d_of_u32 ?w / B_P_NS_TARGET c = Fin (rnd (rval ?w / b))"
    unfolding b(1) d_of_u32_fin using rval_less_u32[of ?w] b(2) by (intro fin_div) auto
  have "u64_of_d (Fin ?r) = Inr (ts_field q)" and eq: "q = p\<lparr>ts_field := ts_field q\<rparr>"
    and nl: "\<not> Fin k < Fin ?r - Fin ?s" and nxt: "nxt = Fin ?r + Fin (rnd (rval ?w / b))"
    using assms(3) by (auto simp: leaky_step_def Let_def d_of_u64_fin m k(1) q res_simps split: if_splits)
  then have "\<lfloor>?r\<rfloor> < 2 ^ 64"
    using assms(2) by (auto simp: time_rep_def dtrunc_nonneg u64_of_d.simps max_def split: if_splits)
  then have r64: "?r < 2 ^ 64" by (simp add: floor_less_iff)
  have rep: "time_rep ?r" using assms(2) by (simp add: time_rep_def b64.fl_rep_max max_def)
  have w: "0 \<le> rnd (rval ?w / b)" "rnd (rval ?w / b) \<le> 2 ^ 42"
  proof -
    show "0 \<le> rnd (rval ?w / b)" using b(2) by (intro b64.fl_ge0 divide_nonneg_nonneg) auto
    have "rval ?w / b \<le> 2 ^ 32 / (1 / 2 ^ 10)" using b(2) rval_less_u32[of ?w] by (intro frac_le) auto
    then show "rnd (rval ?w / b) \<le> 2 ^ 42" by (intro b64.fl_le_rep rnd_nat_pow2) auto
  qed
  have "nxt = Fin (rnd (?r + rnd (rval ?w / b)))"
    unfolding nxt using w r64 rep by (intro fin_small) (auto simp: time_rep_def)
  moreover have "?r \<le> rnd (?r + rnd (rval ?w / b))"
    using rep w by (intro b64.fl_add_ge) (auto simp: time_rep_def)
  moreover have "time_rep (rnd (?r + rnd (rval ?w / b)))"
    using rep w by (auto simp: time_rep_def intro: b64.fl_ge0)
  moreover have "rnd (?r - ?s) \<le> k"
  proof -
    have "Fin ?r - Fin ?s = Fin (rnd (?r - ?s))"
      using r64 rep rval_rnd_le_u64[of "ts_field p + cfg_delay c"] b64.fl_ge0[OF rval_nonneg[of "ts_field p + cfg_delay c"]]
      by (intro fin_small) (auto simp: time_rep_def)
    then show ?thesis using nl by simp
  qed
  ultimately show ?thesis using that[of ?r k] \<open>u64_of_d (Fin ?r) = Inr (ts_field q)\<close> eq k(1) rep b(1) by blast
qed


lemma leaky_step_reject:
  "leaky_step c nxt p = Inr (None, nxt') \<Longrightarrow> nxt' = nxt"
  by (auto simp: leaky_step_def Let_def res_simps split: if_splits)

interpretation lk: burst_filter "leaky_step c" "\<lambda>n. 0 < cfg_rate c \<longrightarrow> (\<exists>x. n = Fin x \<and> time_rep x)" for c
proof unfold_locales
  fix n p r n'
  assume inv: "0 < cfg_rate c \<longrightarrow> (\<exists>x. n = Fin x \<and> time_rep x)" and step: "leaky_step c n p = Inr (r, n')"
  show "0 < cfg_rate c \<longrightarrow> (\<exists>x. n' = Fin x \<and> time_rep x)"
  proof
    assume rate: "0 < cfg_rate c"
    with inv obtain x where x: "n = Fin x" "time_rep x" by blast
    show "\<exists>x. n' = Fin x \<and> time_rep x"
    proof (cases r)
      case None
      then show ?thesis using step leaky_step_reject x by metis
    next
      case (Some q)
      show ?thesis
        by (rule leaky_step_accept [OF rate x(2) step [unfolded x(1) Some]]) blast
    qed
  qed
qed (auto dest: leaky_step_same)

interpretation lkr: burst_handler "leaky_iter c" "\<lambda>x. x" for c
  by unfold_locales (unfold leaky_iter_def, (drule lk.iter_props, simp_all add: is_out_def)+)

text \<open>The departures of a burst are in order, between the bucket's old and new time.\<close>

lemma leaky_loop_times:
  assumes "filter_loop (leaky_step c) (Fin x) ps = Inr (acc, freed, nxt)" "0 < cfg_rate c" "time_rep x"
  shows "\<exists>x'. nxt = Fin x' \<and> time_rep x' \<and> x \<le> x' \<and> sorted (map ts_field acc) \<and>
     (\<forall>q\<in>set acc. \<lfloor>x\<rfloor> \<le> uint (ts_field q) \<and> uint (ts_field q) \<le> \<lfloor>x'\<rfloor>)"
  using assms
proof (induction ps arbitrary: x acc freed)
  case (Cons p ps)
  from Cons.prems(1) obtain r nxt1 acc1 freed1 where
    step: "leaky_step c (Fin x) p = Inr (r, nxt1)" and
    rest: "filter_loop (leaky_step c) nxt1 ps = Inr (acc1, freed1, nxt)" and
    acc: "case r of None \<Rightarrow> acc = acc1 | Some q \<Rightarrow> acc = q # acc1"
    by (auto simp: res_simps split: option.splits)
  show ?case
  proof (cases r)
    case None
    then have "nxt1 = Fin x" using step leaky_step_reject by blast
    then show ?thesis using Cons.IH[of x acc1 freed1] rest acc None Cons.prems by simp
  next
    case (Some q)
    obtain t x1 where t: "t = max (rnd (rval (ts_field p + cfg_delay c))) x"
        "u64_of_d (Fin t) = Inr (ts_field q)" "nxt1 = Fin x1" "time_rep x1" "time_rep t" "t \<le> x1"
      using leaky_step_accept[OF Cons.prems(2,3) step[unfolded Some]] by metis
    from Cons.IH[OF rest[unfolded t(3)] Cons.prems(2) t(4)] obtain x' where
      x': "nxt = Fin x'" "time_rep x'" "x1 \<le> x'" "sorted (map ts_field acc1)"
        "\<forall>q\<in>set acc1. \<lfloor>x1\<rfloor> \<le> uint (ts_field q) \<and> uint (ts_field q) \<le> \<lfloor>x'\<rfloor>" by blast
    have q: "uint (ts_field q) = \<lfloor>t\<rfloor>"
      using u64_of_d_uint[OF t(2)] t(5) by (simp add: dtrunc_nonneg time_rep_def)
    have "x \<le> t" unfolding t(1) by simp
    then have fl: "\<lfloor>x\<rfloor> \<le> \<lfloor>t\<rfloor>" "\<lfloor>t\<rfloor> \<le> \<lfloor>x1\<rfloor>" "\<lfloor>x1\<rfloor> \<le> \<lfloor>x'\<rfloor>" using t(6) x'(3) by (simp_all add: floor_mono)
    have acc: "acc = q # acc1" using acc Some by simp
    have "\<forall>a\<in>set acc1. ts_field q \<le> ts_field a"
      unfolding word_le_def q using x'(5) fl(2) by (meson order.trans)
    moreover have "\<forall>a\<in>set acc. \<lfloor>x\<rfloor> \<le> uint (ts_field a) \<and> uint (ts_field a) \<le> \<lfloor>x'\<rfloor>"
      unfolding acc using x'(5) q fl by (auto intro: order.trans)
    moreover have "x \<le> x'" using \<open>x \<le> t\<close> t(6) x'(3) by linarith
    ultimately show ?thesis using x'(1,2,4) by (intro exI[of _ x']) (simp add: acc)
  qed
qed auto


lemma leaky_iter_times:
  assumes "leaky_iter c s bufs = Inr (cs, s')" "0 < cfg_rate c" "next_at s = Fin x" "time_rep x"
  shows "\<exists>x'. next_at s' = Fin x' \<and> time_rep x' \<and> x \<le> x' \<and> sorted (map ts_field (forwarded cs)) \<and>
     (\<forall>q\<in>set (forwarded cs). \<lfloor>x\<rfloor> \<le> uint (ts_field q) \<and> uint (ts_field q) \<le> \<lfloor>x'\<rfloor>)"
proof -
  from assms(1,3) obtain acc freed nxt cs' ls where
    loop: "filter_loop (leaky_step c) (Fin x) bufs = Inr (acc, freed, nxt)" and
    out: "hand_over Enqueue c (lk_loss s) acc = Inr (cs', ls)" and
    cs: "cs = map Free freed @ cs'" and s': "s' = \<lparr>next_at = nxt, lk_loss = ls\<rparr>"
    by (auto simp: leaky_iter_def res_simps)
  have sub: "subseq (forwarded cs) acc"
    using hand_over_forwarded[OF out] by (simp add: cs is_out_def)
  from leaky_loop_times[OF loop assms(2,4)] obtain x' where x': "nxt = Fin x'" "time_rep x'" "x \<le> x'"
      "sorted (map ts_field acc)" "\<forall>q\<in>set acc. \<lfloor>x\<rfloor> \<le> uint (ts_field q) \<and> uint (ts_field q) \<le> \<lfloor>x'\<rfloor>"
    by blast
  then show ?thesis
    using subseq_sorted_map[OF sub] subseq_set[OF sub] by (intro exI[of _ x']) (auto simp: s')
qed

lemma leaky_run_times:
  assumes "run_loop (leaky_iter c) s bursts = Inr (cs, s')" "0 < cfg_rate c" "next_at s = Fin x" "time_rep x"
  shows "sorted (map ts_field (forwarded cs)) \<and> (\<forall>q\<in>set (forwarded cs). \<lfloor>x\<rfloor> \<le> uint (ts_field q))"
  using assms
proof (induction bursts arbitrary: s cs x)
  case (Cons b bs)
  from Cons.prems(1) obtain cs1 s1 cs2 where
    it: "leaky_iter c s b = Inr (cs1, s1)" and rest: "run_loop (leaky_iter c) s1 bs = Inr (cs2, s')"
    and cs: "cs = cs1 @ cs2" by (auto simp: res_simps)
  from leaky_iter_times[OF it Cons.prems(2-4)] obtain x1 where x1: "next_at s1 = Fin x1" "time_rep x1" "x \<le> x1"
      "sorted (map ts_field (forwarded cs1))"
      "\<forall>q\<in>set (forwarded cs1). \<lfloor>x\<rfloor> \<le> uint (ts_field q) \<and> uint (ts_field q) \<le> \<lfloor>x1\<rfloor>" by blast
  from Cons.IH[OF rest Cons.prems(2) x1(1,2)]
  have ih: "sorted (map ts_field (forwarded cs2))" "\<forall>q\<in>set (forwarded cs2). \<lfloor>x1\<rfloor> \<le> uint (ts_field q)" by auto
  have "\<forall>p\<in>set (forwarded cs1). \<forall>q\<in>set (forwarded cs2). ts_field p \<le> ts_field q"
    unfolding word_le_def using x1(5) ih(2) by (meson order.trans)
  moreover have "\<forall>q\<in>set (forwarded cs2). \<lfloor>x\<rfloor> \<le> uint (ts_field q)"
    using ih(2) floor_mono[OF x1(3)] by (meson order.trans)
  ultimately show ?case using x1(4,5) ih(1) by (auto simp: cs sorted_append)
qed simp

section \<open>Properties of the leaky bucket\<close>

text \<open>The leaky bucket never reorders departures: whatever the bursts, the configuration
  (with a non-zero rate) and the loss model, the send timestamps of the packets it hands
  to the transmitter never decrease over the whole run.\<close>

theorem leaky_bucket_departures_sorted:
  assumes "receiver_loop_rate_leaky_bucket c bursts = Inr (cs, s)" "0 < cfg_rate c"
  shows "sorted (map ts_field (forwarded cs))"
  using leaky_run_times[of c _ bursts cs s 0] assms
  by (auto simp: receiver_loop_rate_leaky_bucket_def time_rep_def)

lemma ex_leaky_run:
  "receiver_loop_rate_leaky_bucket (ex_cfg NONE []) [ex_burst] =
     Inr ([Enqueue [(ex_pkt 0)\<lparr>ts_field := 5000\<rparr>, (ex_pkt 1)\<lparr>ts_field := 5084\<rparr>, (ex_pkt 2)\<lparr>ts_field := 5168\<rparr>]],
          \<lparr>next_at = Fin 5252, lk_loss = init_loss (ex_cfg NONE [])\<rparr>)"
  by (simp add: receiver_loop_rate_leaky_bucket_def run_loop.simps filter_loop.simps leaky_iter_def leaky_step_def
      hand_over_def dmax_def BACKLOG_BOUND_def B_P_NS_TARGET_def wire_len_def double_eval ex_defs)

theorem leaky_bucket_departures_sorted_witness:
  "0 < cfg_rate (ex_cfg NONE []) \<and> sorted (map ts_field (forwarded
     [Enqueue [(ex_pkt 0)\<lparr>ts_field := 5000\<rparr>, (ex_pkt 1)\<lparr>ts_field := 5084\<rparr>, (ex_pkt 2)\<lparr>ts_field := 5168\<rparr>]]))"
  using leaky_bucket_departures_sorted[OF ex_leaky_run] by (simp add: ex_cfg_def)

text \<open>Which packets come out, and when: the packet handed over carries a time between its own
  arrival time plus the delay (as a double) and that time plus the backlog bound, up to the
  rounding of the last subtraction.\<close>

definition leaky_departs :: "moonem_config \<Rightarrow> mbuf \<Rightarrow> mbuf \<Rightarrow> bool" where
  "leaky_departs c p q \<longleftrightarrow> q = p\<lparr>ts_field := ts_field q\<rparr> \<and>
     (let s = rnd (rval (ts_field p + cfg_delay c)) in
      s \<le> rval (ts_field q) \<and>
      (\<exists>k. BACKLOG_BOUND c = Fin k \<and> (rval (ts_field q) - s) * (1 - 1 / 2 ^ 53) \<le> k))"

lemma rval_floor: "uint w = \<lfloor>x\<rfloor> \<Longrightarrow> rval (w :: u64) = of_int \<lfloor>x\<rfloor>"
  by (metis rval_def of_int_of_nat_eq uint_nat)

lemma leaky_step_departs:
  assumes "0 < cfg_rate c" "time_rep x" "leaky_step c (Fin x) p = Inr (Some q, nxt)"
  shows "leaky_departs c p q"
proof (rule leaky_step_accept[OF assms])
  fix r x' k b
  let ?s = "rnd (rval (ts_field p + cfg_delay c))"
  assume r: "r = max ?s x" and q: "u64_of_d (Fin r) = Inr (ts_field q)" and eq: "q = p\<lparr>ts_field := ts_field q\<rparr>"
    and k: "BACKLOG_BOUND c = Fin k" and bl: "rnd (r - ?s) \<le> k" and rep: "time_rep r"
  have tq: "rval (ts_field q) = of_int \<lfloor>r\<rfloor>"
    using u64_of_d_uint[OF q] rep by (intro rval_floor) (simp add: dtrunc_nonneg time_rep_def)
  obtain j where j: "?s = of_int j" using rnd_rval_int[of "ts_field p + cfg_delay c"] by blast
  have "?s \<le> r" unfolding r by simp
  then have low: "?s \<le> of_int \<lfloor>r\<rfloor>" unfolding j by (simp add: le_floor_iff)
  have k0: "0 \<le> k" using leaky_bound[OF assms(1)] k by (metis double.inject(1))
  have "(of_int \<lfloor>r\<rfloor> - ?s) * (1 - 1 / 2 ^ 53) \<le> k"
  proof (cases "1 \<le> r - ?s")
    case True
    then have "\<bar>rnd (r - ?s) - (r - ?s)\<bar> \<le> (r - ?s) / 2 ^ 53"
      by (intro rnd_error_below min_normal_le) auto
    then have "(r - ?s) - (r - ?s) / 2 ^ 53 \<le> k" using bl by (simp only: abs_le_iff) linarith
    then have "(r - ?s) * (1 - 1 / 2 ^ 53) \<le> k"
      by (simp only: right_diff_distrib mult_1_right times_divide_eq_right)
    moreover have "(of_int \<lfloor>r\<rfloor> - ?s) * (1 - 1 / 2 ^ 53) \<le> (r - ?s) * (1 - 1 / 2 ^ 53)"
      by (intro mult_right_mono) auto
    ultimately show ?thesis by linarith
  next
    case False
    then have "r < of_int (j + 1)" unfolding j by simp
    then have "\<lfloor>r\<rfloor> \<le> j" by linarith
    then have "of_int \<lfloor>r\<rfloor> - ?s \<le> 0" unfolding j by simp
    then show ?thesis using k0 by (simp add: mult_nonpos_nonneg order.trans [of _ 0])
  qed
  then show ?thesis using low eq k tq by (auto simp: leaky_departs_def Let_def)
qed


lemma leaky_loop_departs:
  assumes "filter_loop (leaky_step c) (Fin x) ps = Inr (acc, freed, nxt)" "0 < cfg_rate c" "time_rep x"
  shows "\<forall>q\<in>set acc. \<exists>p\<in>set ps. leaky_departs c p q"
  using assms
proof (induction ps arbitrary: x acc freed)
  case (Cons p ps)
  from Cons.prems(1) obtain r nxt1 acc1 freed1 where
    step: "leaky_step c (Fin x) p = Inr (r, nxt1)" and
    rest: "filter_loop (leaky_step c) nxt1 ps = Inr (acc1, freed1, nxt)" and
    acc: "case r of None \<Rightarrow> acc = acc1 | Some q \<Rightarrow> acc = q # acc1"
    by (auto simp: res_simps split: option.splits)
  from lk.step_inv[of c "Fin x" p r nxt1] step Cons.prems(2,3) obtain x1 where "nxt1 = Fin x1" "time_rep x1" by blast
  then have "\<forall>q\<in>set acc1. \<exists>p\<in>set ps. leaky_departs c p q" using Cons.IH rest Cons.prems(2) by blast
  moreover have "leaky_departs c p q" if "r = Some q" for q
    using leaky_step_departs[OF Cons.prems(2,3)] step that by blast
  ultimately show ?case using acc by (auto split: option.splits)
qed simp

lemma leaky_iter_departs:
  assumes "leaky_iter c s bufs = Inr (cs, s')" "0 < cfg_rate c" "\<exists>x. next_at s = Fin x \<and> time_rep x"
  shows "(\<exists>x. next_at s' = Fin x \<and> time_rep x) \<and> (\<forall>q\<in>set (forwarded cs). \<exists>p\<in>set bufs. leaky_departs c p q)"
proof -
  from assms(3) obtain x where x: "next_at s = Fin x" "time_rep x" by blast
  from assms(1) x(1) obtain acc freed nxt cs' ls where
    loop: "filter_loop (leaky_step c) (Fin x) bufs = Inr (acc, freed, nxt)" and
    out: "hand_over Enqueue c (lk_loss s) acc = Inr (cs', ls)" and cs: "cs = map Free freed @ cs'"
    by (auto simp: leaky_iter_def res_simps)
  have "set (forwarded cs) \<subseteq> set acc"
    using subseq_set[OF hand_over_forwarded[OF out]] by (simp add: cs is_out_def)
  then show ?thesis
    using leaky_loop_departs[OF loop assms(2) x(2)] leaky_iter_times[OF assms(1,2) x] by blast
qed

lemma leaky_run_departs:
  assumes "run_loop (leaky_iter c) s0 bursts = Inr (cs, s)" "0 < cfg_rate c" "\<exists>x. next_at s0 = Fin x \<and> time_rep x"
  shows "\<forall>q\<in>set (forwarded cs). \<exists>p\<in>set (concat bursts). leaky_departs c p q"
  using assms
proof (induction bursts arbitrary: s0 cs)
  case (Cons b bs)
  from Cons.prems(1) obtain cs1 s1 cs2 where
    it: "leaky_iter c s0 b = Inr (cs1, s1)" and rest: "run_loop (leaky_iter c) s1 bs = Inr (cs2, s)"
    and cs: "cs = cs1 @ cs2" by (auto simp: res_simps)
  note step = leaky_iter_departs[OF it Cons.prems(2,3)]
  have "\<forall>q\<in>set (forwarded cs2). \<exists>p\<in>set (concat bs). leaky_departs c p q"
    using Cons.IH[OF rest Cons.prems(2)] step by blast
  then have "\<forall>q\<in>set (forwarded cs2). \<exists>p\<in>set (concat (b # bs)). leaky_departs c p q" by fastforce
  moreover have "\<forall>q\<in>set (forwarded cs1). \<exists>p\<in>set (concat (b # bs)). leaky_departs c p q" using step by fastforce
  ultimately show ?case by (auto simp: cs)
qed simp



subsection \<open>No undefined behaviour\<close>

lemma leaky_bound_small:
  assumes "0 < cfg_rate c" "cfg_capacity c < 2 ^ 48"
  obtains k where "BACKLOG_BOUND c = Fin k" "k \<le> 2 ^ 61"
proof -
  obtain b where b: "B_P_NS_TARGET c = Fin b" "1 / 2 ^ 10 \<le> b" "b \<le> 2 ^ 64" "rnd b = b"
    using leaky_rate[OF assms(1)] .
  have e: "Fin b / Fin 8 = Fin (rnd (b / 8))" using b by (intro fin_div) auto
  have lo: "1 / 2 ^ 13 \<le> rnd (b / 8)" using b(2) by (intro b64.fl_ge_rep rnd_inv_pow2) auto
  have cap: "rnd (rval (cfg_capacity c)) \<le> 2 ^ 48" "0 \<le> rnd (rval (cfg_capacity c))"
    using assms(2) rval_rnd_le[of "cfg_capacity c" 48] by (auto simp: b64.fl_ge0 word_less_nat_alt)
  have k: "BACKLOG_BOUND c = Fin (rnd (rnd (rval (cfg_capacity c)) / rnd (b / 8)))"
    unfolding BACKLOG_BOUND_def b(1) e d_of_u64_fin using lo cap by (intro fin_div) auto
  have "rnd (rval (cfg_capacity c)) / rnd (b / 8) \<le> 2 ^ 48 / (1 / 2 ^ 13)" using lo cap by (intro frac_le) auto
  then have "rnd (rval (cfg_capacity c)) / rnd (b / 8) \<le> 2 ^ 61" by simp
  then have "rnd (rnd (rval (cfg_capacity c)) / rnd (b / 8)) \<le> 2 ^ 61" by (intro b64.fl_le_rep rnd_nat_pow2)
  then show ?thesis using k that by blast
qed

lemma leaky_step_total:
  assumes "0 < cfg_rate c" "cfg_capacity c < 2 ^ 48" "time_rep x" "rnd (rval (ts_field p + cfg_delay c)) \<le> 2 ^ 62"
  shows "\<exists>r nxt. leaky_step c (Fin x) p = Inr (r, nxt)"
proof -
  let ?s = "rnd (rval (ts_field p + cfg_delay c))" let ?r = "max ?s x"
  obtain k where k: "BACKLOG_BOUND c = Fin k" "k \<le> 2 ^ 61" using leaky_bound_small[OF assms(1,2)] .
  have m: "dmax (Fin ?s) (Fin x) = Fin ?r" by (auto simp: dmax_def max_def)
  have s0: "0 \<le> ?s" by (intro b64.fl_ge0) simp
  show ?thesis
  proof (cases "x \<le> 2 ^ 63")
    case True
    then have "?r < 2 ^ 64" "0 \<le> ?r" using assms(4) s0 by auto
    then obtain t where "u64_of_d (Fin ?r) = Inr t" using u64_of_d_total by blast
    then show ?thesis by (auto simp: leaky_step_def Let_def d_of_u64_fin m k(1))
  next
    case False
    then have r: "?r = x" using assms(4) by auto
    have "2 ^ 62 \<le> x - ?s" using False assms(4) by simp
    then have "2 ^ 62 \<le> rnd (x - ?s)" by (intro b64.fl_ge_rep rnd_nat_pow2)
    then have "k < rnd (x - ?s)" using k(2) by simp
    then have "Fin k < mkd (x - ?s)" using \<open>2 ^ 62 \<le> rnd (x - ?s)\<close> by (auto simp: mkd_def Let_def dinf_def)
    then have "BACKLOG_BOUND c < Fin ?r - Fin ?s" by (simp add: k(1) r minus_fin)
    then show ?thesis by (auto simp: leaky_step_def Let_def d_of_u64_fin m)
  qed
qed

lemma leaky_iter_total:
  assumes "params_fit c" "0 < cfg_rate c" "cfg_capacity c < 2 ^ 48"
    and "\<forall>p\<in>set bufs. unat (ts_field p + cfg_delay c) \<le> 2 ^ 62"
    and "\<exists>x. next_at s = Fin x \<and> time_rep x" "chain_st (lk_loss s) < 4"
  shows "\<exists>cs s'. leaky_iter c s bufs = Inr (cs, s') \<and> (\<exists>x. next_at s' = Fin x \<and> time_rep x) \<and> chain_st (lk_loss s') < 4"
proof -
  have "\<exists>acc freed n. filter_loop (leaky_step c) (next_at s) bufs = Inr (acc, freed, n) \<and> (\<exists>x. n = Fin x \<and> time_rep x)"
  proof (rule filter_loop_total [where P = "\<lambda>n. \<exists>x. n = Fin x \<and> time_rep x", OF _ assms(5)])
    fix n p assume "\<exists>x. n = Fin x \<and> time_rep x" "p \<in> set bufs"
    then obtain x where x: "n = Fin x" "time_rep x" and p: "rnd (rval (ts_field p + cfg_delay c)) \<le> 2 ^ 62"
      using assms(4) rval_rnd_le by blast
    obtain r n' where "leaky_step c n p = Inr (r, n')"
      using leaky_step_total[OF assms(2,3) x(2) p] x(1) by auto
    then show "\<exists>r n'. leaky_step c n p = Inr (r, n') \<and> (\<exists>x. n' = Fin x \<and> time_rep x)"
      using lk.step_inv[of c n p r n'] assms(2) x by blast
  qed
  then obtain acc freed n where "filter_loop (leaky_step c) (next_at s) bufs = Inr (acc, freed, n)" "\<exists>x. n = Fin x \<and> time_rep x"
    by blast
  moreover obtain cs ls where "hand_over Enqueue c (lk_loss s) acc = Inr (cs, ls)" "chain_st ls < 4"
    using hand_over_total[OF assms(1,6)] by blast
  ultimately show ?thesis by (simp add: leaky_iter_def)
qed



subsection \<open>Where the precision of a double ends the shaping\<close>

lemma rnd_absorb:
  assumes "rnd x = x" "2 ^ 60 \<le> x" "x < 2 ^ 61" "0 \<le> q" "q \<le> 100"
  shows "rnd (x + q) = x"
proof -
  have ue: "ulp_exp y = 8" if "2 ^ 60 \<le> y" "y < 2 ^ 61" for y :: rat
  proof -
    have "rlog2 \<bar>y\<bar> = 60" using that by (intro rlog2_unique) simp_all
    then show ?thesis by (simp add: ulp_exp_def)
  qed
  define m where "m = rne (x / 2 powi 8)"
  have "x = of_int m * 2 powi 8"
    using assms(1) rnd_scaled[of x] unfolding ue[OF assms(2,3)] m_def by simp
  then have m: "x = of_int m * 256" by simp
  then have "of_int m < (of_int (2 ^ 53) :: rat)" using assms(3) by simp
  then have "m + 1 \<le> 2 ^ 53" by (simp only: of_int_less_iff)
  then have "of_int (m + 1) \<le> (of_int (2 ^ 53) :: rat)" by (simp only: of_int_le_iff)
  then have "x + q < 2 ^ 61" "2 ^ 60 \<le> x + q" using m assms(2,4,5) by simp_all
  then have u: "ulp_exp (x + q) = 8" by (rule ue[rotated])
  have y: "(x + q) / 256 = of_int m + q / 256" by (simp add: m add_divide_distrib)
  have "\<lfloor>of_int m + q / 256\<rfloor> = m" using assms(4,5) by (intro floor_unique) auto
  then have "rne ((x + q) / 256) = m" unfolding y rne_def Let_def using assms(5) by simp
  moreover have "rnd (x + q) = of_int (rne ((x + q) / 2 powi 8)) * 2 powi 8"
    using rnd_scaled[of "x + q"] unfolding u .
  ultimately have "rnd (x + q) = of_int m * 256" by simp
  with m show ?thesis by simp
qed

text \<open>From \<open>2\<^sup>6\<^sup>0\<close> nanoseconds on (36 years, which a clock that counts from 1970 has
  passed) the leaky bucket does not see short packets: when the serialisation time of an
  accepted packet is at most 100 ns, adding it to the send time is absorbed by the rounding
  of the double, the time of the next departure does not move, and the packet costs nothing.\<close>

theorem leaky_bucket_precision_loss:
  assumes "leaky_step c (Fin x) p = Inr (Some q, nxt)" "0 < cfg_rate c" "0 \<le> x" "rnd x = x"
    and "2 ^ 60 \<le> rval (ts_field q)" "rval (ts_field q) < 2 ^ 61"
    and "B_P_NS_TARGET c = Fin b" "rval (wire_len p * 8) \<le> 100 * b"
  shows "nxt = Fin (max (rnd (rval (ts_field p + cfg_delay c))) x)"
proof -
  have "time_rep x" using assms(3,4) by (simp add: time_rep_def)
  then show ?thesis
  proof (rule leaky_step_accept[OF assms(2) _ assms(1)])
    fix r x' k b'
    assume r: "r = max (rnd (rval (ts_field p + cfg_delay c))) x" "u64_of_d (Fin r) = Inr (ts_field q)"
      "nxt = Fin x'" "time_rep r" "B_P_NS_TARGET c = Fin b'" "x' = rnd (r + rnd (rval (wire_len p * 8) / b'))"
    obtain b0 where "B_P_NS_TARGET c = Fin b0" "1 / 2 ^ 10 \<le> b0" using leaky_rate[OF assms(2)] .
    then have b: "b' = b" "0 < b" using r(5) assms(7) by (auto intro: less_le_trans [of 0 "1 / 2 ^ 10"])
    have tq: "rval (ts_field q) = of_int \<lfloor>r\<rfloor>"
      using u64_of_d_uint[OF r(2)] r(4) by (intro rval_floor) (simp add: dtrunc_nonneg time_rep_def)
    have "2 ^ 60 \<le> r" using assms(5) tq of_int_floor_le[of r] by linarith
    moreover have "\<lfloor>r\<rfloor> < 2 ^ 61" using assms(6) unfolding tq by (metis of_int_less_iff of_int_numeral of_int_power)
    then have "r < 2 ^ 61" by (simp add: floor_less_iff)
    moreover have "rnd (rval (wire_len p * 8) / b) \<le> 100"
      using assms(8) b(2) rnd_of_int[of 100] by (intro b64.fl_le_rep) (auto simp: pos_divide_le_eq)
    moreover have "0 \<le> rnd (rval (wire_len p * 8) / b)" using b(2) by (intro b64.fl_ge0) simp
    ultimately have "x' = r" using r(4,6) b(1) rnd_absorb[of r] by (simp add: time_rep_def)
    then show ?thesis using r(1,3) by simp
  qed
qed


definition ex_late :: mbuf where
  "ex_late = (ex_pkt 1)\<lparr>ts_field := 0xFFFFFFFFFFFEC78\<rparr>"

definition ex_fast :: moonem_config where
  "ex_fast = (ex_cfg NONE [])\<lparr>cfg_rate := 16000\<rparr>"

lemma ex_late_step:
  "leaky_step ex_fast (Fin 0) ex_late = Inr (Some (ex_late\<lparr>ts_field := 0x1000000000000000\<rparr>), Fin (2 ^ 60))"
proof -
  have m: "mkd 1152921504606846976 = Fin 1152921504606846976" "mkd 1152921504606847018 = Fin 1152921504606846976"
    using mkd_fin[of "2 ^ 60"] rnd_nat_pow2[of 60] mkd_fin[of "2 ^ 60 + 42"] rnd_absorb[of "2 ^ 60" 42] by simp_all
  show ?thesis
    by (simp add: ex_late_def ex_fast_def leaky_step_def dmax_def BACKLOG_BOUND_def B_P_NS_TARGET_def
        wire_len_def double_eval m ex_defs)
qed

theorem leaky_bucket_precision_loss_witness:
  "leaky_step ex_fast (Fin 0) ex_late = Inr (Some (ex_late\<lparr>ts_field := 0x1000000000000000\<rparr>), Fin (2 ^ 60)) \<and>
   Fin (2 ^ 60) = Fin (max (rnd (rval (ts_field ex_late + cfg_delay ex_fast))) 0)"
  by (rule conjI[OF ex_late_step], rule leaky_bucket_precision_loss[OF ex_late_step, of 16])
    (simp_all add: rval_def ex_late_def ex_fast_def B_P_NS_TARGET_def double_eval wire_len_def ex_defs)

end
