(* ===== verification/TokenBucket.thy ===== *)
theory TokenBucket
  imports Moonem
begin

text \<open>
  What the token buckets of \<open>Moonem\<close> guarantee: they never leave the range of their
  capacity, they have no undefined behaviour, and over any stretch of time they let
  through no more bytes than the capacity plus the token rate times that stretch, up to
  an explicit bound on the rounding of doubles.
\<close>

section \<open>The state of the bucket\<close>

definition cap :: "moonem_config \<Rightarrow> rat" where
  "cap c = rnd (rval (cfg_capacity c))"

definition tok_rate :: "moonem_config \<Rightarrow> rat" where
  "tok_rate c = rnd (rnd (rval (cfg_rate c)) / 8000)"

definition bucket_at :: "moonem_config \<Rightarrow> bucket \<Rightarrow> rat \<Rightarrow> rat \<Rightarrow> bool" where
  "bucket_at c b t k \<longleftrightarrow> previous_timestamp b = Fin t \<and> previous_tokens b = Fin k \<and>
     (\<exists>w :: u64. t = rnd (rval w)) \<and> 0 \<le> k \<and> k \<le> cap c \<and> rnd k = k"

lemma cap_bounds: "0 \<le> cap c" "cap c \<le> 2 ^ 64" "rnd (cap c) = cap c"
  using rval_rnd_le_u64[of "cfg_capacity c"] by (simp_all add: cap_def b64.fl_ge0)

lemma tok_rate_bounds: "0 \<le> tok_rate c" "tok_rate c \<le> 2 ^ 64"
proof -
  show "0 \<le> tok_rate c" by (simp add: tok_rate_def b64.fl_ge0)
  have "rnd (rval (cfg_rate c)) / 8000 \<le> 2 ^ 64" using rval_rnd_le_u64[of "cfg_rate c"] by simp
  then show "tok_rate c \<le> 2 ^ 64" unfolding tok_rate_def by (intro b64.fl_le_rep rnd_nat_pow2)
qed

lemma TOKEN_RATE_fin: "TOKEN_RATE c = Fin (tok_rate c)"
  unfolding TOKEN_RATE_def tok_rate_def d_of_u64_fin
  using rval_rnd_le_u64[of "cfg_rate c"] by (intro fin_div) (auto simp: b64.fl_ge0)

lemma time_bounds: "0 \<le> rnd (rval (w :: u64))" "rnd (rval w) \<le> 2 ^ 64"
  using rval_rnd_le_u64[of w] by (simp_all add: b64.fl_ge0)

text \<open>The tokens at the arrival of a packet at time \<open>t'\<close>, on rationals.\<close>

definition tokens_at :: "moonem_config \<Rightarrow> rat \<Rightarrow> rat \<Rightarrow> rat \<Rightarrow> rat" where
  "tokens_at c t k t' = min (rnd (k + rnd (rnd (t' - t) * tok_rate c))) (cap c)"

lemma tokens_at_fin:
  assumes "bucket_at c b t k"
  shows "dmin (previous_tokens b + (d_of_u64 w - previous_timestamp b) * TOKEN_RATE c) (d_of_u64 (cfg_capacity c)) =
     Fin (tokens_at c t k (rnd (rval w)))"
proof -
  let ?t = "rnd (rval w)"
  from assms have b: "previous_timestamp b = Fin t" "previous_tokens b = Fin k" "0 \<le> k" "k \<le> cap c"
    and t: "0 \<le> t" "t \<le> 2 ^ 64" using time_bounds by (auto simp: bucket_at_def)
  have dt: "\<bar>?t - t\<bar> \<le> 2 ^ 64" using t time_bounds[of w] by linarith
  have d: "Fin ?t - Fin t = Fin (rnd (?t - t))"
    using t time_bounds[of w] by (intro fin_small) simp_all
  have rd: "\<bar>rnd (?t - t)\<bar> \<le> 2 ^ 64" using dt by (rule rnd_abs_le)
  have p: "Fin (rnd (?t - t)) * Fin (tok_rate c) = Fin (rnd (rnd (?t - t) * tok_rate c))"
    using rd tok_rate_bounds[of c] by (intro fin_small) simp_all
  have "\<bar>rnd (?t - t) * tok_rate c\<bar> \<le> 2 ^ 64 * 2 ^ 64"
    unfolding abs_mult using rd tok_rate_bounds[of c] by (intro mult_mono) auto
  then have "\<bar>rnd (?t - t) * tok_rate c\<bar> \<le> 2 ^ 128" by simp
  then have "\<bar>rnd (rnd (?t - t) * tok_rate c)\<bar> \<le> 2 ^ 128" by (rule rnd_abs_le)
  then have q: "Fin k + Fin (rnd (rnd (?t - t) * tok_rate c)) = Fin (rnd (k + rnd (rnd (?t - t) * tok_rate c)))"
    using b(3,4) cap_bounds[of c] by (intro fin_small) simp_all
  show ?thesis
    unfolding b(1,2) d_of_u64_fin TOKEN_RATE_fin d p q tokens_at_def cap_def[symmetric]
    by (auto simp: dmin_def min_def)
qed

text \<open>One packet: accepted exactly when its wire length is below the tokens at its arrival.\<close>

lemma token_step_eq:
  assumes "bucket_at c b t k"
  shows "token_step stamp c b p =
    (let cur = tokens_at c t k (rnd (rval (ts_field p))) in
     if rval (wire_len p) < cur
     then Inr (Some (stamp (ts_field p) p),
               \<lparr>previous_timestamp = Fin (rnd (rval (ts_field p))), previous_tokens = Fin (rnd (cur - rval (wire_len p)))\<rparr>)
     else Inr (None, b))"
proof -
  let ?cur = "tokens_at c t k (rnd (rval (ts_field p)))"
  have "Fin ?cur - Fin (rval (wire_len p)) = Fin (rnd (?cur - rval (wire_len p)))" if "rval (wire_len p) < ?cur"
  proof (rule fin_small)
    have "0 \<le> ?cur" using that rval_nonneg[of "wire_len p"] by linarith
    then show "\<bar>?cur\<bar> \<le> 2 ^ 200" using cap_bounds[of c] by (simp add: tokens_at_def)
    show "\<bar>rval (wire_len p)\<bar> \<le> 2 ^ 200" using rval_less_u32[of "wire_len p"] by simp
  qed
  then show ?thesis
    unfolding token_step_def Let_def tokens_at_fin[OF assms] d_of_u32_fin by (simp add: d_of_u64_fin)
qed

lemma tokens_left:
  assumes "bucket_at c b t k" "rval (wire_len p) < tokens_at c t k (rnd (rval (ts_field p)))"
  shows "bucket_at c \<lparr>previous_timestamp = Fin (rnd (rval (ts_field p))),
      previous_tokens = Fin (rnd (tokens_at c t k (rnd (rval (ts_field p))) - rval (wire_len p)))\<rparr>
    (rnd (rval (ts_field p))) (rnd (tokens_at c t k (rnd (rval (ts_field p))) - rval (wire_len p)))"
proof -
  let ?cur = "tokens_at c t k (rnd (rval (ts_field p)))"
  have "?cur \<le> cap c" by (simp add: tokens_at_def)
  then have "?cur - rval (wire_len p) \<le> cap c" using rval_nonneg[of "wire_len p"] by linarith
  then have "rnd (?cur - rval (wire_len p)) \<le> cap c" by (rule b64.fl_le_rep [OF cap_bounds(3)])
  moreover have "0 \<le> rnd (?cur - rval (wire_len p))" using assms(2) by (intro b64.fl_ge0) simp
  ultimately show ?thesis by (auto simp: bucket_at_def)
qed

lemma token_step_cases:
  assumes "bucket_at c b t k"
  obtains "token_step stamp c b p = Inr (None, b)"
    | b' k' where "token_step stamp c b p = Inr (Some (stamp (ts_field p) p), b')"
      "bucket_at c b' (rnd (rval (ts_field p))) k'"
      "k' = rnd (tokens_at c t k (rnd (rval (ts_field p))) - rval (wire_len p))"
      "rval (wire_len p) < tokens_at c t k (rnd (rval (ts_field p)))"
  using that token_step_eq[OF assms, of stamp p] tokens_left[OF assms, of p] unfolding Let_def by metis

lemma bucket_at_init: "bucket_at c \<lparr>previous_timestamp = Fin 0, previous_tokens = Fin 0\<rparr> 0 0"
proof -
  have "(0 :: rat) = rnd (rval (0 :: u64))" by (simp add: rval_def)
  then show ?thesis using cap_bounds[of c] by (auto simp: bucket_at_def)
qed

definition bucket_ok :: "moonem_config \<Rightarrow> bucket \<Rightarrow> bool" where
  "bucket_ok c b \<longleftrightarrow> (\<exists>t k. bucket_at c b t k)"

lemma token_step_total:
  assumes "bucket_ok c b"
  shows "\<exists>r b'. token_step stamp c b p = Inr (r, b') \<and> bucket_ok c b'"
proof -
  obtain t k where tk: "bucket_at c b t k" using assms by (auto simp: bucket_ok_def)
  show ?thesis
    by (rule token_step_cases[OF tk, of stamp p]) (use assms in \<open>auto simp: bucket_ok_def\<close>)
qed

lemma token_step_ok:
  "bucket_ok c b \<Longrightarrow> token_step stamp c b p = Inr (r, b') \<Longrightarrow> bucket_ok c b'"
  using token_step_total[of c b stamp p] by force

text \<open>The two ways an accepted packet is stamped.\<close>

definition stamp_ok :: "(u64 \<Rightarrow> mbuf \<Rightarrow> mbuf) \<Rightarrow> bool" where
  "stamp_ok stamp \<longleftrightarrow> (\<exists>f. \<forall>t p. stamp t p = p\<lparr>ts_field := f t p\<rparr>)"

lemma stamp_fwd_ok: "stamp_ok (\<lambda>_ p. p)"
  unfolding stamp_ok_def by (rule exI[of _ "\<lambda>t p. ts_field p"]) simp

lemma stamp_delay_ok: "stamp_ok (\<lambda>t p. p\<lparr>ts_field := t + d\<rparr>)"
  unfolding stamp_ok_def by (rule exI[of _ "\<lambda>t p. t + d"]) simp

interpretation fwd: burst_filter "token_step (\<lambda>_ p. p) c" "bucket_ok c" for c
  by unfold_locales (auto dest: token_step_ok token_step_same)

interpretation tkb: burst_filter "token_step (\<lambda>t p. p\<lparr>ts_field := t + cfg_delay c\<rparr>) c" "bucket_ok c" for c
  by unfold_locales (auto dest: token_step_ok token_step_same)

interpretation fwdr: burst_handler "token_iter (\<lambda>_ p. p) Send c" "\<lambda>x. x" for c
  by unfold_locales (unfold token_iter_def, (drule fwd.iter_props, simp_all add: is_out_def)+)

interpretation tkbr: burst_handler "token_iter (\<lambda>t p. p\<lparr>ts_field := t + cfg_delay c\<rparr>) Enqueue c" "\<lambda>x. x" for c
  by unfold_locales (unfold token_iter_def, (drule tkb.iter_props, simp_all add: is_out_def)+)

section \<open>Conformance\<close>

text \<open>The bytes one packet takes out of the bucket, against the tokens earned since the last one.
  \<open>slack\<close> is the rounding of two operations on values up to the capacity.\<close>

definition slack :: "moonem_config \<Rightarrow> rat" where
  "slack c = 2 * (cap c / 2 ^ 53)"

definition earned :: "moonem_config \<Rightarrow> rat \<Rightarrow> rat" where
  "earned c d = d * tok_rate c * (1 + 1 / 2 ^ 53) ^ 2"

lemma tok_rate_zero_or: "tok_rate c = 0 \<or> 1 / 2 ^ 13 \<le> tok_rate c"
proof (cases "cfg_rate c = 0")
  case True
  then show ?thesis by (simp add: tok_rate_def rval_def)
next
  case False
  then have "1 \<le> rval (cfg_rate c)" by (intro rval_ge1) (simp add: word_neq_0_conv)
  then have "1 \<le> rnd (rval (cfg_rate c))" by (intro b64.fl_ge_rep) simp_all
  then have "1 / 2 ^ 13 \<le> rnd (rval (cfg_rate c)) / 8000" by simp
  then show ?thesis unfolding tok_rate_def by (intro disjI2 b64.fl_ge_rep rnd_inv_pow2) auto
qed

lemma earned_bound:
  assumes "t = rnd (rval (v :: u64))" "t' = rnd (rval (w :: u64))" "t \<le> t'"
  shows "rnd (rnd (t' - t) * tok_rate c) \<le> earned c (t' - t)"
proof -
  obtain i j where "t = of_int i" "t' = of_int j" using rnd_rval_int assms(1,2) by metis
  then have d: "t' - t = 0 \<or> 1 \<le> t' - t" using assms(3) by auto
  then have rd: "rnd (t' - t) \<le> (t' - t) * (1 + 1 / 2 ^ 53)" "rnd (t' - t) = 0 \<or> 1 \<le> rnd (t' - t)"
    using rnd_le_rel[of "t' - t"] b64.fl_ge_rep[OF rnd_1] by auto
  have "rnd (t' - t) * tok_rate c = 0 \<or> 1 / 2 ^ 100 \<le> rnd (t' - t) * tok_rate c"
  proof (cases "rnd (t' - t) = 0 \<or> tok_rate c = 0")
    case False
    then have "1 * (1 / 2 ^ 13) \<le> rnd (t' - t) * tok_rate c"
      using rd(2) tok_rate_zero_or[of c] by (intro mult_mono) auto
    then have "1 / 2 ^ 100 \<le> rnd (t' - t) * tok_rate c" by (rule order.trans [rotated]) simp
    then show ?thesis ..
  qed auto
  then have "rnd (rnd (t' - t) * tok_rate c) \<le> rnd (t' - t) * tok_rate c * (1 + 1 / 2 ^ 53)"
    by (rule rnd_le_rel)
  also have "\<dots> \<le> (t' - t) * (1 + 1 / 2 ^ 53) * tok_rate c * (1 + 1 / 2 ^ 53)"
    using rd(1) tok_rate_bounds(1)[of c] by (intro mult_right_mono) auto
  also have "\<dots> = earned c (t' - t)" by (simp add: earned_def power2_eq_square)
  finally show ?thesis .
qed

lemma token_step_conform:
  assumes "bucket_at c b t k" "t \<le> rnd (rval (ts_field p))" "1 \<le> cap c"
    and k': "k' = rnd (tokens_at c t k (rnd (rval (ts_field p))) - rval (wire_len p))"
    and acc: "rval (wire_len p) < tokens_at c t k (rnd (rval (ts_field p)))"
  shows "rval (wire_len p) + k' \<le> k + earned c (rnd (rval (ts_field p)) - t) + slack c"
proof -
  let ?t = "rnd (rval (ts_field p))" let ?cur = "tokens_at c t k ?t" let ?s = "rval (wire_len p)"
  let ?e = "rnd (rnd (?t - t) * tok_rate c)"
  have "1 / 2 ^ 100 \<le> cap c" using assms(3) by (rule order.trans [rotated]) simp
  then have n: "2 powi (-1022) \<le> cap c" by (rule min_normal_le)
  obtain w :: u64 where w: "t = rnd (rval w)" using assms(1) by (auto simp: bucket_at_def)
  have e: "?e \<le> earned c (?t - t)" using w refl assms(2) by (rule earned_bound)
  have k: "0 \<le> k" using assms(1) by (simp add: bucket_at_def)
  have cur: "?cur \<le> cap c" "?cur \<le> rnd (k + ?e)" by (simp_all add: tokens_at_def)
  have e0: "0 \<le> ?e" using assms(2) tok_rate_bounds(1)[of c] by (intro b64.fl_ge0 mult_nonneg_nonneg) auto
  have c1: "?cur \<le> k + ?e + cap c / 2 ^ 53"
  proof (cases "k + ?e \<le> cap c")
    case True
    then have "\<bar>rnd (k + ?e) - (k + ?e)\<bar> \<le> cap c / 2 ^ 53" using k e0 n by (intro rnd_error_below) auto
    then show ?thesis using cur(2) by (simp only: abs_le_iff) linarith
  next
    case False
    moreover have "0 \<le> cap c / 2 ^ 53" using cap_bounds(1)[of c] by simp
    ultimately show ?thesis using cur(1) by linarith
  qed
  have "\<bar>?cur - ?s\<bar> \<le> cap c" using acc cur(1) rval_nonneg[of "wire_len p"] by linarith
  then have "\<bar>rnd (?cur - ?s) - (?cur - ?s)\<bar> \<le> cap c / 2 ^ 53" using n by (rule rnd_error_below)
  then have "?s + k' \<le> ?cur + cap c / 2 ^ 53" unfolding k' by (simp only: abs_le_iff) linarith
  then show ?thesis using c1 e unfolding slack_def by linarith
qed


abbreviation arrival :: "mbuf \<Rightarrow> rat" where
  "arrival p \<equiv> rnd (rval (ts_field p))"

abbreviation wire_sum :: "mbuf list \<Rightarrow> rat" where
  "wire_sum ps \<equiv> sum_list (map (\<lambda>p. rval (wire_len p)) ps)"

lemma arrival_mono: "ts_field p \<le> ts_field q \<Longrightarrow> arrival p \<le> arrival q"
  by (intro rnd_mono) (simp add: rval_le_iff)

lemma earned_add: "earned c (a - b) + earned c (d - a) = earned c (d - b)"
  by (simp add: earned_def algebra_simps)

lemma slack_nonneg: "0 \<le> slack c"
  using cap_bounds(1)[of c] by (simp add: slack_def)

lemma wire_len_stamp: "stamp_ok stamp \<Longrightarrow> wire_len (stamp t p) = wire_len p"
  by (auto simp: stamp_ok_def wire_len_def)

lemma wire_sum_nonneg: "0 \<le> wire_sum ps"
  by (intro sum_list_nonneg) auto

lemma wire_sum_subseq: "subseq xs ys \<Longrightarrow> wire_sum xs \<le> wire_sum ys"
  by (induction rule: list_emb.induct) (auto simp: add_increasing wire_sum_nonneg)

text \<open>\<open>conforms c t k b n ps bytes\<close>: from time \<open>t\<close> with \<open>k\<close> tokens the bucket has come to state \<open>b\<close>,
  at the time of one of the packets \<open>ps\<close>, having let \<open>bytes\<close> through in \<open>n\<close> packets or less.\<close>

definition conforms :: "moonem_config \<Rightarrow> rat \<Rightarrow> rat \<Rightarrow> bucket \<Rightarrow> mbuf list \<Rightarrow> rat \<Rightarrow> bool" where
  "conforms c t k b ps bytes \<longleftrightarrow> (\<exists>t' k'. bucket_at c b t' k' \<and> t \<le> t' \<and> (t' = t \<or> t' \<in> arrival ` set ps) \<and>
     bytes + k' \<le> k + earned c (t' - t) + of_nat (length ps) * slack c)"

lemma token_loop_conform:
  assumes "filter_loop (token_step stamp c) b ps = Inr (acc, freed, b')" "bucket_at c b t k"
    and "sorted (map ts_field ps)" "\<forall>p\<in>set ps. t \<le> arrival p" "1 \<le> cap c" "stamp_ok stamp"
  shows "conforms c t k b' ps (wire_sum acc)"
  using assms(1-4)
proof (induction ps arbitrary: b t k acc freed)
  case Nil
  then show ?case by (auto simp: conforms_def earned_def)
next
  case (Cons p ps)
  from Cons.prems(1) obtain r b1 acc1 freed1 where
    step: "token_step stamp c b p = Inr (r, b1)" and
    rest: "filter_loop (token_step stamp c) b1 ps = Inr (acc1, freed1, b')" and
    acc: "case r of None \<Rightarrow> acc = acc1 | Some q \<Rightarrow> acc = q # acc1"
    by (auto simp: res_simps split: option.splits)
  have srt: "sorted (map ts_field ps)" and first: "\<forall>q\<in>set ps. arrival p \<le> arrival q"
    using Cons.prems(3) by (auto intro: arrival_mono)
  show ?case
  proof (rule token_step_cases [OF Cons.prems(2), of stamp p])
    assume "token_step stamp c b p = Inr (None, b)"
    then have r: "r = None" "b1 = b" using step by auto
    have "conforms c t k b' ps (wire_sum acc)"
      using Cons.IH[OF rest[unfolded r(2)] Cons.prems(2) srt] acc r(1) Cons.prems(4) by simp
    then show ?thesis using slack_nonneg[of c] by (fastforce simp: conforms_def distrib_right)
  next
    fix b2 k2
    assume a: "token_step stamp c b p = Inr (Some (stamp (ts_field p) p), b2)" "bucket_at c b2 (arrival p) k2"
      "k2 = rnd (tokens_at c t k (arrival p) - rval (wire_len p))"
      "rval (wire_len p) < tokens_at c t k (arrival p)"
    have le: "rval (wire_len p) + k2 \<le> k + earned c (arrival p - t) + slack c"
      using token_step_conform[OF Cons.prems(2) _ assms(5) a(3,4)] Cons.prems(4) by simp
    have "b1 = b2" using step a(1) by simp
    then have "conforms c (arrival p) k2 b' ps (wire_sum acc1)"
      using Cons.IH[OF rest _ srt first] a(2) by simp
    then obtain t' k' where t': "bucket_at c b' t' k'" "arrival p \<le> t'" "t' = arrival p \<or> t' \<in> arrival ` set ps"
      "wire_sum acc1 + k' \<le> k2 + earned c (t' - arrival p) + of_nat (length ps) * slack c"
      unfolding conforms_def by blast
    have "wire_sum acc = rval (wire_len p) + wire_sum acc1"
      using acc step a(1) assms(6) by (auto simp: wire_len_stamp)
    then have "wire_sum acc + k' \<le> k + earned c (t' - t) + of_nat (length (p # ps)) * slack c"
      using le t'(4) earned_add[of c "arrival p" t t'] by (simp add: distrib_right)
    moreover have "t \<le> t'" using Cons.prems(4) t'(2) by simp
    ultimately show ?thesis using t'(1,3) unfolding conforms_def by auto
  qed
qed

lemma conforms_sub:
  assumes "conforms c t k b ps x" "y \<le> x"
  shows "conforms c t k b ps y"
proof -
  from assms(1) obtain t' k' where "bucket_at c b t' k'" "t \<le> t'" "t' = t \<or> t' \<in> arrival ` set ps"
      "x + k' \<le> k + earned c (t' - t) + of_nat (length ps) * slack c" unfolding conforms_def by blast
  with assms(2) show ?thesis unfolding conforms_def by (intro exI[of _ t'] exI[of _ k']) simp
qed

lemma conforms_trans:
  assumes "conforms c t k b ps x" "\<And>t' k'. bucket_at c b t' k' \<Longrightarrow> t \<le> t' \<Longrightarrow> t' = t \<or> t' \<in> arrival ` set ps \<Longrightarrow>
      conforms c t' k' b' qs y"
  shows "conforms c t k b' (ps @ qs) (x + y)"
proof -
  from assms(1) obtain t' k' where 1: "bucket_at c b t' k'" "t \<le> t'" "t' = t \<or> t' \<in> arrival ` set ps"
      "x + k' \<le> k + earned c (t' - t) + of_nat (length ps) * slack c" unfolding conforms_def by blast
  from assms(2)[OF 1(1-3)] obtain t2 k2 where 2: "bucket_at c b' t2 k2" "t' \<le> t2" "t2 = t' \<or> t2 \<in> arrival ` set qs"
      "y + k2 \<le> k' + earned c (t2 - t') + of_nat (length qs) * slack c" unfolding conforms_def by blast
  have "x + y + k2 \<le> k + earned c (t2 - t) + of_nat (length (ps @ qs)) * slack c"
    using 1(4) 2(4) earned_add[of c t' t t2] by (simp add: distrib_right)
  moreover have "t2 = t \<or> t2 \<in> arrival ` set (ps @ qs)" using 1(3) 2(3) by auto
  ultimately show ?thesis using 1(2) 2(1,2) unfolding conforms_def by (intro exI[of _ t2] exI[of _ k2]) simp
qed

lemma token_run_conform:
  assumes "run_loop (token_iter stamp out c) s bursts = Inr (cs, s')" "bucket_at c (tk_bucket s) t k"
    and "sorted (map ts_field (concat bursts))" "\<forall>p\<in>set (concat bursts). t \<le> arrival p"
    and "1 \<le> cap c" "stamp_ok stamp" "is_out out"
  shows "conforms c t k (tk_bucket s') (concat bursts) (wire_sum (forwarded cs))"
  using assms(1-4)
proof (induction bursts arbitrary: s t k cs)
  case Nil
  then show ?case by (auto simp: conforms_def earned_def)
next
  case (Cons x xs)
  from Cons.prems(1) obtain cs1 s1 cs2 where it: "token_iter stamp out c s x = Inr (cs1, s1)"
    and rest: "run_loop (token_iter stamp out c) s1 xs = Inr (cs2, s')" and cs: "cs = cs1 @ cs2"
    by (auto simp: res_simps)
  from it obtain acc freed b cs' ls where
    loop: "filter_loop (token_step stamp c) (tk_bucket s) x = Inr (acc, freed, b)" and
    ho: "hand_over out c (tk_loss s) acc = Inr (cs', ls)" and
    cs1: "cs1 = map Free freed @ cs'" and s1: "tk_bucket s1 = b"
    by (auto simp: token_iter_def res_simps)
  have srt: "sorted (map ts_field x)" "sorted (map ts_field (concat xs))"
    "\<forall>p\<in>set x. \<forall>q\<in>set (concat xs). arrival p \<le> arrival q"
    using Cons.prems(3) by (auto simp: sorted_append intro!: arrival_mono)
  have one: "conforms c t k b x (wire_sum (forwarded cs1))"
  proof (rule conforms_sub)
    show "conforms c t k b x (wire_sum acc)"
      using token_loop_conform[OF loop Cons.prems(2) srt(1) _ assms(5,6)] Cons.prems(4) by simp
    show "wire_sum (forwarded cs1) \<le> wire_sum acc"
      using wire_sum_subseq[OF hand_over_forwarded[OF ho assms(7)]] by (simp add: cs1)
  qed
  have "conforms c t k (tk_bucket s') (x @ concat xs) (wire_sum (forwarded cs1) + wire_sum (forwarded cs2))"
  proof (rule conforms_trans [OF one])
    fix t' k' assume t': "bucket_at c b t' k'" "t \<le> t'" "t' = t \<or> t' \<in> arrival ` set x"
    have "\<forall>p\<in>set (concat xs). t' \<le> arrival p" using t'(3) srt(3) Cons.prems(4) by auto
    then show "conforms c t' k' (tk_bucket s') (concat xs) (wire_sum (forwarded cs2))"
      using Cons.IH[OF rest _ srt(2)] t'(1) s1 by simp
  qed
  then show ?case by (simp add: cs)
qed


section \<open>Properties\<close>

lemma token_iter_total:
  assumes "params_fit c" "bucket_ok c (tk_bucket s)" "chain_st (tk_loss s) < 4"
  shows "\<exists>cs s'. token_iter stamp out c s x = Inr (cs, s') \<and> bucket_ok c (tk_bucket s') \<and> chain_st (tk_loss s') < 4"
proof -
  obtain acc freed b where "filter_loop (token_step stamp c) (tk_bucket s) x = Inr (acc, freed, b)" "bucket_ok c b"
    using filter_loop_total[of "bucket_ok c" x "token_step stamp c"] token_step_total assms(2) by blast
  moreover obtain cs ls where "hand_over out c (tk_loss s) acc = Inr (cs, ls)" "chain_st ls < 4"
    using hand_over_total[OF assms(1,3)] by blast
  ultimately show ?thesis by (simp add: token_iter_def)
qed

lemma token_run_total:
  assumes "params_fit c"
  shows "\<exists>cs s'. run_loop (token_iter stamp out c) (init_token c) bursts = Inr (cs, s') \<and> bucket_ok c (tk_bucket s')"
proof -
  have "bucket_ok c (tk_bucket (init_token c)) \<and> chain_st (tk_loss (init_token c)) < 4"
    using bucket_at_init by (auto simp: init_token_def bucket_ok_def init_loss_def)
  then have "\<exists>cs s'. run_loop (token_iter stamp out c) (init_token c) bursts = Inr (cs, s') \<and>
      bucket_ok c (tk_bucket s') \<and> chain_st (tk_loss s') < 4"
    by (rule run_loop_total [rotated]) (use token_iter_total[OF assms] in blast)
  then show ?thesis by blast
qed



text \<open>(C5) The token bucket conforms to its rate: from any state of the bucket (time \<open>t\<close>) and for
  packets that arrive in order up to time \<open>T\<close>, the bytes on the wire that it lets through are at
  most the capacity, plus what the token rate earns in \<open>T - t\<close> (with a relative rounding
  error of two units of \<open>2\<^sup>-\<^sup>5\<^sup>3\<close>), plus \<open>2\<^sup>-\<^sup>5\<^sup>2\<close> of the capacity per packet.\<close>

theorem token_bucket_conformance:
  assumes "run_loop (token_iter stamp out c) s bursts = Inr (cs, s')"
    and "stamp = (\<lambda>_ p. p) \<and> out = Send \<or> stamp = (\<lambda>recv_time p. p\<lparr>ts_field := recv_time + cfg_delay c\<rparr>) \<and> out = Enqueue"
    and "bucket_at c (tk_bucket s) t k" "0 < cfg_capacity c"
    and "sorted (map ts_field (concat bursts))" "\<forall>p\<in>set (concat bursts). t \<le> arrival p \<and> arrival p \<le> T" "t \<le> T"
  shows "wire_sum (forwarded cs) \<le>
     cap c + (T - t) * tok_rate c * (1 + 1 / 2 ^ 53) ^ 2 + of_nat (length (concat bursts)) * (2 * (cap c / 2 ^ 53))"
proof -
  have "1 \<le> cap c" unfolding cap_def using rval_ge1[OF assms(4)] by (intro b64.fl_ge_rep) simp_all
  moreover have "stamp_ok stamp" "is_out out" using assms(2) stamp_fwd_ok stamp_delay_ok by (auto simp: is_out_def)
  ultimately have "conforms c t k (tk_bucket s') (concat bursts) (wire_sum (forwarded cs))"
    using token_run_conform assms(1,3,5,6) by blast
  then obtain t' k' where t': "bucket_at c (tk_bucket s') t' k'" "t' = t \<or> t' \<in> arrival ` set (concat bursts)"
      "wire_sum (forwarded cs) + k' \<le> k + earned c (t' - t) + of_nat (length (concat bursts)) * slack c"
    unfolding conforms_def by blast
  have "t' \<le> T" using t'(2) assms(6,7) by auto
  then have "earned c (t' - t) \<le> earned c (T - t)"
    unfolding earned_def using tok_rate_bounds(1)[of c] by (intro mult_right_mono) auto
  moreover have "0 \<le> k'" "k \<le> cap c" using t'(1) assms(3) by (auto simp: bucket_at_def)
  ultimately show ?thesis using t'(3) unfolding earned_def slack_def by linarith
qed

lemma ex_token_run:
  "run_loop (token_iter (\<lambda>_ p. p) Send (ex_cfg NONE [])) (init_token (ex_cfg NONE [])) [[ex_pkt 1, ex_pkt 2]] =
     Inr ([Send [ex_pkt 1, ex_pkt 2]],
          \<lparr>tk_bucket = \<lparr>previous_timestamp = Fin 2000, previous_tokens = Fin 1832\<rparr>, tk_loss = init_loss (ex_cfg NONE [])\<rparr>)"
  by (simp add: run_loop.simps filter_loop.simps token_iter_def token_step_def init_token_def
      hand_over_def dmin_def TOKEN_RATE_def wire_len_def double_eval ex_defs)

theorem token_bucket_conformance_witness:
  "wire_sum (forwarded [Send [ex_pkt 1, ex_pkt 2]]) \<le>
     cap (ex_cfg NONE []) + (2000 - 0) * tok_rate (ex_cfg NONE []) * (1 + 1 / 2 ^ 53) ^ 2 +
     of_nat (length (concat [[ex_pkt 1, ex_pkt 2]])) * (2 * (cap (ex_cfg NONE []) / 2 ^ 53))"
proof (rule token_bucket_conformance [OF ex_token_run, of 0 0])
  show "bucket_at (ex_cfg NONE []) (tk_bucket (init_token (ex_cfg NONE []))) 0 0"
    using bucket_at_init by (simp add: init_token_def)
  have r: "rnd 1000 = 1000" "rnd 2000 = 2000" using rnd_of_int[of 1000] rnd_of_int[of 2000] by simp_all
  show "\<forall>p\<in>set (concat [[ex_pkt 1, ex_pkt 2]]). 0 \<le> arrival p \<and> arrival p \<le> 2000"
    by (simp add: ex_pkt_def rval_def r)
qed (simp_all add: ex_defs)

end
