(* ===== verification/CrcRate.thy ===== *)
theory CrcRate
  imports Mbuf
begin

text \<open>
  The rate control with invalid frames (\<open>src/crc-ratecontrol.cpp\<close>, class
  \<open>RateLimiterCRC\<close>). The gap before a packet, in bytes, is in its timestamp field; the
  limiter fills it with frames that the receiver discards. The MAC sends at line rate,
  so the bytes of the fillers are the time between two packets.

  \<^item> \<open>pool\<close> is what DPDK and libmoon provide: the results of the successive calls of
    \<open>rte_pktmbuf_alloc\<close> (\<open>None\<close> is the null pointer) and of \<open>alloc_mbufs\<close>, and the flag
    that asks for a transmit timestamp.
  \<^item> \<open>world\<close> is the state outside the object: the two static arrays of statistics, the
    number of allocations made, and the calls of \<open>dpdk_send_all_packets\<close>.
  \<^item> \<open>send_st\<close> adds the local variables of \<open>send_packets\<close>; \<open>send_buf_idx\<close> is the length
    of \<open>pkts\<close>, and a store past the 64 entries is \<open>OutOfBounds\<close>.
  \<^item> \<open>paced\<close> is the abstract specification: what a correct limiter puts on the wire.
\<close>

section \<open>State\<close>

record crc =
  port_id :: u8
  queue_id :: u16
  previous_missing_delay :: u64
  invalid_packet_size :: u64
  MIN_PACKET_SIZE :: u64
  PACKET_OVERHEAD :: u64

record pool =
  rte_pktmbuf_alloc :: "nat \<Rightarrow> mbuf option"
  alloc_mbufs :: "nat \<Rightarrow> u32 \<Rightarrow> u16 \<Rightarrow> mbuf list"
  RTE_MBUF_F_TX_IEEE1588_TMST :: u64

record world =
  bad_pkts_sent :: "u64 list"
  bad_bytes_sent :: "u64 list"
  n_alloc :: nat
  n_bulk :: nat
  sent :: "call list"

record send_st = world +
  pkts :: "mbuf list"
  num_bad_pkts :: u32
  num_bad_bytes :: u32

abbreviation TRANSMIT_BUFFER_SIZE :: nat where
  "TRANSMIT_BUFFER_SIZE \<equiv> 64"

definition new_crc :: "u8 \<Rightarrow> u16 \<Rightarrow> u64 \<Rightarrow> u64 \<Rightarrow> u64 \<Rightarrow> crc" where
  "new_crc port queue min_size overhead invalid_size =
     \<lparr>port_id = port, queue_id = queue, previous_missing_delay = 0, invalid_packet_size = invalid_size,
      MIN_PACKET_SIZE = min_size, PACKET_OVERHEAD = overhead\<rparr>"

definition set_invalid_packet_size :: "u64 \<Rightarrow> crc \<Rightarrow> crc" where
  "set_invalid_packet_size n c = c\<lparr>invalid_packet_size := n\<rparr>"

section \<open>Filler frames\<close>

text \<open>The part of the gap that the next filler takes.\<close>

definition delay_size :: "crc \<Rightarrow> u64 \<Rightarrow> u64" where
  "delay_size c delay =
     (if delay \<le> invalid_packet_size c then delay
      else if 2 * invalid_packet_size c - 100 < delay then invalid_packet_size c
      else delay div 2)"

definition get_delay_packet :: "pool \<Rightarrow> crc \<Rightarrow> nat \<Rightarrow> u64 \<Rightarrow> mbuf res" where
  "get_delay_packet pl c k delay =
     (let delay = delay_size c delay
      in case rte_pktmbuf_alloc pl k of
           None \<Rightarrow> Inl NullDeref
         | Some pkt \<Rightarrow> Inr (pkt\<lparr>data_len := ucast (delay - PACKET_OVERHEAD c),
                             pkt_len := ucast (delay - PACKET_OVERHEAD c)\<rparr>))"

section \<open>Sending\<close>

definition push_pkt :: "mbuf \<Rightarrow> send_st \<Rightarrow> send_st res" where
  "push_pkt p s = (if length (pkts s) < TRANSMIT_BUFFER_SIZE then Inr (s\<lparr>pkts := pkts s @ [p]\<rparr>)
                   else Inl OutOfBounds)"

definition flush :: "send_st \<Rightarrow> send_st" where
  "flush s = s\<lparr>sent := sent s @ [Send (pkts s)], pkts := []\<rparr>"

text \<open>The body of the loop that generates the fillers.\<close>

definition delay_step :: "pool \<Rightarrow> crc \<Rightarrow> u64 \<Rightarrow> send_st \<Rightarrow> (u64 \<times> send_st) res" where
  "delay_step pl c delay s =
     rbind (get_delay_packet pl c (n_alloc s) delay) (\<lambda>pkt.
     rbind (push_pkt pkt (s\<lparr>n_alloc := n_alloc s + 1\<rparr>)) (\<lambda>s1.
       let s2 = s1\<lparr>num_bad_pkts := num_bad_pkts s1 + 1,
                   num_bad_bytes := num_bad_bytes s1 + ucast (ucast (pkt_len pkt) + PACKET_OVERHEAD c - 20)\<rparr>
       in Inr (delay - (ucast (pkt_len pkt) + PACKET_OVERHEAD c),
               if TRANSMIT_BUFFER_SIZE \<le> length (pkts s2) then flush s2 else s2)))"

partial_function (option) delay_loop :: "pool \<Rightarrow> crc \<Rightarrow> u64 \<Rightarrow> send_st \<Rightarrow> (u64 \<times> send_st) run" where
  "delay_loop pl c delay s =
     (if MIN_PACKET_SIZE c + PACKET_OVERHEAD c \<le> delay
      then (case delay_step pl c delay s of
              Inl e \<Rightarrow> Some (Inl e)
            | Inr (delay', s') \<Rightarrow> delay_loop pl c delay' s')
      else Some (Inr (delay, s)))"

text \<open>The loop over the packets; \<open>None\<close> is a packet deleted by the caller. The last batch is
  flushed in the iteration of the last index.\<close>

fun send_loop :: "pool \<Rightarrow> crc \<Rightarrow> send_st \<Rightarrow> mbuf option list \<Rightarrow> (crc \<times> send_st) run" where
  "send_loop pl c s [] = Some (Inr (c, s))"
| "send_loop pl c s (None # ps) = send_loop pl c s ps"
| "send_loop pl c s (Some p # ps) =
     obind (delay_loop pl c (ts_field p + previous_missing_delay c) s) (\<lambda>(delay, s1).
     obind (Some (push_pkt p s1)) (\<lambda>s2.
       send_loop pl (c\<lparr>previous_missing_delay := delay\<rparr>)
         (if TRANSMIT_BUFFER_SIZE \<le> length (pkts s2) \<or> ps = [] then flush s2 else s2) ps))"

definition fetch_and_add :: "u64 list \<Rightarrow> u8 \<Rightarrow> u64 \<Rightarrow> u64 list res" where
  "fetch_and_add regs port n =
     (if unat port < length regs then Inr (regs[unat port := regs ! unat port + n]) else Inl OutOfBounds)"

definition send_packets :: "pool \<Rightarrow> crc \<Rightarrow> world \<Rightarrow> mbuf option list \<Rightarrow> (crc \<times> world) run" where
  "send_packets pl c w load_pkts =
     obind (send_loop pl c (world.extend w \<lparr>pkts = [], num_bad_pkts = 0, num_bad_bytes = 0\<rparr>) load_pkts)
       (\<lambda>(c', s). Some (
          rbind (fetch_and_add (bad_pkts_sent s) (port_id c') (ucast (num_bad_pkts s))) (\<lambda>bp.
          rbind (fetch_and_add (bad_bytes_sent s) (port_id c') (ucast (num_bad_bytes s))) (\<lambda>bb.
            Inr (c', world.truncate s\<lparr>bad_pkts_sent := bp, bad_bytes_sent := bb\<rparr>)))))"

text \<open>A gap of whole frames, with or without a transmit timestamp on the first one. The local
  array has 1024 entries.\<close>

definition empty_delay :: "pool \<Rightarrow> crc \<Rightarrow> world \<Rightarrow> u16 \<Rightarrow> (u64 \<times> world) res" where
  "empty_delay pl c w num_packets =
     (if 1024 < num_packets then Inl OutOfBounds
      else let invalid_packets = alloc_mbufs pl (n_bulk w) (ucast num_packets) (ucast (invalid_packet_size c))
           in Inr (ucast num_packets * (invalid_packet_size c + PACKET_OVERHEAD c),
                   w\<lparr>n_bulk := n_bulk w + 1, sent := sent w @ [Send invalid_packets]\<rparr>))"

definition send_timestamp_packet :: "pool \<Rightarrow> crc \<Rightarrow> world \<Rightarrow> u16 \<Rightarrow> (u64 \<times> world) res" where
  "send_timestamp_packet pl c w num_packets =
     (if 1024 < num_packets then Inl OutOfBounds
      else case alloc_mbufs pl (n_bulk w) (ucast num_packets) (ucast (invalid_packet_size c)) of
        [] \<Rightarrow> Inl OutOfBounds
      | p # ps \<Rightarrow>
          Inr (ucast num_packets * (invalid_packet_size c + PACKET_OVERHEAD c),
               w\<lparr>n_bulk := n_bulk w + 1,
                 sent := sent w @ [Send (p\<lparr>ol_flags := ol_flags p OR RTE_MBUF_F_TX_IEEE1588_TMST pl\<rparr> # ps)]\<rparr>))"

definition moongen_get_bad_pkts_sent :: "world \<Rightarrow> u8 \<Rightarrow> u64 res" where
  "moongen_get_bad_pkts_sent w port =
     (if unat port < length (bad_pkts_sent w) then Inr (bad_pkts_sent w ! unat port) else Inl OutOfBounds)"

definition moongen_get_bad_bytes_sent :: "world \<Rightarrow> u8 \<Rightarrow> u64 res" where
  "moongen_get_bad_bytes_sent w port =
     (if unat port < length (bad_bytes_sent w) then Inr (bad_bytes_sent w ! unat port) else Inl OutOfBounds)"

section \<open>Specification\<close>

definition wire :: "crc \<Rightarrow> mbuf \<Rightarrow> nat" where
  "wire c p = unat (pkt_len p) + unat (PACKET_OVERHEAD c)"

text \<open>The smallest gap a filler can take.\<close>

definition min_gap :: "crc \<Rightarrow> nat" where
  "min_gap c = unat (MIN_PACKET_SIZE c) + unat (PACKET_OVERHEAD c)"

definition is_filler :: "crc \<Rightarrow> mbuf \<Rightarrow> bool" where
  "is_filler c f \<longleftrightarrow> MIN_PACKET_SIZE c \<le> ucast (pkt_len f) \<and> wire c f \<le> unat (invalid_packet_size c) \<and>
     unat (data_len f) = unat (pkt_len f)"

text \<open>The sizes the limiter is configured with: a filler of the largest size fits the 16 bits of
  \<open>data_len\<close>, and half of it and 100 bytes less are still fillers.\<close>

definition wf_crc :: "crc \<Rightarrow> bool" where
  "wf_crc c \<longleftrightarrow> min_gap c + 100 \<le> unat (invalid_packet_size c) \<and> 2 * min_gap c \<le> unat (invalid_packet_size c) \<and>
     unat (invalid_packet_size c) < 2 ^ 16 \<and> 20 \<le> unat (PACKET_OVERHEAD c)"

definition alloc_ok :: "pool \<Rightarrow> bool" where
  "alloc_ok pl \<longleftrightarrow> (\<forall>k. rte_pktmbuf_alloc pl k \<noteq> None)"

text \<open>\<open>paced c r ps out r'\<close>: with \<open>r\<close> bytes of gap left over from before, the packets \<open>ps\<close> are
  sent as the stream \<open>out\<close>: in front of each one, fillers for exactly its gap, or no filler
  when the gap is too small for one, in which case it is added to the next one. \<open>r'\<close> bytes
  are left over.\<close>

definition gap_sent :: "crc \<Rightarrow> nat \<Rightarrow> nat" where
  "gap_sent c d = (if d < min_gap c then 0 else d)"

inductive paced :: "crc \<Rightarrow> nat \<Rightarrow> mbuf list \<Rightarrow> mbuf list \<Rightarrow> nat \<Rightarrow> bool" for c where
  paced_Nil: "paced c r [] [] r"
| paced_Cons: "\<forall>f\<in>set fs. is_filler c f \<Longrightarrow>
     sum_list (map (wire c) fs) = gap_sent c (unat (ts_field p) + r) \<Longrightarrow>
     paced c (unat (ts_field p) + r - gap_sent c (unat (ts_field p) + r)) ps out r' \<Longrightarrow>
     paced c r (p # ps) (fs @ p # out) r'"

inductive_cases paced_NilE [elim!]: "paced c r [] out r'"
inductive_cases paced_ConsE: "paced c r (p # ps) out r'"

lemma crc_upd [simp]:
  "wire (c\<lparr>previous_missing_delay := x\<rparr>) = wire c"
  "min_gap (c\<lparr>previous_missing_delay := x\<rparr>) = min_gap c"
  "is_filler (c\<lparr>previous_missing_delay := x\<rparr>) = is_filler c"
  "wf_crc (c\<lparr>previous_missing_delay := x\<rparr>) = wf_crc c"
  "gap_sent (c\<lparr>previous_missing_delay := x\<rparr>) = gap_sent c"
  by (auto simp: gap_sent_def wire_def min_gap_def is_filler_def wf_crc_def fun_eq_iff)

lemma paced_upd [simp]: "paced (c\<lparr>previous_missing_delay := x\<rparr>) = paced c"
proof -
  have "paced c r ps out r' \<Longrightarrow> paced (c\<lparr>previous_missing_delay := x\<rparr>) r ps out r'" for c x r ps out r'
    by (induction rule: paced.induct) (auto intro!: paced.intros)
  from this[of c _ _ _ _ x] this[of "c\<lparr>previous_missing_delay := x\<rparr>" _ _ _ _ "previous_missing_delay c"]
  show ?thesis by (auto simp: fun_eq_iff)
qed

text \<open>No byte of the gaps is lost: what the packets asked for is sent or left over.\<close>

lemma paced_bytes:
  "paced c r ps out r' \<Longrightarrow>
     sum_list (map (wire c) out) + r' = sum_list (map (\<lambda>p. unat (ts_field p) + wire c p) ps) + r"
  by (induction rule: paced.induct) (auto simp: gap_sent_def split: if_splits)

lemma paced_rest: "paced c r ps out r' \<Longrightarrow> r < min_gap c \<Longrightarrow> r' < min_gap c"
  by (induction rule: paced.induct) (auto simp: gap_sent_def split: if_splits)

lemma paced_subseq: "paced c r ps out r' \<Longrightarrow> subseq ps out"
  by (induction rule: paced.induct) (auto simp: list_emb_append2)

section \<open>The size of a filler\<close>

lemma unat_min_gap: "wf_crc c \<Longrightarrow> unat (MIN_PACKET_SIZE c + PACKET_OVERHEAD c) = min_gap c"
  unfolding wf_crc_def min_gap_def by (rule unat_add_no_wrap) simp

lemma delay_size_bounds:
  assumes "wf_crc c" "min_gap c \<le> unat d"
  defines "e \<equiv> unat (delay_size c d)"
  shows "min_gap c \<le> e" "e \<le> unat (invalid_packet_size c)" "e \<le> unat d"
    "unat d - e = 0 \<or> min_gap c \<le> unat d - e"
proof -
  have i: "unat (invalid_packet_size c) < 2 ^ 16" "100 \<le> unat (invalid_packet_size c)"
    using assms(1) by (auto simp: wf_crc_def)
  have 2: "unat (2 * invalid_packet_size c) = 2 * unat (invalid_packet_size c)"
    using i by (simp add: unat_word_ariths)
  have bound: "unat (2 * invalid_packet_size c - 100) = 2 * unat (invalid_packet_size c) - 100"
    using i 2 by (subst unat_sub) (auto simp: word_le_nat_alt)
  have half: "unat (d div 2) = unat d div 2" by (simp add: unat_div)
  have e: "e = (if unat d \<le> unat (invalid_packet_size c) then unat d
      else if 2 * unat (invalid_packet_size c) - 100 < unat d then unat (invalid_packet_size c) else unat d div 2)"
    unfolding e_def delay_size_def by (simp add: word_le_nat_alt word_less_nat_alt bound half)
  show "min_gap c \<le> e" "e \<le> unat (invalid_packet_size c)" "e \<le> unat d"
      "unat d - e = 0 \<or> min_gap c \<le> unat d - e"
    using assms(1,2) unfolding e wf_crc_def by (auto split: if_splits)
qed

lemma filler_ok:
  fixes p :: mbuf
  assumes "wf_crc c" "min_gap c \<le> unat d"
  defines "f \<equiv> p\<lparr>data_len := ucast (delay_size c d - PACKET_OVERHEAD c),
      pkt_len := ucast (delay_size c d - PACKET_OVERHEAD c)\<rparr>"
  shows "is_filler c f" "wire c f = unat (delay_size c d)"
    "ucast (pkt_len f) + PACKET_OVERHEAD c = delay_size c d"
proof -
  note b = delay_size_bounds[OF assms(1,2)]
  define x where "x = delay_size c d - PACKET_OVERHEAD c"
  have x: "unat x = unat (delay_size c d) - unat (PACKET_OVERHEAD c)"
    unfolding x_def using b(1) by (intro unat_sub) (simp add: word_le_nat_alt min_gap_def)
  have small: "unat x < 2 ^ 16" using x b(2) assms(1) by (auto simp: wf_crc_def)
  have len: "unat (ucast x :: u32) = unat x"
    using small by (simp add: unsigned_ucast_eq take_bit_nat_eq_self)
  have cast: "ucast (ucast x :: u32) = x" using len by (simp add: word_unat_eq_iff)
  have dl: "unat (ucast x :: u16) = unat x"
    using small by (simp add: unsigned_ucast_eq take_bit_nat_eq_self)
  have pl: "pkt_len f = ucast x" and dlf: "data_len f = ucast x" by (simp_all add: f_def x_def)
  show w: "wire c f = unat (delay_size c d)"
    using b(1) by (simp add: wire_def pl len x min_gap_def)
  show "is_filler c f"
    using b w by (simp add: is_filler_def pl dlf dl len cast word_le_nat_alt x min_gap_def)
  show "ucast (pkt_len f) + PACKET_OVERHEAD c = delay_size c d"
    unfolding pl cast by (simp add: x_def)
qed

section \<open>The loops meet the specification\<close>

definition is_batch :: "call \<Rightarrow> bool" where
  "is_batch b \<longleftrightarrow> (case b of Send ps \<Rightarrow> 1 \<le> length ps \<and> length ps \<le> TRANSMIT_BUFFER_SIZE | _ \<Rightarrow> False)"

text \<open>From \<open>s\<close> to \<open>s'\<close> the packets \<open>out\<close> were appended to the stream (the batches sent and the
  buffer), \<open>bad\<close> of them fillers that the counters count.\<close>

definition grows :: "crc \<Rightarrow> send_st \<Rightarrow> mbuf list \<Rightarrow> mbuf list \<Rightarrow> send_st \<Rightarrow> bool" where
  "grows c s out bad s' \<longleftrightarrow>
     (\<exists>bs. sent s' = sent s @ bs \<and> (\<forall>b\<in>set bs. is_batch b) \<and> forwarded bs @ pkts s' = pkts s @ out) \<and>
     num_bad_pkts s' = num_bad_pkts s + of_nat (length bad) \<and>
     num_bad_bytes s' = num_bad_bytes s + of_nat (sum_list (map (\<lambda>f. wire c f - 20) bad)) \<and>
     bad_pkts_sent s' = bad_pkts_sent s \<and> bad_bytes_sent s' = bad_bytes_sent s \<and> n_bulk s' = n_bulk s"

lemma grows_refl [simp]: "grows c s [] [] s"
  by (simp add: grows_def)

lemma grows_trans:
  assumes "grows c s o1 b1 s'" "grows c s' o2 b2 s''"
  shows "grows c s (o1 @ o2) (b1 @ b2) s''"
proof -
  from assms obtain x y where
    "sent s' = sent s @ x" "\<forall>b\<in>set x. is_batch b" "forwarded x @ pkts s' = pkts s @ o1"
    "sent s'' = sent s' @ y" "\<forall>b\<in>set y. is_batch b" "forwarded y @ pkts s'' = pkts s' @ o2"
    by (auto simp: grows_def)
  then have "sent s'' = sent s @ (x @ y) \<and> (\<forall>b\<in>set (x @ y). is_batch b) \<and>
      forwarded (x @ y) @ pkts s'' = pkts s @ o1 @ o2"
    by (auto simp del: append_assoc simp: append_assoc[symmetric]) (simp add: append_assoc)
  then show ?thesis using assms unfolding grows_def by auto
qed

lemma grows_push:
  assumes "push_pkt p s = Inr s1" "length (pkts s) < TRANSMIT_BUFFER_SIZE"
  shows "grows c s [p] [] (if B then flush s1 else s1)"
  using assms by (auto simp: push_pkt_def grows_def flush_def is_batch_def)

lemma delay_step_grows:
  assumes "wf_crc c" "alloc_ok pl" "min_gap c \<le> unat d" "length (pkts s) < TRANSMIT_BUFFER_SIZE"
  shows "\<exists>f s'. delay_step pl c d s = Inr (d - delay_size c d, s') \<and> is_filler c f \<and>
     wire c f = unat (delay_size c d) \<and> grows c s [f] [f] s' \<and> length (pkts s') < TRANSMIT_BUFFER_SIZE"
proof -
  obtain p where p: "rte_pktmbuf_alloc pl (n_alloc s) = Some p" using assms(2) by (auto simp: alloc_ok_def)
  define f where "f = p\<lparr>data_len := ucast (delay_size c d - PACKET_OVERHEAD c),
      pkt_len := ucast (delay_size c d - PACKET_OVERHEAD c)\<rparr>"
  note f = filler_ok[OF assms(1,3), of p, folded f_def]
  have 20: "unat (delay_size c d - 20) = wire c f - 20" "20 \<le> unat (delay_size c d)"
    using delay_size_bounds(1)[OF assms(1,3)] assms(1) f(2)
    by (auto simp: unat_sub word_le_nat_alt wf_crc_def min_gap_def)
  have bytes: "ucast (delay_size c d - 20) = (of_nat (wire c f - 20) :: u32)"
    unfolding 20(1)[symmetric] by simp
  have "get_delay_packet pl c (n_alloc s) d = Inr f"
    by (simp add: get_delay_packet_def p f_def Let_def)
  then show ?thesis
    using assms(4) f bytes
    by (auto simp: delay_step_def push_pkt_def grows_def flush_def is_batch_def Let_def intro!: exI[of _ f])
qed

lemma delay_loop_grows:
  assumes "wf_crc c" "alloc_ok pl" "length (pkts s) < TRANSMIT_BUFFER_SIZE"
  shows "\<exists>r fs s'. delay_loop pl c d s = Some (Inr (r, s')) \<and> unat r = unat d - gap_sent c (unat d) \<and>
     (\<forall>f\<in>set fs. is_filler c f) \<and> sum_list (map (wire c) fs) = gap_sent c (unat d) \<and>
     grows c s fs fs s' \<and> length (pkts s') < TRANSMIT_BUFFER_SIZE"
  using assms(3)
proof (induction "unat d" arbitrary: d s rule: less_induct)
  case less
  have test: "MIN_PACKET_SIZE c + PACKET_OVERHEAD c \<le> d \<longleftrightarrow> min_gap c \<le> unat d"
    by (simp add: word_le_nat_alt unat_min_gap[OF assms(1)])
  show ?case
  proof (cases "min_gap c \<le> unat d")
    case False
    then show ?thesis using less.prems test
      by (subst delay_loop.simps) (auto simp: gap_sent_def intro!: exI[of _ "[]"])
  next
    case True
    note b = delay_size_bounds[OF assms(1) True]
    have pos: "0 < min_gap c" using assms(1) by (simp add: wf_crc_def min_gap_def)
    obtain f s1 where step: "delay_step pl c d s = Inr (d - delay_size c d, s1)" and f: "is_filler c f"
        "wire c f = unat (delay_size c d)" and s1: "grows c s [f] [f] s1" "length (pkts s1) < TRANSMIT_BUFFER_SIZE"
      using delay_step_grows[OF assms(1,2) True less.prems] by blast
    have d': "unat (d - delay_size c d) = unat d - unat (delay_size c d)"
      using b(3) by (intro unat_sub) (simp add: word_le_nat_alt)
    have "unat (d - delay_size c d) < unat d" using d' b(1,3) pos by linarith
    then obtain r fs s' where rest: "delay_loop pl c (d - delay_size c d) s1 = Some (Inr (r, s'))"
        and r: "unat r = unat d - unat (delay_size c d) - gap_sent c (unat d - unat (delay_size c d))"
        and fs: "\<forall>f\<in>set fs. is_filler c f" "sum_list (map (wire c) fs) = gap_sent c (unat d - unat (delay_size c d))"
        and s': "grows c s1 fs fs s'" "length (pkts s') < TRANSMIT_BUFFER_SIZE"
      using less.hyps[of "d - delay_size c d" s1] s1(2) unfolding d' by blast
    have "gap_sent c (unat d - unat (delay_size c d)) = unat d - unat (delay_size c d)"
      using b(4) pos by (auto simp: gap_sent_def)
    moreover have "gap_sent c (unat d) = unat d" using True by (simp add: gap_sent_def)
    moreover have "delay_loop pl c d s = Some (Inr (r, s'))"
      using True test step rest by (subst delay_loop.simps) simp
    ultimately show ?thesis
      using r f fs b(3) s'(2) grows_trans[OF s1(1) s'(1)] by (intro exI[of _ r] exI[of _ "f # fs"] exI[of _ s']) simp
  qed
qed

text \<open>The packets of an array in which a deleted packet is a null pointer.\<close>

fun live :: "mbuf option list \<Rightarrow> mbuf list" where
  "live [] = []"
| "live (None # ps) = live ps"
| "live (Some p # ps) = p # live ps"

lemma grows_upd [simp]: "grows (c\<lparr>previous_missing_delay := x\<rparr>) = grows c"
  by (auto simp: grows_def fun_eq_iff)

text \<open>The buffer is empty at the end unless the last packet is a deleted one.\<close>

lemma send_loop_paced:
  assumes "wf_crc c" "alloc_ok pl" "length (pkts s) < TRANSMIT_BUFFER_SIZE"
    and "unat (previous_missing_delay c) < min_gap c" "\<forall>p\<in>set (live load_pkts). unat (ts_field p) < 2 ^ 63"
  shows "\<exists>x s' out bad. send_loop pl c s load_pkts = Some (Inr (c\<lparr>previous_missing_delay := x\<rparr>, s')) \<and>
     paced c (unat (previous_missing_delay c)) (live load_pkts) out (unat x) \<and> grows c s out bad s' \<and>
     length bad + length (live load_pkts) = length out \<and>
     sum_list (map (wire c) bad) + sum_list (map (wire c) (live load_pkts)) = sum_list (map (wire c) out) \<and>
     (load_pkts \<noteq> [] \<longrightarrow> last load_pkts \<noteq> None \<longrightarrow> pkts s' = [])"
  using assms
proof (induction load_pkts arbitrary: c s)
  case Nil
  have "c\<lparr>previous_missing_delay := previous_missing_delay c\<rparr> = c" by simp
  then show ?case by (intro exI[of _ "previous_missing_delay c"] exI[of _ s] exI[of _ "[]"])
      (simp add: paced_Nil)
next
  case (Cons q ps)
  show ?case
  proof (cases q)
    case None
    then have eqs: "live (q # ps) = live ps" "send_loop pl c s (q # ps) = send_loop pl c s ps"
        "last (q # ps) \<noteq> None \<longrightarrow> ps \<noteq> [] \<and> last ps \<noteq> None"
      by simp_all
    then show ?thesis using Cons.IH[OF Cons.prems(1-4)] Cons.prems(5) unfolding eqs(1,2) by blast
  next
    case (Some p)
    define d where "d = ts_field p + previous_missing_delay c"
    have d: "unat d = unat (ts_field p) + unat (previous_missing_delay c)"
      unfolding d_def using Cons.prems(1,4,5) Some
      by (intro unat_add_no_wrap) (auto simp: wf_crc_def)
    obtain r fs s1 where loop: "delay_loop pl c d s = Some (Inr (r, s1))"
        and r: "unat r = unat d - gap_sent c (unat d)" and fs: "\<forall>f\<in>set fs. is_filler c f"
          "sum_list (map (wire c) fs) = gap_sent c (unat d)"
        and s1: "grows c s fs fs s1" "length (pkts s1) < TRANSMIT_BUFFER_SIZE"
      using delay_loop_grows[OF Cons.prems(1-3)] by blast
    have rest: "unat r < min_gap c"
      unfolding r using Cons.prems(1) by (simp add: gap_sent_def wf_crc_def min_gap_def)
    obtain s2 where s2: "push_pkt p s1 = Inr s2" "pkts s2 = pkts s1 @ [p]"
      using s1(2) by (auto simp: push_pkt_def)
    define s3 where "s3 = (if TRANSMIT_BUFFER_SIZE \<le> length (pkts s2) \<or> ps = [] then flush s2 else s2)"
    have s3: "grows c s1 [p] [] s3" unfolding s3_def by (rule grows_push[OF s2(1) s1(2)])
    have s3_pkts: "length (pkts s3) < TRANSMIT_BUFFER_SIZE" "ps = [] \<Longrightarrow> pkts s3 = []"
      by (auto simp: s3_def flush_def)
    have "\<exists>x s' out bad. send_loop pl (c\<lparr>previous_missing_delay := r\<rparr>) s3 ps
          = Some (Inr (c\<lparr>previous_missing_delay := x\<rparr>, s')) \<and> paced c (unat r) (live ps) out (unat x) \<and>
        grows c s3 out bad s' \<and> length bad + length (live ps) = length out \<and>
        sum_list (map (wire c) bad) + sum_list (map (wire c) (live ps)) = sum_list (map (wire c) out) \<and>
        (ps \<noteq> [] \<longrightarrow> last ps \<noteq> None \<longrightarrow> pkts s' = [])"
      using Cons.IH[of "c\<lparr>previous_missing_delay := r\<rparr>" s3] Cons.prems(1,2,5) rest s3_pkts(1)
      by (simp add: Some)
    then obtain x s' out bad where IH: "send_loop pl (c\<lparr>previous_missing_delay := r\<rparr>) s3 ps
          = Some (Inr (c\<lparr>previous_missing_delay := x\<rparr>, s'))" "paced c (unat r) (live ps) out (unat x)"
        "grows c s3 out bad s'" "length bad + length (live ps) = length out"
        "sum_list (map (wire c) bad) + sum_list (map (wire c) (live ps)) = sum_list (map (wire c) out)"
        "ps \<noteq> [] \<longrightarrow> last ps \<noteq> None \<longrightarrow> pkts s' = []"
      by blast
    have run: "send_loop pl c s (q # ps) = Some (Inr (c\<lparr>previous_missing_delay := x\<rparr>, s'))"
      using loop s2(1) IH(1) by (simp add: Some d_def[symmetric] s3_def[symmetric])
    have "paced c (unat (previous_missing_delay c)) (live (q # ps)) (fs @ p # out) (unat x)"
      using fs IH(2) unfolding r by (simp add: Some d paced_Cons)
    moreover have "grows c s (fs @ p # out) (fs @ bad) s'"
      using grows_trans[OF s1(1) grows_trans[OF s3 IH(3)]] by simp
    moreover have "last (q # ps) \<noteq> None \<longrightarrow> pkts s' = []"
      using IH(1,6) s3_pkts(2) Some by (cases ps) auto
    ultimately show ?thesis
      using run IH(4,5) by (intro exI[of _ x] exI[of _ s'] exI[of _ "fs @ p # out"] exI[of _ "fs @ bad"])
        (simp add: Some)
  qed
qed

lemma send_packets_paced:
  assumes "wf_crc c" "alloc_ok pl" "unat (previous_missing_delay c) < min_gap c"
    and "\<forall>p\<in>set (live load_pkts). unat (ts_field p) < 2 ^ 63"
    and "unat (port_id c) < length (bad_pkts_sent w)" "unat (port_id c) < length (bad_bytes_sent w)"
    and "load_pkts \<noteq> []" "last load_pkts \<noteq> None"
  shows "\<exists>x w' bs. send_packets pl c w load_pkts = Some (Inr (c\<lparr>previous_missing_delay := x\<rparr>, w')) \<and>
     sent w' = sent w @ bs \<and> (\<forall>b\<in>set bs. is_batch b) \<and>
     paced c (unat (previous_missing_delay c)) (live load_pkts) (forwarded bs) (unat x) \<and>
     (let bad = length (forwarded bs) - length (live load_pkts);
          bad_bytes = sum_list (map (wire c) (forwarded bs)) - sum_list (map (wire c) (live load_pkts)) - 20 * bad
      in bad_pkts_sent w' = (bad_pkts_sent w)[unat (port_id c) := bad_pkts_sent w ! unat (port_id c) + ucast (of_nat bad :: u32)] \<and>
         bad_bytes_sent w' = (bad_bytes_sent w)[unat (port_id c) := bad_bytes_sent w ! unat (port_id c) + ucast (of_nat bad_bytes :: u32)])"
proof -
  define s where "s = world.extend w \<lparr>pkts = [], num_bad_pkts = 0, num_bad_bytes = 0\<rparr>"
  have s: "pkts s = []" "num_bad_pkts s = 0" "num_bad_bytes s = 0" "sent s = sent w" "bad_pkts_sent s = bad_pkts_sent w"
      "bad_bytes_sent s = bad_bytes_sent w"
    by (simp_all add: s_def world.defs)
  obtain x s' out bad where run: "send_loop pl c s load_pkts = Some (Inr (c\<lparr>previous_missing_delay := x\<rparr>, s'))"
      and out: "paced c (unat (previous_missing_delay c)) (live load_pkts) out (unat x)" "grows c s out bad s'"
      and len: "length bad + length (live load_pkts) = length out"
      and bytes: "sum_list (map (wire c) bad) + sum_list (map (wire c) (live load_pkts)) = sum_list (map (wire c) out)"
      and flushed: "pkts s' = []"
    using send_loop_paced[OF assms(1,2), of s load_pkts] assms(3,4,7,8) s(1) by auto
  from out(2) obtain bs where bs: "sent s' = sent w @ bs" "\<forall>b\<in>set bs. is_batch b" "forwarded bs = out"
      and st: "num_bad_pkts s' = of_nat (length bad)"
        "num_bad_bytes s' = of_nat (sum_list (map (\<lambda>f. wire c f - 20) bad))"
        "bad_pkts_sent s' = bad_pkts_sent w" "bad_bytes_sent s' = bad_bytes_sent w"
    using s flushed by (auto simp: grows_def)
  have "sum_list (map (\<lambda>f. wire c f - 20) bad) + 20 * length bad = sum_list (map (wire c) bad)"
    using assms(1) by (induction bad) (auto simp: wire_def wf_crc_def)
  moreover have n: "length (forwarded bs) - length (live load_pkts) = length bad" using len bs(3) by simp
  moreover have "sum_list (map (wire c) (forwarded bs)) - sum_list (map (wire c) (live load_pkts)) = sum_list (map (wire c) bad)"
    using bytes bs(3) by simp
  ultimately have sub: "sum_list (map (\<lambda>f. wire c f - 20) bad) =
      sum_list (map (wire c) (forwarded bs)) - sum_list (map (wire c) (live load_pkts)) -
      20 * (length (forwarded bs) - length (live load_pkts))"
    by simp
  define bp where "bp = (bad_pkts_sent w)[unat (port_id c) := bad_pkts_sent w ! unat (port_id c) + ucast (num_bad_pkts s')]"
  define bb where "bb = (bad_bytes_sent w)[unat (port_id c) := bad_bytes_sent w ! unat (port_id c) + ucast (num_bad_bytes s')]"
  define w' where "w' = world.truncate s'\<lparr>bad_pkts_sent := bp, bad_bytes_sent := bb\<rparr>"
  have "send_packets pl c w load_pkts = Some (Inr (c\<lparr>previous_missing_delay := x\<rparr>, w'))"
    unfolding send_packets_def s_def[symmetric] run
    using assms(5,6) st by (simp add: fetch_and_add_def bp_def bb_def w'_def)
  moreover have "sent w' = sent w @ bs" "bad_pkts_sent w' = bp" "bad_bytes_sent w' = bb"
    using bs(1) by (simp_all add: w'_def world.defs)
  ultimately show ?thesis
    using out(1) bs(2) unfolding bs(3)[symmetric] by (intro exI[of _ x] exI[of _ w'] exI[of _ bs])
      (simp add: Let_def n bp_def bb_def st(1,2) sub)
qed

section \<open>Properties\<close>

definition ex_pool :: pool where
  "ex_pool = \<lparr>rte_pktmbuf_alloc = \<lambda>k. Some (ex_pkt (1000 + k)),
     alloc_mbufs = \<lambda>k n len. map (\<lambda>i. (ex_pkt i)\<lparr>pkt_len := ucast len, data_len := len\<rparr>) [0..<unat n],
     RTE_MBUF_F_TX_IEEE1588_TMST = 0x8000000000000\<rparr>"

definition ex_world :: world where
  "ex_world = \<lparr>bad_pkts_sent = replicate 32 0, bad_bytes_sent = replicate 32 0, n_alloc = 0, n_bulk = 0, sent = []\<rparr>"

definition ex_crc :: crc where
  "ex_crc = new_crc 0 0 64 24 1500"

lemmas crc_ex = ex_pool_def ex_world_def ex_crc_def new_crc_def ex_pkt_def wf_crc_def min_gap_def alloc_ok_def

text \<open>(C1) The rate limiter sends exactly the gaps it is asked for. If every allocation succeeds
  and the array does not end with a deleted packet, \<open>send_packets\<close> returns, it sends
  non-empty batches of at most 64 packets, and their concatenation paces the packets: in
  order, each one behind fillers of valid size whose bytes are exactly its gap (a gap below
  the smallest filler is moved to the next packet). Altogether no byte of gap is lost: what
  was asked for and what was left over before is on the wire or still left over, and less
  than one filler is left over.\<close>

theorem crc_send_packets_correct:
  assumes "wf_crc c" "alloc_ok pl" "unat (previous_missing_delay c) < min_gap c"
    and "\<forall>p\<in>set (live load_pkts). unat (ts_field p) < 2 ^ 63"
    and "unat (port_id c) < length (bad_pkts_sent w)" "unat (port_id c) < length (bad_bytes_sent w)"
    and "load_pkts \<noteq> []" "last load_pkts \<noteq> None"
  shows "\<exists>x w' bs. send_packets pl c w load_pkts = Some (Inr (c\<lparr>previous_missing_delay := x\<rparr>, w')) \<and>
     sent w' = sent w @ bs \<and> (\<forall>b\<in>set bs. is_batch b) \<and>
     paced c (unat (previous_missing_delay c)) (live load_pkts) (forwarded bs) (unat x) \<and>
     sum_list (map (wire c) (forwarded bs)) + unat x =
       sum_list (map (\<lambda>p. unat (ts_field p) + wire c p) (live load_pkts)) + unat (previous_missing_delay c) \<and>
     unat x < min_gap c"
proof -
  obtain x w' bs where "send_packets pl c w load_pkts = Some (Inr (c\<lparr>previous_missing_delay := x\<rparr>, w'))"
      "sent w' = sent w @ bs" "\<forall>b\<in>set bs. is_batch b"
      and pc: "paced c (unat (previous_missing_delay c)) (live load_pkts) (forwarded bs) (unat x)"
    using send_packets_paced[OF assms] by blast
  then show ?thesis
    using paced_bytes[OF pc] paced_rest[OF pc assms(3)] by (intro exI[of _ x] exI[of _ w'] exI[of _ bs]) simp
qed

theorem crc_send_packets_correct_witness:
  "\<exists>x w' bs. send_packets ex_pool ex_crc ex_world [Some (ex_pkt 2), None, Some (ex_pkt 3)] =
       Some (Inr (ex_crc\<lparr>previous_missing_delay := x\<rparr>, w')) \<and>
     sent w' = sent ex_world @ bs \<and> (\<forall>b\<in>set bs. is_batch b) \<and>
     paced ex_crc 0 [ex_pkt 2, ex_pkt 3] (forwarded bs) (unat x) \<and>
     sum_list (map (wire ex_crc) (forwarded bs)) + unat x = 5168 \<and> unat x < 88"
proof -
  have "wf_crc ex_crc" "alloc_ok ex_pool" "unat (previous_missing_delay ex_crc) < min_gap ex_crc"
    "\<forall>p\<in>set (live [Some (ex_pkt 2), None, Some (ex_pkt 3)]). unat (ts_field p) < 2 ^ 63"
    "unat (port_id ex_crc) < length (bad_pkts_sent ex_world)" "unat (port_id ex_crc) < length (bad_bytes_sent ex_world)"
    by (simp_all add: crc_ex)
  from crc_send_packets_correct[OF this]
  show ?thesis by (simp add: ex_crc_def new_crc_def min_gap_def wire_def ex_pkt_def)
qed

text \<open>The counters of bad packets and bad bytes of the port grow by the number of fillers
  and by their bytes without preamble and inter-frame gap (20 bytes each), reduced to the 32
  bits of the local counters; the counters of other ports do not change.\<close>

theorem crc_bad_counters:
  assumes "wf_crc c" "alloc_ok pl" "unat (previous_missing_delay c) < min_gap c"
    and "\<forall>p\<in>set (live load_pkts). unat (ts_field p) < 2 ^ 63"
    and "unat (port_id c) < length (bad_pkts_sent w)" "unat (port_id c) < length (bad_bytes_sent w)"
    and "load_pkts \<noteq> []" "last load_pkts \<noteq> None"
  shows "\<exists>x w' bs. send_packets pl c w load_pkts = Some (Inr (c\<lparr>previous_missing_delay := x\<rparr>, w')) \<and>
     sent w' = sent w @ bs \<and>
     (let bad = length (forwarded bs) - length (live load_pkts);
          bad_bytes = sum_list (map (wire c) (forwarded bs)) - sum_list (map (wire c) (live load_pkts)) - 20 * bad
      in moongen_get_bad_pkts_sent w' (port_id c) = Inr (bad_pkts_sent w ! unat (port_id c) + ucast (of_nat bad :: u32)) \<and>
         moongen_get_bad_bytes_sent w' (port_id c) = Inr (bad_bytes_sent w ! unat (port_id c) + ucast (of_nat bad_bytes :: u32)) \<and>
         (\<forall>q. q \<noteq> port_id c \<longrightarrow> moongen_get_bad_pkts_sent w' q = moongen_get_bad_pkts_sent w q \<and>
                moongen_get_bad_bytes_sent w' q = moongen_get_bad_bytes_sent w q))"
proof -
  have other: "q \<noteq> port_id c \<Longrightarrow> unat q \<noteq> unat (port_id c)" for q by (simp add: word_unat_eq_iff)
  show ?thesis
    using send_packets_paced[OF assms] assms(5,6) other
    by (fastforce simp: Let_def moongen_get_bad_pkts_sent_def moongen_get_bad_bytes_sent_def)
qed

theorem crc_bad_counters_witness:
  "\<exists>x w' bs. send_packets ex_pool ex_crc ex_world [Some (ex_pkt 2)] = Some (Inr (ex_crc\<lparr>previous_missing_delay := x\<rparr>, w')) \<and>
     sent w' = sent ex_world @ bs \<and>
     moongen_get_bad_pkts_sent w' 0 = Inr (ucast (of_nat (length (forwarded bs) - 1) :: u32)) \<and>
     moongen_get_bad_pkts_sent w' 1 = moongen_get_bad_pkts_sent ex_world 1"
proof -
  have "wf_crc ex_crc" "alloc_ok ex_pool" "unat (previous_missing_delay ex_crc) < min_gap ex_crc"
    "\<forall>p\<in>set (live [Some (ex_pkt 2)]). unat (ts_field p) < 2 ^ 63"
    "unat (port_id ex_crc) < length (bad_pkts_sent ex_world)" "unat (port_id ex_crc) < length (bad_bytes_sent ex_world)"
    by (simp_all add: crc_ex)
  from crc_bad_counters[OF this] obtain x w' bs where
    run: "send_packets ex_pool ex_crc ex_world [Some (ex_pkt 2)] = Some (Inr (ex_crc\<lparr>previous_missing_delay := x\<rparr>, w'))"
      "sent w' = sent ex_world @ bs"
    and cnt: "moongen_get_bad_pkts_sent w' (port_id ex_crc) =
        Inr (bad_pkts_sent ex_world ! unat (port_id ex_crc) + ucast (of_nat (length (forwarded bs) - 1) :: u32))"
    and other: "\<forall>q. q \<noteq> port_id ex_crc \<longrightarrow> moongen_get_bad_pkts_sent w' q = moongen_get_bad_pkts_sent ex_world q"
    by (auto simp: Let_def)
  have "port_id ex_crc = 0" "bad_pkts_sent ex_world ! 0 = 0"
    by (simp_all add: ex_crc_def new_crc_def ex_world_def)
  then show ?thesis using run cnt other by auto
qed

lemma send_loop_buffers:
  assumes "\<forall>p\<in>set ps. ts_field p = 0" "previous_missing_delay c = 0" "0 < MIN_PACKET_SIZE c + PACKET_OVERHEAD c"
    and "length (pkts s) + length ps < TRANSMIT_BUFFER_SIZE"
  shows "send_loop pl c s (map Some ps @ [None]) = Some (Inr (c, s\<lparr>pkts := pkts s @ ps\<rparr>))"
  using assms
proof (induction ps arbitrary: s)
  case (Cons p ps)
  have "delay_loop pl c 0 s = Some (Inr (0, s))" using Cons.prems(3) by (subst delay_loop.simps) auto
  moreover have upd: "c\<lparr>previous_missing_delay := 0\<rparr> = c" using Cons.prems(2) by simp
  ultimately show ?case
    using Cons.prems Cons.IH[of "s\<lparr>pkts := pkts s @ [p]\<rparr>"] by (simp add: push_pkt_def upd)
qed simp

lemma send_packets_buffers:
  assumes "\<forall>p\<in>set ps. ts_field p = 0" "length ps < TRANSMIT_BUFFER_SIZE"
    and "previous_missing_delay c = 0" "0 < MIN_PACKET_SIZE c + PACKET_OVERHEAD c"
    and "unat (port_id c) < length (bad_pkts_sent w)" "unat (port_id c) < length (bad_bytes_sent w)"
  shows "send_packets pl c w (map Some ps @ [None]) = Some (Inr (c, w))"
  using assms by (simp add: send_packets_def send_loop_buffers fetch_and_add_def world.defs)

text \<open>The last batch is flushed only in the iteration of the last index, and a deleted packet
  skips that iteration: if fewer than 64 packets without gap are followed by a deleted one,
  \<open>send_packets\<close> returns and has sent none of them.\<close>

theorem crc_last_deleted_drops_batch:
  assumes "\<forall>p\<in>set ps. ts_field p = 0" "length ps < TRANSMIT_BUFFER_SIZE"
    and "previous_missing_delay c = 0" "0 < MIN_PACKET_SIZE c + PACKET_OVERHEAD c"
    and "unat (port_id c) < length (bad_pkts_sent w)" "unat (port_id c) < length (bad_bytes_sent w)"
  shows "send_packets pl c w (map Some ps @ [None]) = Some (Inr (c, w))"
  using assms by (rule send_packets_buffers)

theorem crc_last_deleted_drops_batch_witness:
  "send_packets ex_pool ex_crc ex_world (map Some [ex_pkt 0] @ [None]) = Some (Inr (ex_crc, ex_world))"
  by (rule crc_last_deleted_drops_batch) (simp_all add: crc_ex)

text \<open>The null pointer of a failed allocation is dereferenced: if the first packet has a gap
  for a filler and the pool is empty, \<open>send_packets\<close> runs into undefined behaviour; the test
  of the returned pointer in the loop comes too late.\<close>

theorem crc_alloc_failure:
  assumes "rte_pktmbuf_alloc pl (n_alloc w) = None"
    and "MIN_PACKET_SIZE c + PACKET_OVERHEAD c \<le> ts_field p + previous_missing_delay c"
  shows "send_packets pl c w (replicate n None @ Some p # ps) = Some (Inl NullDeref)"
proof -
  define s where "s = world.extend w \<lparr>pkts = [], num_bad_pkts = 0, num_bad_bytes = 0\<rparr>"
  have "n_alloc s = n_alloc w" by (simp add: s_def world.defs)
  then have "delay_loop pl c (ts_field p + previous_missing_delay c) s = Some (Inl NullDeref)"
    using assms by (subst delay_loop.simps) (simp add: delay_step_def get_delay_packet_def Let_def)
  then have "send_loop pl c s (replicate n None @ Some p # ps) = Some (Inl NullDeref)"
    by (induction n) simp_all
  then show ?thesis by (simp add: send_packets_def s_def)
qed

theorem crc_alloc_failure_witness:
  "send_packets (ex_pool\<lparr>rte_pktmbuf_alloc := \<lambda>k. None\<rparr>) ex_crc ex_world (replicate 1 None @ [Some (ex_pkt 2)])
     = Some (Inl NullDeref)"
  by (rule crc_alloc_failure) (simp_all add: crc_ex)

end
