(* ===== verification/LaunchTs.thy ===== *)
theory LaunchTs
  imports CrcRate Float64
begin

text \<open>
  The transmit side of the hardware path emulator (\<open>src/launch-timestamp.cpp\<close>, class
  \<open>DelayEmulator\<close>). It keeps the number of bytes put on the wire since a frame with a known
  transmit timestamp, turns the goal time of each packet into a gap in bytes, and lets
  \<open>RateLimiterCRC\<close> send the packets with these gaps.

  The locale \<open>pacer\<close> is what the emulator relies on in the limiter: every byte it is asked
  for is on the wire or left over. It is interpreted on the limiter of \<open>CrcRate\<close>.
\<close>

section \<open>State\<close>

record emu =
  first_timestamp :: u64
  current_byte_offset :: u64
  NANOSECONDS_PER_BYTE :: double
  EMU_PACKET_OVERHEAD :: u64

text \<open>The constructor leaves \<open>first_timestamp\<close> and \<open>current_byte_offset\<close> indeterminate; their
  values are the first two arguments.\<close>

definition new_emu :: "u64 \<Rightarrow> u64 \<Rightarrow> u64 \<Rightarrow> u64 \<Rightarrow> emu" where
  "new_emu first offset LINE_RATE overhead =
     \<lparr>first_timestamp = first, current_byte_offset = offset,
      NANOSECONDS_PER_BYTE = mkd (8 / 100) * (Fin 100000 / d_of_u64 LINE_RATE),
      EMU_PACKET_OVERHEAD = overhead\<rparr>"

section \<open>Sending a batch\<close>

definition current_sending_time :: "emu \<Rightarrow> u64 res" where
  "current_sending_time e =
     u64_of_d (d_of_u64 (first_timestamp e) + d_of_u64 (current_byte_offset e) * NANOSECONDS_PER_BYTE e)"

text \<open>One packet: \<open>None\<close> is the null pointer stored for a packet that is dropped. The difference
  of the two times is a signed 64-bit integer.\<close>

definition batch_step :: "emu \<Rightarrow> mbuf \<Rightarrow> (call list \<times> mbuf option \<times> emu) res" where
  "batch_step e pkt =
     rbind (current_sending_time e) (\<lambda>cur.
       let goal_sending_time = ts_field pkt;
           sending_time_diff = goal_sending_time - cur
       in if sint sending_time_diff < 0
          then if sint sending_time_diff < -100000
               then Inr ([Free pkt], None, e)
               else Inr ([], Some (pkt\<lparr>ts_field := 0\<rparr>),
                         e\<lparr>current_byte_offset := current_byte_offset e + (ucast (pkt_len pkt) + EMU_PACKET_OVERHEAD e)\<rparr>)
          else rbind (u64_of_d (d_of_s64 sending_time_diff / NANOSECONDS_PER_BYTE e)) (\<lambda>delay_bytes.
                 Inr ([], Some (pkt\<lparr>ts_field := delay_bytes\<rparr>),
                      e\<lparr>current_byte_offset := current_byte_offset e +
                          (ucast (pkt_len pkt) + EMU_PACKET_OVERHEAD e + delay_bytes)\<rparr>)))"

fun batch_loop :: "emu \<Rightarrow> mbuf list \<Rightarrow> (call list \<times> mbuf option list \<times> emu) res" where
  "batch_loop e [] = Inr ([], [], e)"
| "batch_loop e (p # ps) =
     rbind (batch_step e p) (\<lambda>(cs, q, e1).
     rbind (batch_loop e1 ps) (\<lambda>(cs', qs, e2). Inr (cs @ cs', q # qs, e2)))"

definition send_batch :: "pool \<Rightarrow> emu \<Rightarrow> crc \<Rightarrow> world \<Rightarrow> mbuf list \<Rightarrow> (emu \<times> crc \<times> world) run" where
  "send_batch pl e c w load_pkts =
     obind (Some (batch_loop e load_pkts)) (\<lambda>(cs, load_pkts, e').
     obind (send_packets pl c (w\<lparr>sent := sent w @ cs\<rparr>) load_pkts) (\<lambda>(c', w').
       Some (Inr (e', c', w'))))"

section \<open>The transmit loop\<close>

text \<open>\<open>n\<close> gaps of 64 frames; the result is the sum of the byte counts returned.\<close>

fun empty_delays :: "pool \<Rightarrow> crc \<Rightarrow> world \<Rightarrow> nat \<Rightarrow> (u64 \<times> world) res" where
  "empty_delays pl c w 0 = Inr (0, w)"
| "empty_delays pl c w (Suc n) =
     rbind (empty_delay pl c w 64) (\<lambda>(k, w1).
     rbind (empty_delays pl c w1 n) (\<lambda>(k', w2). Inr (k + k', w2)))"

text \<open>One iteration: \<open>rx\<close> holds the packets dequeued from the ring.\<close>

definition transmit_iter :: "pool \<Rightarrow> emu \<times> crc \<times> world \<Rightarrow> mbuf list \<Rightarrow> (emu \<times> crc \<times> world) run" where
  "transmit_iter pl = (\<lambda>(e, c, w) rx.
     if 0 < length rx
     then send_batch pl e (set_invalid_packet_size 9000 c) w rx
     else let c' = set_invalid_packet_size 1500 c
          in obind (Some (empty_delay pl c' w 64)) (\<lambda>(k, w').
               Some (Inr (e\<lparr>current_byte_offset := current_byte_offset e + k\<rparr>, c', w'))))"

fun transmit_iters :: "pool \<Rightarrow> emu \<times> crc \<times> world \<Rightarrow> mbuf list list \<Rightarrow> (emu \<times> crc \<times> world) run" where
  "transmit_iters pl s [] = Some (Inr s)"
| "transmit_iters pl s (rx # rxs) = obind (transmit_iter pl s rx) (\<lambda>s'. transmit_iters pl s' rxs)"

text \<open>Everything before the loop: warm-up, the frame with the transmit timestamp, the wait for
  it, and the timestamp (\<open>tv_sec\<close>, \<open>tv_nsec\<close>) that the driver reads.\<close>

definition start_up :: "pool \<Rightarrow> u64 \<times> u64 \<Rightarrow> emu \<Rightarrow> crc \<Rightarrow> world \<Rightarrow> (emu \<times> crc \<times> world) res" where
  "start_up pl ts e c w =
     (let c' = set_invalid_packet_size 1500 c in
      rbind (empty_delays pl c' w 100) (\<lambda>(_, w1).
      rbind (send_timestamp_packet pl c' w1 64) (\<lambda>(k, w2).
      rbind (empty_delays pl c' w2 100) (\<lambda>(k', w3).
        Inr (e\<lparr>current_byte_offset := k + k', first_timestamp := fst ts * 1000000000 + snd ts\<rparr>, c', w3)))))"

definition transmit_loop :: "pool \<Rightarrow> u64 \<times> u64 \<Rightarrow> emu \<Rightarrow> crc \<Rightarrow> world \<Rightarrow> mbuf list list \<Rightarrow> (emu \<times> crc \<times> world) run" where
  "transmit_loop pl ts e c w rxs = obind (Some (start_up pl ts e c w)) (\<lambda>s. transmit_iters pl s rxs)"

section \<open>The contract of the limiter\<close>

text \<open>\<open>on_wire\<close> are the bytes sent so far, \<open>rest\<close> the bytes of gap that are left over.\<close>

locale pacer =
  fixes send :: "'s \<Rightarrow> mbuf option list \<Rightarrow> 's run"
    and gap :: "'s \<Rightarrow> (u64 \<times> 's) res"
    and on_wire rest :: "'s \<Rightarrow> nat"
    and overhead :: "'s \<Rightarrow> u64"
    and inv :: "'s \<Rightarrow> bool"
  assumes send_bytes: "inv s \<Longrightarrow> load \<noteq> [] \<Longrightarrow> last load \<noteq> None \<Longrightarrow>
      \<forall>p\<in>set (live load). unat (ts_field p) < 2 ^ 63 \<Longrightarrow>
      \<exists>s'. send s load = Some (Inr s') \<and> inv s' \<and> overhead s' = overhead s \<and>
        on_wire s' + rest s' = on_wire s + rest s +
          sum_list (map (\<lambda>p. unat (ts_field p) + (unat (pkt_len p) + unat (overhead s))) (live load))"
    and gap_bytes: "inv s \<Longrightarrow> \<exists>n s'. gap s = Inr (n, s') \<and> inv s' \<and> overhead s' = overhead s \<and>
        on_wire s' + rest s' = on_wire s + rest s + unat n"

lemma batch_step_offset:
  assumes "batch_step e p = Inr (cs, q, e')"
  shows "current_byte_offset e' = current_byte_offset e +
      of_nat (sum_list (map (\<lambda>p. unat (ts_field p) + (unat (pkt_len p) + unat (EMU_PACKET_OVERHEAD e))) (live [q])))"
    and "EMU_PACKET_OVERHEAD e' = EMU_PACKET_OVERHEAD e" "forwarded cs = []"
  using assms by (auto simp: batch_step_def res_simps Let_def split: if_splits)

lemma live_append [simp]: "live (xs @ ys) = live xs @ live ys"
  by (induction xs rule: live.induct) auto

lemma batch_loop_offset:
  assumes "batch_loop e ps = Inr (cs, load, e')"
  shows "current_byte_offset e' = current_byte_offset e +
      of_nat (sum_list (map (\<lambda>p. unat (ts_field p) + (unat (pkt_len p) + unat (EMU_PACKET_OVERHEAD e))) (live load))) \<and>
    EMU_PACKET_OVERHEAD e' = EMU_PACKET_OVERHEAD e \<and> forwarded cs = [] \<and> length load = length ps"
  using assms
proof (induction ps arbitrary: e cs load)
  case (Cons p ps)
  then obtain cs1 q e1 cs2 qs where step: "batch_step e p = Inr (cs1, q, e1)"
      and rest: "batch_loop e1 ps = Inr (cs2, qs, e')" and eqs: "cs = cs1 @ cs2" "load = q # qs"
    by (auto simp: res_simps)
  have "live load = live [q] @ live qs" using eqs(2) live_append[of "[q]" qs] by simp
  then show ?case
    using Cons.IH[OF rest] batch_step_offset[OF step] eqs by (simp del: live.simps)
qed simp

lemma account_word: "x' = x + k \<Longrightarrow> ((b :: u64) + of_nat k) + of_nat x = b + of_nat x'"
  by simp

context pacer
begin

lemma batch_accounting:
  assumes "batch_loop e ps = Inr (cs, load, e')" "inv s" "ps \<noteq> []" "last load \<noteq> None"
    and "\<forall>p\<in>set (live load). unat (ts_field p) < 2 ^ 63" "overhead s = EMU_PACKET_OVERHEAD e"
  shows "\<exists>s'. send s load = Some (Inr s') \<and> inv s' \<and> overhead s' = EMU_PACKET_OVERHEAD e' \<and>
    current_byte_offset e' + of_nat (on_wire s + rest s) = current_byte_offset e + of_nat (on_wire s' + rest s')"
proof -
  note b = batch_loop_offset[OF assms(1)]
  from b assms(3) have "load \<noteq> []" by auto
  from send_bytes[OF assms(2) this assms(4,5)] obtain s' where s': "send s load = Some (Inr s')" "inv s'"
      "overhead s' = overhead s" "on_wire s' + rest s' = on_wire s + rest s +
          sum_list (map (\<lambda>p. unat (ts_field p) + (unat (pkt_len p) + unat (overhead s))) (live load))"
    by blast
  show ?thesis
    using s'(1-3) account_word[OF s'(4), of "current_byte_offset e"] b unfolding assms(6)
    by (intro exI[of _ s']) simp
qed

lemma gap_accounting:
  assumes "inv s"
  shows "\<exists>n s'. gap s = Inr (n, s') \<and> inv s' \<and> overhead s' = overhead s \<and>
    (b + n) + of_nat (on_wire s + rest s) = b + of_nat (on_wire s' + rest s')"
proof -
  obtain n s' where s': "gap s = Inr (n, s')" "inv s'" "overhead s' = overhead s"
      "on_wire s' + rest s' = on_wire s + rest s + unat n"
    using gap_bytes[OF assms] by blast
  have "(b + n) + of_nat (on_wire s + rest s) = b + of_nat (on_wire s' + rest s')"
    using account_word[OF s'(4), of b] by (simp only: of_nat_unat ucast_id)
  with s'(1-3) show ?thesis by blast
qed

end

section \<open>The limiter meets the contract\<close>

definition bulk_ok :: "pool \<Rightarrow> bool" where
  "bulk_ok pl \<longleftrightarrow> (\<forall>k n len. length (alloc_mbufs pl k n len) = unat n \<and>
     (\<forall>p\<in>set (alloc_mbufs pl k n len). pkt_len p = ucast len))"

definition on_wire :: "crc \<times> world \<Rightarrow> nat" where
  "on_wire = (\<lambda>(c, w). sum_list (map (wire c) (forwarded (sent w))))"

definition left_over :: "crc \<times> world \<Rightarrow> nat" where
  "left_over = (\<lambda>(c, w). unat (previous_missing_delay c))"

text \<open>The sizes of the limiter fit the two filler sizes the emulator uses, 1500 and 9000.\<close>

definition limiter_ok :: "pool \<Rightarrow> crc \<times> world \<Rightarrow> bool" where
  "limiter_ok pl = (\<lambda>(c, w). alloc_ok pl \<and> bulk_ok pl \<and> min_gap c \<le> 750 \<and> 20 \<le> unat (PACKET_OVERHEAD c) \<and>
     unat (previous_missing_delay c) < min_gap c \<and>
     unat (port_id c) < length (bad_pkts_sent w) \<and> unat (port_id c) < length (bad_bytes_sent w))"

definition limiter_send :: "pool \<Rightarrow> crc \<times> world \<Rightarrow> mbuf option list \<Rightarrow> (crc \<times> world) run" where
  "limiter_send pl = (\<lambda>(c, w) load. send_packets pl (set_invalid_packet_size 9000 c) w load)"

definition limiter_gap :: "pool \<Rightarrow> crc \<times> world \<Rightarrow> (u64 \<times> crc \<times> world) res" where
  "limiter_gap pl = (\<lambda>(c, w). let c' = set_invalid_packet_size 1500 c
     in rbind (empty_delay pl c' w 64) (\<lambda>(n, w'). Inr (n, c', w')))"

lemmas limiter_defs = on_wire_def left_over_def limiter_ok_def limiter_send_def limiter_gap_def

lemma set_invalid [simp]:
  "wire (set_invalid_packet_size n c) = wire c" "min_gap (set_invalid_packet_size n c) = min_gap c"
  "previous_missing_delay (set_invalid_packet_size n c) = previous_missing_delay c"
  "PACKET_OVERHEAD (set_invalid_packet_size n c) = PACKET_OVERHEAD c"
  "port_id (set_invalid_packet_size n c) = port_id c"
  "invalid_packet_size (set_invalid_packet_size n c) = n"
  by (auto simp: set_invalid_packet_size_def wire_def min_gap_def fun_eq_iff)

lemma limiter_wf: "limiter_ok pl (c, w) \<Longrightarrow> n = 1500 \<or> n = 9000 \<Longrightarrow> wf_crc (set_invalid_packet_size n c)"
  by (auto simp: limiter_ok_def wf_crc_def)

lemma empty_delay_bytes:
  assumes "bulk_ok pl" "unat (PACKET_OVERHEAD c) \<le> 750" "invalid_packet_size c = 1500" "n \<le> 1024"
  shows "\<exists>w'. empty_delay pl c w n = Inr (ucast n * (1500 + PACKET_OVERHEAD c), w') \<and>
     sum_list (map (wire c) (forwarded (sent w'))) =
       sum_list (map (wire c) (forwarded (sent w))) + unat (ucast n * (1500 + PACKET_OVERHEAD c)) \<and>
     bad_pkts_sent w' = bad_pkts_sent w \<and> bad_bytes_sent w' = bad_bytes_sent w"
proof -
  let ?ps = "alloc_mbufs pl (n_bulk w) (ucast n) 1500"
  have len: "length ?ps = unat n"
    using assms(1) by (simp add: bulk_ok_def)
  have "map (wire c) ?ps = replicate (unat n) (1500 + unat (PACKET_OVERHEAD c))"
    unfolding len[symmetric] map_replicate_const[symmetric]
    using assms(1) by (intro map_cong) (auto simp: bulk_ok_def wire_def)
  then have "sum_list (map (wire c) ?ps) = unat n * (1500 + unat (PACKET_OVERHEAD c))"
    by (simp add: sum_list_replicate)
  moreover have "unat (1500 + PACKET_OVERHEAD c) = 1500 + unat (PACKET_OVERHEAD c)"
    using assms(2) by (subst unat_add_no_wrap) auto
  moreover have "unat (ucast n * (1500 + PACKET_OVERHEAD c)) = unat n * (1500 + unat (PACKET_OVERHEAD c))"
  proof -
    have "unat n * (1500 + unat (PACKET_OVERHEAD c)) \<le> 1024 * 2250"
      using assms(2,4) by (intro mult_le_mono) (auto simp: word_le_nat_alt)
    then show ?thesis using calculation(2) by (subst unat_mult_no_wrap) auto
  qed
  ultimately show ?thesis
    using assms(3,4) by (simp add: empty_delay_def Let_def not_less)
qed


abbreviation limiter_overhead :: "crc \<times> world \<Rightarrow> u64" where
  "limiter_overhead s \<equiv> PACKET_OVERHEAD (fst s)"

interpretation crcp: pacer "limiter_send pl" "limiter_gap pl" on_wire left_over limiter_overhead "limiter_ok pl" for pl
proof unfold_locales
  fix s load assume ok: "limiter_ok pl s" and load: "load \<noteq> []" "last load \<noteq> None"
    "\<forall>p\<in>set (live load). unat (ts_field p) < 2 ^ 63"
  obtain c w where s: "s = (c, w)" by (cases s)
  let ?c = "set_invalid_packet_size 9000 c"
  have alloc: "alloc_ok pl" and r: "unat (previous_missing_delay ?c) < min_gap ?c"
    and ports: "unat (port_id ?c) < length (bad_pkts_sent w)" "unat (port_id ?c) < length (bad_bytes_sent w)"
    using ok s by (auto simp: limiter_ok_def)
  have wf: "wf_crc ?c" using ok s by (auto intro: limiter_wf)
  obtain x w' bs where run: "send_packets pl ?c w load = Some (Inr (?c\<lparr>previous_missing_delay := x\<rparr>, w'))"
      and bs: "sent w' = sent w @ bs"
      and pc: "paced ?c (unat (previous_missing_delay ?c)) (live load) (forwarded bs) (unat x)"
      and len: "length (bad_pkts_sent w') = length (bad_pkts_sent w)" "length (bad_bytes_sent w') = length (bad_bytes_sent w)"
    using send_packets_paced[OF wf alloc r load(3) ports load(1,2)] by (auto simp: Let_def)
  show "\<exists>s'. limiter_send pl s load = Some (Inr s') \<and> limiter_ok pl s' \<and> limiter_overhead s' = limiter_overhead s \<and>
      on_wire s' + left_over s' = on_wire s + left_over s +
        sum_list (map (\<lambda>p. unat (ts_field p) + (unat (pkt_len p) + unat (limiter_overhead s))) (live load))"
    using ok paced_bytes[OF pc] paced_rest[OF pc r]
    by (simp add: s limiter_send_def run limiter_ok_def on_wire_def left_over_def bs len) (simp add: wire_def)
next
  fix s assume ok: "limiter_ok pl s"
  obtain c w where s: "s = (c, w)" by (cases s)
  let ?c = "set_invalid_packet_size 1500 c"
  have "bulk_ok pl" "unat (PACKET_OVERHEAD ?c) \<le> 750"
    using ok s by (auto simp: limiter_ok_def min_gap_def)
  from empty_delay_bytes[OF this, of 64 w] obtain w' where
    "empty_delay pl ?c w 64 = Inr (64 * (1500 + PACKET_OVERHEAD ?c), w')"
    "sum_list (map (wire ?c) (forwarded (sent w'))) =
       sum_list (map (wire ?c) (forwarded (sent w))) + unat (64 * (1500 + PACKET_OVERHEAD ?c))"
    "bad_pkts_sent w' = bad_pkts_sent w" "bad_bytes_sent w' = bad_bytes_sent w"
    by auto
  then show "\<exists>n s'. limiter_gap pl s = Inr (n, s') \<and> limiter_ok pl s' \<and> limiter_overhead s' = limiter_overhead s \<and>
      on_wire s' + left_over s' = on_wire s + left_over s + unat n"
    using ok by (simp add: s limiter_gap_def limiter_ok_def on_wire_def left_over_def)
qed

section \<open>The byte offset counts the bytes on the wire\<close>

text \<open>A batch whose last packet is not dropped and whose gaps stay below \<open>2\<^sup>6\<^sup>3\<close> bytes.\<close>

definition batch_fine :: "emu \<Rightarrow> mbuf list \<Rightarrow> bool" where
  "batch_fine e rx = (case batch_loop e rx of
     Inl _ \<Rightarrow> False
   | Inr (cs, load, e') \<Rightarrow> rx = [] \<or> last load \<noteq> None \<and> (\<forall>p\<in>set (live load). unat (ts_field p) < 2 ^ 63))"

fun batches_fine :: "pool \<Rightarrow> emu \<times> crc \<times> world \<Rightarrow> mbuf list list \<Rightarrow> bool" where
  "batches_fine pl s [] = True"
| "batches_fine pl s (rx # rxs) = (batch_fine (fst s) rx \<and>
     (case transmit_iter pl s rx of Some (Inr s') \<Rightarrow> batches_fine pl s' rxs | _ \<Rightarrow> True))"

text \<open>\<open>base\<close> are the bytes before the frame with the transmit timestamp.\<close>

definition accounted :: "pool \<Rightarrow> nat \<Rightarrow> emu \<times> crc \<times> world \<Rightarrow> bool" where
  "accounted pl base = (\<lambda>(e, s). limiter_ok pl s \<and> limiter_overhead s = EMU_PACKET_OVERHEAD e \<and>
     current_byte_offset e + of_nat base = of_nat (on_wire s + left_over s))"

lemma accounted_move:
  assumes "accounted pl base (e, s)" "limiter_ok pl s'" "limiter_overhead s' = EMU_PACKET_OVERHEAD e'"
    and "current_byte_offset e' + of_nat (on_wire s + left_over s) = current_byte_offset e + of_nat (on_wire s' + left_over s')"
  shows "accounted pl base (e', s')"
proof -
  have "current_byte_offset e' + (of_nat base + current_byte_offset e) = current_byte_offset e + of_nat (on_wire s' + left_over s')"
    using assms(1,4) by (simp add: accounted_def add.commute)
  then have "current_byte_offset e + (current_byte_offset e' + of_nat base) = current_byte_offset e + of_nat (on_wire s' + left_over s')"
    by (simp add: ac_simps)
  then show ?thesis using assms(2,3) by (simp add: accounted_def)
qed

lemma transmit_iter_accounted:
  assumes "accounted pl base s" "batch_fine (fst s) rx"
  shows "\<exists>s'. transmit_iter pl s rx = Some (Inr s') \<and> accounted pl base s'"
proof -
  obtain e c w where s: "s = (e, c, w)" by (cases s)
  have ok: "limiter_ok pl (c, w)" "limiter_overhead (c, w) = EMU_PACKET_OVERHEAD e"
    using assms(1) s by (auto simp: accounted_def)
  show ?thesis
  proof (cases "rx = []")
    case True
    obtain n c' w' where gap: "limiter_gap pl (c, w) = Inr (n, c', w')" "limiter_ok pl (c', w')"
        "limiter_overhead (c', w') = limiter_overhead (c, w)"
        "(current_byte_offset e + n) + of_nat (on_wire (c, w) + left_over (c, w)) =
         current_byte_offset e + of_nat (on_wire (c', w') + left_over (c', w'))"
      using crcp.gap_accounting[OF ok(1), of "current_byte_offset e"] by auto
    then have "transmit_iter pl s rx = Some (Inr (e\<lparr>current_byte_offset := current_byte_offset e + n\<rparr>, c', w'))"
      using True s by (auto simp: transmit_iter_def limiter_gap_def Let_def res_simps)
    moreover have "accounted pl base (e\<lparr>current_byte_offset := current_byte_offset e + n\<rparr>, c', w')"
    proof (rule accounted_move[OF assms(1)[unfolded s] gap(2)])
      show "limiter_overhead (c', w') = EMU_PACKET_OVERHEAD (e\<lparr>current_byte_offset := current_byte_offset e + n\<rparr>)"
        using gap(3) ok(2) by simp
      have "current_byte_offset (e\<lparr>current_byte_offset := current_byte_offset e + n\<rparr>) = current_byte_offset e + n"
        by simp
      then show "current_byte_offset (e\<lparr>current_byte_offset := current_byte_offset e + n\<rparr>) +
          of_nat (on_wire (c, w) + left_over (c, w)) = current_byte_offset e + of_nat (on_wire (c', w') + left_over (c', w'))"
        using gap(4) by (rule ssubst)
    qed
    ultimately show ?thesis by blast
  next
    case False
    then obtain cs load e' where loop: "batch_loop e rx = Inr (cs, load, e')" and load: "last load \<noteq> None"
        "\<forall>p\<in>set (live load). unat (ts_field p) < 2 ^ 63"
      using assms(2) s by (auto simp: batch_fine_def split: sum.splits)
    let ?w = "w\<lparr>sent := sent w @ cs\<rparr>"
    have w: "limiter_ok pl (c, ?w)" "on_wire (c, ?w) = on_wire (c, w)" "left_over (c, ?w) = left_over (c, w)"
        "limiter_overhead (c, ?w) = EMU_PACKET_OVERHEAD e"
      using ok batch_loop_offset[OF loop] by (simp_all add: limiter_ok_def on_wire_def left_over_def)
    obtain c' w' where run: "limiter_send pl (c, ?w) load = Some (Inr (c', w'))" "limiter_ok pl (c', w')"
        "limiter_overhead (c', w') = EMU_PACKET_OVERHEAD e'"
        "current_byte_offset e' + of_nat (on_wire (c, ?w) + left_over (c, ?w)) =
         current_byte_offset e + of_nat (on_wire (c', w') + left_over (c', w'))"
      using crcp.batch_accounting[OF loop w(1) False load w(4)] by auto
    then have "transmit_iter pl s rx = Some (Inr (e', c', w'))"
      using False s loop by (simp add: transmit_iter_def send_batch_def limiter_send_def)
    moreover have "accounted pl base (e', c', w')"
      by (rule accounted_move[OF assms(1)[unfolded s] run(2,3) run(4)[unfolded w(2,3)]])
    ultimately show ?thesis by blast
  qed
qed

lemma transmit_iters_accounted:
  assumes "accounted pl base s" "batches_fine pl s rxs"
  shows "\<exists>s'. transmit_iters pl s rxs = Some (Inr s') \<and> accounted pl base s'"
  using assms
proof (induction rxs arbitrary: s)
  case (Cons rx rxs)
  have "batch_fine (fst s) rx" using Cons.prems(2) by simp
  then obtain s1 where s1: "transmit_iter pl s rx = Some (Inr s1)" "accounted pl base s1"
    using transmit_iter_accounted[OF Cons.prems(1)] by blast
  then have "batches_fine pl s1 rxs" using Cons.prems(2) by simp
  from Cons.IH[OF s1(2) this] s1(1) show ?case by simp
qed simp

text \<open>Before the loop: the offset counts the frames from the one with the timestamp on.\<close>

lemma empty_delays_bytes:
  assumes "bulk_ok pl" "unat (PACKET_OVERHEAD c) \<le> 750" "invalid_packet_size c = 1500"
  shows "\<exists>k w'. empty_delays pl c w n = Inr (k, w') \<and> k = of_nat n * (64 * (1500 + PACKET_OVERHEAD c)) \<and>
     of_nat (on_wire (c, w')) = of_nat (on_wire (c, w)) + (k :: u64) \<and>
     bad_pkts_sent w' = bad_pkts_sent w \<and> bad_bytes_sent w' = bad_bytes_sent w"
proof (induction n arbitrary: w)
  case (Suc n)
  let ?k = "64 * (1500 + PACKET_OVERHEAD c) :: u64"
  obtain w1 where w1: "empty_delay pl c w 64 = Inr (?k, w1)" "on_wire (c, w1) = on_wire (c, w) + unat ?k"
      "bad_pkts_sent w1 = bad_pkts_sent w" "bad_bytes_sent w1 = bad_bytes_sent w"
    using empty_delay_bytes[OF assms, of 64 w] by (auto simp: on_wire_def)
  obtain k w' where w': "empty_delays pl c w1 n = Inr (k, w')" "k = of_nat n * ?k" "of_nat (on_wire (c, w')) = of_nat (on_wire (c, w1)) + (k :: u64)"
      "bad_pkts_sent w' = bad_pkts_sent w1" "bad_bytes_sent w' = bad_bytes_sent w1"
    using Suc by blast
  have "of_nat (on_wire (c, w1)) = of_nat (on_wire (c, w)) + ?k"
    unfolding w1(2) of_nat_add by (simp only: of_nat_unat ucast_id)
  then show ?case using w1 w' by (simp add: distrib_right)
qed simp

lemma send_timestamp_packet_bytes:
  assumes "bulk_ok pl" "unat (PACKET_OVERHEAD c) \<le> 750" "invalid_packet_size c = 1500" "n \<le> 1024" "0 < n"
  shows "\<exists>k w'. send_timestamp_packet pl c w n = Inr (k, w') \<and> k = ucast n * (1500 + PACKET_OVERHEAD c) \<and> of_nat (on_wire (c, w')) = of_nat (on_wire (c, w)) + (k :: u64) \<and>
     bad_pkts_sent w' = bad_pkts_sent w \<and> bad_bytes_sent w' = bad_bytes_sent w"
proof -
  obtain w' where w': "empty_delay pl c w n = Inr (ucast n * (1500 + PACKET_OVERHEAD c), w')"
      "on_wire (c, w') = on_wire (c, w) + unat (ucast n * (1500 + PACKET_OVERHEAD c))"
    using empty_delay_bytes[OF assms(1-4)] by (auto simp: on_wire_def)
  have "length (alloc_mbufs pl (n_bulk w) (ucast n) 1500) = unat n"
    using assms(1) by (simp add: bulk_ok_def)
  then obtain p ps where ps: "alloc_mbufs pl (n_bulk w) (ucast n) 1500 = p # ps"
    using assms(5) by (cases "alloc_mbufs pl (n_bulk w) (ucast n) 1500") (auto simp: word_less_nat_alt)
  let ?w = "w\<lparr>n_bulk := n_bulk w + 1, sent := sent w @ [Send (p\<lparr>ol_flags := ol_flags p OR RTE_MBUF_F_TX_IEEE1588_TMST pl\<rparr> # ps)]\<rparr>"
  have "w' = w\<lparr>n_bulk := n_bulk w + 1, sent := sent w @ [Send (p # ps)]\<rparr>"
    using w'(1) assms(3) ps leD[OF assms(4)] unfolding empty_delay_def Let_def by simp
  then have "on_wire (c, ?w) = on_wire (c, w')" by (simp add: on_wire_def wire_def)
  then have "of_nat (on_wire (c, ?w)) = of_nat (on_wire (c, w)) + (ucast n * (1500 + PACKET_OVERHEAD c) :: u64)"
    unfolding w'(2) by (simp only: of_nat_add of_nat_unat ucast_id)
  moreover have "send_timestamp_packet pl c w n = Inr (ucast n * (1500 + PACKET_OVERHEAD c), ?w)"
    using assms(3,4) ps by (simp add: send_timestamp_packet_def not_less)
  ultimately show ?thesis by simp
qed

lemma start_up_accounted:
  assumes "limiter_ok pl (c, w)" "PACKET_OVERHEAD c = EMU_PACKET_OVERHEAD e"
  shows "\<exists>w1 s. empty_delays pl (set_invalid_packet_size 1500 c) w 100 = Inr w1 \<and> start_up pl ts e c w = Inr s \<and>
     fst s = e\<lparr>current_byte_offset := 101 * (64 * (1500 + PACKET_OVERHEAD c)), first_timestamp := fst ts * 1000000000 + snd ts\<rparr> \<and>
     accounted pl (on_wire (c, snd w1) + left_over (c, w)) s"
proof -
  let ?c = "set_invalid_packet_size 1500 c"
  have c: "bulk_ok pl" "unat (PACKET_OVERHEAD ?c) \<le> 750" "invalid_packet_size ?c = 1500"
    using assms(1) by (auto simp: limiter_ok_def min_gap_def)
  obtain k1 w1 where w1: "empty_delays pl ?c w 100 = Inr (k1, w1)"
      "bad_pkts_sent w1 = bad_pkts_sent w" "bad_bytes_sent w1 = bad_bytes_sent w"
    using empty_delays_bytes[OF c] by blast
  obtain k2 w2 where w2: "send_timestamp_packet pl ?c w1 64 = Inr (k2, w2)" "k2 = 64 * (1500 + PACKET_OVERHEAD c)"
      "of_nat (on_wire (?c, w2)) = of_nat (on_wire (?c, w1)) + (k2 :: u64)"
      "bad_pkts_sent w2 = bad_pkts_sent w1" "bad_bytes_sent w2 = bad_bytes_sent w1"
    using send_timestamp_packet_bytes[OF c, of 64 w1] by auto
  obtain k3 w3 where w3: "empty_delays pl ?c w2 100 = Inr (k3, w3)" "k3 = 100 * (64 * (1500 + PACKET_OVERHEAD c))"
      "of_nat (on_wire (?c, w3)) = of_nat (on_wire (?c, w2)) + (k3 :: u64)"
      "bad_pkts_sent w3 = bad_pkts_sent w2" "bad_bytes_sent w3 = bad_bytes_sent w2"
    using empty_delays_bytes[OF c, of w2 100] by auto
  let ?e = "e\<lparr>current_byte_offset := k2 + k3, first_timestamp := fst ts * 1000000000 + snd ts\<rparr>"
  have "start_up pl ts e c w = Inr (?e, ?c, w3)"
    using w1(1) w2(1) w3(1) by (simp add: start_up_def)
  moreover have "accounted pl (on_wire (c, w1) + left_over (c, w)) (?e, ?c, w3)"
    using assms w1(2,3) w2(4,5) w3(4,5) w3(3)[unfolded w2(3)]
    by (simp add: accounted_def limiter_ok_def left_over_def on_wire_def)
  ultimately show ?thesis using w1(1) w2(2) w3(2) by (auto simp: distrib_right[symmetric])
qed

text \<open>(C2) The emulator knows where the transmitter is. From the frame with the transmit timestamp
  on, whatever the bursts, \<open>transmit_loop\<close> returns without undefined behaviour and the byte offset
  it computes times with is the number of bytes that the limiter has put on the wire since
  that frame, plus the gap that the limiter still owes (modulo \<open>2\<^sup>6\<^sup>4\<close>), provided no batch ends
  with a packet that is dropped as late.\<close>

theorem launch_offset_is_wire_position:
  assumes "limiter_ok pl (c, w)" "PACKET_OVERHEAD c = EMU_PACKET_OVERHEAD e"
    and "\<And>s. start_up pl ts e c w = Inr s \<Longrightarrow> batches_fine pl s rxs"
  shows "\<exists>k w1 e' c' w'. empty_delays pl (set_invalid_packet_size 1500 c) w 100 = Inr (k, w1) \<and>
     transmit_loop pl ts e c w rxs = Some (Inr (e', c', w')) \<and>
     current_byte_offset e' + of_nat (on_wire (c, w1) + left_over (c, w)) = of_nat (on_wire (c', w') + left_over (c', w')) \<and>
     left_over (c', w') < min_gap c'"
proof -
  obtain k w1 s where up: "empty_delays pl (set_invalid_packet_size 1500 c) w 100 = Inr (k, w1)"
      "start_up pl ts e c w = Inr s" "accounted pl (on_wire (c, w1) + left_over (c, w)) s"
    using start_up_accounted[OF assms(1,2), of ts] by auto
  obtain e' c' w' where "transmit_iters pl s rxs = Some (Inr (e', c', w'))"
      "accounted pl (on_wire (c, w1) + left_over (c, w)) (e', c', w')"
    using transmit_iters_accounted[OF up(3) assms(3)[OF up(2)]] by auto
  moreover then have "left_over (c', w') < min_gap c'"
    by (simp add: accounted_def limiter_ok_def left_over_def)
  ultimately show ?thesis
    using up by (simp add: transmit_loop_def accounted_def)
qed

definition ex_emu :: emu where
  "ex_emu = \<lparr>first_timestamp = 0, current_byte_offset = 0, NANOSECONDS_PER_BYTE = Fin 1, EMU_PACKET_OVERHEAD = 24\<rparr>"

theorem launch_offset_is_wire_position_witness:
  "\<exists>k w1 e' c' w'. empty_delays ex_pool (set_invalid_packet_size 1500 ex_crc) ex_world 100 = Inr (k, w1) \<and>
     transmit_loop ex_pool (0, 1000) ex_emu ex_crc ex_world [[ex_pkt 20000]] = Some (Inr (e', c', w')) \<and>
     current_byte_offset e' + of_nat (on_wire (ex_crc, w1) + left_over (ex_crc, ex_world)) =
       of_nat (on_wire (c', w') + left_over (c', w')) \<and>
     left_over (c', w') < min_gap c'"
proof (rule launch_offset_is_wire_position)
  show ok: "limiter_ok ex_pool (ex_crc, ex_world)"
    by (simp add: limiter_ok_def bulk_ok_def crc_ex)
  show oh: "PACKET_OVERHEAD ex_crc = EMU_PACKET_OVERHEAD ex_emu" by (simp add: crc_ex ex_emu_def)
  fix s assume s: "start_up ex_pool (0, 1000) ex_emu ex_crc ex_world = Inr s"
  have "fst s = ex_emu\<lparr>current_byte_offset := 9851136, first_timestamp := 1000\<rparr>"
    using start_up_accounted[OF ok oh, of "(0, 1000)"] s by (auto simp: crc_ex)
  then have "batch_fine (fst s) [ex_pkt 20000]"
    by (simp add: batch_fine_def batch_step_def current_sending_time_def Let_def ex_emu_def ex_pkt_def double_eval)
  then show "batches_fine ex_pool s [[ex_pkt 20000]]"
    by (simp split: option.splits sum.splits)
qed



section \<open>Accuracy of the launch times\<close>

lemma rnd_rval_rel: "\<bar>rnd (rval (w :: u64)) - rval w\<bar> \<le> rval w / 2 ^ 53"
proof (cases "w = 0")
  case True
  then show ?thesis by (simp add: rval_def)
next
  case False
  then have "1 \<le> rval w" by (intro rval_ge1) (simp add: word_gt_0)
  then have "2 powi (-1022) \<le> rval w" by (intro min_normal_le) simp
  then show ?thesis by (intro rnd_error_below) simp_all
qed

lemma rnd_error_1: "0 \<le> x \<Longrightarrow> x \<le> 2 ^ 53 \<Longrightarrow> \<bar>rnd x - x\<bar> \<le> 1"
  using rnd_error_below[of x "2 ^ 53"] min_normal_le[of "2 ^ 53"] by simp

text \<open>The time of the wire position, exact and as the code computes it.\<close>

definition wire_time :: "emu \<Rightarrow> rat \<Rightarrow> rat \<Rightarrow> rat" where
  "wire_time e N offset = rval (first_timestamp e) + offset * N"

lemma current_sending_time_error:
  assumes N: "NANOSECONDS_PER_BYTE e = Fin N" "1 / 16 \<le> N" "N \<le> 2 ^ 10"
    and X: "wire_time e N (rval (current_byte_offset e)) \<le> 2 ^ 52"
  shows "\<exists>cur. current_sending_time e = Inr cur \<and> rval cur \<le> 2 ^ 53 \<and>
     wire_time e N (rval (current_byte_offset e)) - 7/2 \<le> rval cur \<and>
     rval cur \<le> wire_time e N (rval (current_byte_offset e)) + 5/2"
proof -
  let ?F = "rval (first_timestamp e)" and ?O = "rval (current_byte_offset e)"
  let ?X = "wire_time e N ?O"
  have X': "?X = ?F + ?O * N" by (simp add: wire_time_def)
  have ON: "0 \<le> ?O * N" using N(2) by simp
  have F52: "?F \<le> 2 ^ 52" using X X' ON by linarith
  have Fex: "rnd ?F = ?F"
  proof (rule rval_rnd_exact)
    have "of_nat (unat (first_timestamp e)) \<le> (of_nat (2 ^ 53) :: rat)" using F52 unfolding rval_def by simp
    then show "unat (first_timestamp e) \<le> 2 ^ 53" unfolding of_nat_le_iff .
  qed
  define O1 where "O1 = rnd ?O"
  define M where "M = rnd (O1 * N)"
  define S where "S = rnd (?F + M)"
  have O1: "\<bar>O1 - ?O\<bar> \<le> ?O / 2 ^ 53" "0 \<le> O1" "O1 \<le> 2 ^ 64"
    unfolding O1_def using rnd_rval_rel rval_rnd_le_u64 b64.fl_ge0 by simp_all
  have "\<bar>O1 * N - ?O * N\<bar> = \<bar>O1 - ?O\<bar> * N" using N(2) by (simp add: abs_mult left_diff_distrib[symmetric])
  also have "\<dots> \<le> ?O / 2 ^ 53 * N" using N(2) O1(1) by (intro mult_right_mono) auto
  also have "\<dots> = ?O * N / 2 ^ 53" by simp
  also have "\<dots> \<le> 2 ^ 52 / 2 ^ 53"
    using X X' rval_nonneg[of "first_timestamp e"] by (intro divide_right_mono) (linarith, simp)
  also have "\<dots> = 1/2" by simp
  finally have e1: "\<bar>O1 * N - ?O * N\<bar> \<le> 1/2" .
  have O1N: "0 \<le> O1 * N" using O1(2) N(2) by simp
  have F0: "0 \<le> ?F" by simp
  have X52: "?F + ?O * N \<le> 4503599627370496" using X X' by simp
  have "O1 * N \<le> 9007199254740992" using e1 X52 F0 by linarith
  then have e2: "\<bar>M - O1 * N\<bar> \<le> 1" unfolding M_def using O1N by (intro rnd_error_1) simp_all
  have M0: "0 \<le> M" unfolding M_def using O1N by (rule b64.fl_ge0)
  have FM: "?F + M \<le> 9007199254740992" using e1 e2 X52 by linarith
  then have MF: "M \<le> 9007199254740992" "?F \<le> 9007199254740992" using F0 M0 by linarith+
  from FM have e3: "\<bar>S - (?F + M)\<bar> \<le> 1" unfolding S_def using M0 F0 by (intro rnd_error_1) simp_all
  have S0: "0 \<le> S" unfolding S_def using M0 by (intro b64.fl_ge0) simp
  have S: "?X - 5/2 \<le> S" "S \<le> ?X + 5/2" using e1 e2 e3 X' by linarith+
  have "d_of_u64 (current_byte_offset e) * NANOSECONDS_PER_BYTE e = Fin M"
    unfolding d_of_u64_fin N(1) M_def O1_def[symmetric]
    using O1(2,3) N(2,3) by (intro fin_small(3)) simp_all
  moreover have "Fin ?F + Fin M = Fin S" unfolding S_def
    using F0 M0 MF by (intro fin_small(1)) simp_all
  ultimately have cur: "current_sending_time e = u64_of_d (Fin S)"
    by (simp add: current_sending_time_def d_of_u64_fin Fex)
  have "S < 2 ^ 64" using S(2) X by simp
  then obtain w where w: "u64_of_d (Fin S) = Inr w" using S0 u64_of_d_total by blast
  have "uint w = \<lfloor>S\<rfloor>" using u64_of_d_uint[OF w] S0 by (simp add: dtrunc_nonneg)
  then have "rval w = of_int \<lfloor>S\<rfloor>" unfolding rval_def by (metis of_int_of_nat_eq uint_nat)
  then have "rval w \<le> S" "S \<le> rval w + 1" by linarith+
  then have "rval w \<le> 9007199254740992" "?X - 7/2 \<le> rval w" "rval w \<le> ?X + 5/2"
    using S X52 X' by linarith+
  then show ?thesis using w cur by (intro exI[of _ w]) simp
qed

lemma delay_bytes_error:
  assumes N: "NANOSECONDS_PER_BYTE e = Fin N" "1 / 16 \<le> N" "N \<le> 2 ^ 10"
    and d: "sint d = k" "0 \<le> k" "k \<le> 2 ^ 53"
  shows "\<exists>b. u64_of_d (d_of_s64 d / NANOSECONDS_PER_BYTE e) = Inr b \<and>
     of_int k - N - 1 \<le> rval b * N \<and> rval b * N \<le> of_int k + 1"
proof -
  define D :: rat where "D = of_int k"
  have "D \<le> of_int (2 ^ 53)" unfolding D_def using d(3) by (simp only: of_int_le_iff)
  then have D: "0 \<le> D" "D \<le> 2 ^ 53" using d(2) by (simp_all add: D_def)
  have "rnd D = D" unfolding D_def using d by (intro rnd_of_int) auto
  moreover have "\<bar>D\<bar> \<le> 2 ^ 1000" using D by (simp add: order.trans[OF D(2)])
  ultimately have dd: "d_of_s64 d = Fin D"
    unfolding d_of_s64_def d(1) D_def[symmetric] using mkd_fin[of D] by simp
  define Q where "Q = rnd (D / N)"
  have div: "d_of_s64 d / NANOSECONDS_PER_BYTE e = Fin Q"
    unfolding dd N(1) Q_def using D N(2) by (intro fin_div) (auto intro: order.trans)
  have "D / N \<le> 2 ^ 53 / (1/16)" using D N(2) by (intro frac_le) auto
  then have le: "D / N \<le> 2 ^ 57" by simp
  have ge: "0 \<le> D / N" using D N(2) by simp
  have Q0: "0 \<le> Q" unfolding Q_def using ge by (rule b64.fl_ge0)
  have Npos: "0 < N" using N(2) by linarith
  have e: "\<bar>Q * N - D\<bar> \<le> 1"
  proof (cases "k = 0")
    case False
    then have "1 \<le> D" using d(2) unfolding D_def by simp
    then have "1 / 2 ^ 10 \<le> D / N" using N(3) Npos by (intro frac_le) auto
    moreover have "1 / 2 ^ 100 \<le> (1 / 2 ^ 10 :: rat)" by simp
    ultimately have "2 powi (-1022) \<le> D / N" by (intro min_normal_le) (rule order.trans)
    then have "\<bar>Q - D / N\<bar> \<le> D / N / 2 ^ 53" unfolding Q_def using ge by (intro rnd_error_below) simp_all
    then have "\<bar>Q - D / N\<bar> * N \<le> D / N / 2 ^ 53 * N" using Npos by (intro mult_right_mono) auto
    also have "\<dots> \<le> 1" using Npos D(2) by simp
    also have "\<bar>Q - D / N\<bar> * N = \<bar>(Q - D / N) * N\<bar>" using Npos by (simp add: abs_mult)
    also have "(Q - D / N) * N = Q * N - D" using Npos by (simp add: left_diff_distrib)
    finally show ?thesis .
  qed (simp add: Q_def D_def)
  have "Q \<le> 2 ^ 57" unfolding Q_def by (rule b64.fl_le_rep[OF rnd_nat_pow2 le])
  then have "Q < 2 ^ 64" by simp
  then obtain w where w: "u64_of_d (Fin Q) = Inr w" using Q0 u64_of_d_total by blast
  have "uint w = \<lfloor>Q\<rfloor>" using u64_of_d_uint[OF w] Q0 by (simp add: dtrunc_nonneg)
  then have "rval w = of_int \<lfloor>Q\<rfloor>" unfolding rval_def by (metis of_int_of_nat_eq uint_nat)
  then have "rval w \<le> Q" "Q \<le> rval w + 1" by linarith+
  then have "rval w * N \<le> Q * N" "Q * N \<le> (rval w + 1) * N" using Npos by simp_all
  then show ?thesis using w div e unfolding D_def[symmetric]
    by (intro exI[of _ w]) (auto simp: distrib_right abs_le_iff)
qed


text \<open>Launch times are met to within a few nanoseconds. While the times stay below \<open>2\<^sup>5\<^sup>2\<close>
  nanoseconds (52 days) and a byte takes \<open>N\<close> nanoseconds, \<open>batch_step\<close> has no undefined behaviour
  on any packet, and with the wire time of the position at which the packet starts: a packet
  that is sent with a gap starts at most \<open>N + 4\<close> nanoseconds before and at most 5 nanoseconds after its
  goal; one that is sent at once is at most 100004 nanoseconds late and at most 2
  early; one that is dropped is more than 99998 nanoseconds late.\<close>

lemma launch_time_accuracy:
  assumes "NANOSECONDS_PER_BYTE e = Fin N" "1 / 16 \<le> N" "N \<le> 2 ^ 10"
    and "wire_time e N (rval (current_byte_offset e)) \<le> 2 ^ 52" "unat (ts_field p) \<le> 2 ^ 52"
  shows "\<exists>cs r e'. batch_step e p = Inr (cs, r, e') \<and>
    (let start = (\<lambda>gap. wire_time e N (rval (current_byte_offset e) + gap)) in
     case r of
       None \<Rightarrow> rval (ts_field p) + 99998 < start 0
     | Some q \<Rightarrow>
         rval (ts_field p) - (N + 4) \<le> start (rval (ts_field q)) \<and> start (rval (ts_field q)) \<le> rval (ts_field p) + 5 \<or>
         ts_field q = 0 \<and> rval (ts_field p) - 2 \<le> start 0 \<and> start 0 \<le> rval (ts_field p) + 100004)"
proof -
  let ?X = "wire_time e N (rval (current_byte_offset e))"
  obtain cur where cur: "current_sending_time e = Inr cur" "rval cur \<le> 2 ^ 53" "?X - 7/2 \<le> rval cur" "rval cur \<le> ?X + 5/2"
    using current_sending_time_error[OF assms(1-4)] by blast
  have "of_nat (unat cur) \<le> (of_nat (2 ^ 53) :: rat)" using cur(2) by (simp add: rval_def)
  then have cn: "unat cur \<le> 2 ^ 53" unfolding of_nat_le_iff .
  define k where "k = int (unat (ts_field p)) - int (unat cur)"
  have sint: "sint (ts_field p - cur) = k" unfolding k_def using assms(5) cn by (intro sint_diff) auto
  have kr: "of_int k = rval (ts_field p) - rval cur" by (simp add: k_def rval_def)
  have "int (unat (ts_field p)) \<le> int (2 ^ 52)" using assms(5) by (simp only: of_nat_le_iff)
  also have "\<dots> \<le> 2 ^ 53" by simp
  finally have k53: "k \<le> 2 ^ 53" unfolding k_def by linarith
  have start: "wire_time e N (rval (current_byte_offset e) + g) = ?X + g * N" for g
    by (simp add: wire_time_def distrib_right)
  consider "k < -100000" | "-100000 \<le> k" "k < 0" | "0 \<le> k" by linarith
  then show ?thesis
  proof cases
    case 1
    then have "(of_int k :: rat) \<le> of_int (-100001)" by (simp only: of_int_le_iff)
    then show ?thesis using 1 cur kr sint by (simp add: batch_step_def Let_def start)
  next
    case 2
    then have "of_int (-100000) \<le> (of_int k :: rat)" "(of_int k :: rat) \<le> of_int (-1)" by (simp_all only: of_int_le_iff)
    then show ?thesis using 2 cur kr sint by (simp add: batch_step_def Let_def start)
  next
    case 3
    obtain b where b: "u64_of_d (d_of_s64 (ts_field p - cur) / NANOSECONDS_PER_BYTE e) = Inr b"
        "of_int k - N - 1 \<le> rval b * N" "rval b * N \<le> of_int k + 1"
      using delay_bytes_error[OF assms(1-3) sint 3 k53] by blast
    then have "rval (ts_field p) - (N + 4) \<le> ?X + rval b * N" "?X + rval b * N \<le> rval (ts_field p) + 5"
      using cur kr by linarith+
    then show ?thesis using 3 cur b(1) sint by (simp add: batch_step_def Let_def start)
  qed
qed

end
