(* ===== verification/HwPath.thy ===== *)
theory HwPath
  imports LaunchTs Moonem
begin

text \<open>
  The hardware path emulator as a whole: the receive loop of \<open>moonem.cpp\<close>, the ring, and the transmit
  loop of \<open>launch-timestamp.cpp\<close> on top of \<open>crc-ratecontrol.cpp\<close>.

  \<^item> The stream of frames that leave the card since the frame with the transmit timestamp determines
    the time at which each of them starts: \<open>N\<close> nanoseconds per byte.
  \<^item> \<open>delivers\<close> is the specification: the stream is made of invalid frames and of the packets of the
    ring in their order, each at its time, and of no packet that was dropped as late.
  \<^item> The proofs join three facts: the error of the computed times (\<open>LaunchTs\<close>), the pacing of the limiter
    (\<open>CrcRate\<close>), and a bound on the time that a run can reach, which excludes overflow.
\<close>

section \<open>Streams\<close>

definition invalid_frame :: "crc \<Rightarrow> mbuf \<Rightarrow> bool" where
  "invalid_frame c f \<longleftrightarrow> unat (MIN_PACKET_SIZE c) \<le> unat (pkt_len f) \<and> wire c f \<le> 9000"

definition stream_bytes :: "crc \<Rightarrow> mbuf list \<Rightarrow> nat" where
  "stream_bytes c ps = sum_list (map (wire c) ps)"

lemma stream_bytes_simps [simp]:
  "stream_bytes c [] = 0" "stream_bytes c (p # ps) = wire c p + stream_bytes c ps"
  "stream_bytes c (ps @ qs) = stream_bytes c ps + stream_bytes c qs"
  by (simp_all add: stream_bytes_def)

definition on_time :: "crc \<Rightarrow> rat \<Rightarrow> rat \<Rightarrow> mbuf \<Rightarrow> mbuf \<Rightarrow> nat \<Rightarrow> bool" where
  "on_time c N first p q x \<longleftrightarrow> q = p\<lparr>ts_field := ts_field q\<rparr> \<and>
     rval (ts_field p) - (N + 4) - of_nat (min_gap c) * N \<le> first + of_nat x * N \<and>
     (first + of_nat x * N \<le> rval (ts_field p) + 5 \<or>
      ts_field q = 0 \<and> first + of_nat x * N \<le> rval (ts_field p) + 100004)"

definition too_late :: "crc \<Rightarrow> rat \<Rightarrow> rat \<Rightarrow> mbuf \<Rightarrow> nat \<Rightarrow> bool" where
  "too_late c N first p x \<longleftrightarrow> rval (ts_field p) + 99998 < first + of_nat (x + min_gap c) * N"

inductive delivers :: "crc \<Rightarrow> rat \<Rightarrow> rat \<Rightarrow> nat \<Rightarrow> mbuf list \<Rightarrow> mbuf list \<Rightarrow> mbuf list \<Rightarrow> bool" for c N first where
  idle: "\<forall>f\<in>set fs. invalid_frame c f \<Longrightarrow> delivers c N first b [] [] fs"
| launch: "\<forall>f\<in>set fs. invalid_frame c f \<Longrightarrow> on_time c N first p q (b + stream_bytes c fs) \<Longrightarrow>
    delivers c N first (b + stream_bytes c fs + wire c q) ps ds out \<Longrightarrow> delivers c N first b (p # ps) ds (fs @ q # out)"
| drop: "\<forall>f\<in>set fs. invalid_frame c f \<Longrightarrow> too_late c N first p (b + stream_bytes c fs) \<Longrightarrow>
    delivers c N first (b + stream_bytes c fs) ps ds out \<Longrightarrow> delivers c N first b (p # ps) (p # ds) (fs @ out)"

lemma delivers_idle:
  assumes "delivers c N first (b + stream_bytes c fs) ps ds out" "\<forall>f\<in>set fs. invalid_frame c f"
  shows "delivers c N first b ps ds (fs @ out)"
  using assms(1)
proof cases
  case idle
  then show ?thesis using assms(2) by (auto intro!: delivers.idle)
next
  case (launch fs' p q ps' out')
  then show ?thesis using assms(2) delivers.launch[of "fs @ fs'" c N first p q b ps' ds out'] by (simp add: ac_simps ball_Un)
next
  case (drop fs' p ps' ds' out')
  then show ?thesis using assms(2) delivers.drop[of "fs @ fs'" c N first p b ps' ds' out'] by (simp add: ac_simps ball_Un)
qed

lemma delivers_append:
  "delivers c N first b ps ds out \<Longrightarrow> delivers c N first (b + stream_bytes c out) ps' ds' out' \<Longrightarrow>
     delivers c N first b (ps @ ps') (ds @ ds') (out @ out')"
proof (induction rule: delivers.induct)
  case (idle fs b)
  then show ?case by (simp add: delivers_idle)
next
  case (launch fs p q b ps ds out)
  then show ?case using delivers.launch[of fs c N first p q b "ps @ ps'" "ds @ ds'" "out @ out'"] by (simp add: ac_simps)
next
  case (drop fs p b ps ds out)
  then show ?case using delivers.drop[of fs c N first p b "ps @ ps'" "ds @ ds'" "out @ out'"] by (simp add: ac_simps)
qed

section \<open>One packet\<close>

lemma batch_step_keeps:
  assumes "batch_step e p = Inr (cs, r, e')"
  shows "first_timestamp e' = first_timestamp e" "NANOSECONDS_PER_BYTE e' = NANOSECONDS_PER_BYTE e"
    "r = None \<Longrightarrow> cs = [Free p] \<and> e' = e" "r = Some q \<Longrightarrow> cs = [] \<and> q = p\<lparr>ts_field := ts_field q\<rparr>"
  using assms by (auto simp: batch_step_def res_simps Let_def split: if_splits)

lemma rval_0 [simp]: "rval 0 = 0"
  by (simp add: rval_def)

lemma unat_of_nat_u64: "n < 2 ^ 64 \<Longrightarrow> unat (of_nat n :: u64) = n"
  by (simp add: unat_of_nat take_bit_nat_eq_self)

lemma rat_nat_le: "of_nat n * (N :: rat) \<le> 2 ^ 52 \<Longrightarrow> 1 / 16 \<le> N \<Longrightarrow> n \<le> 2 ^ 56"
proof -
  assume *: "of_nat n * N \<le> 2 ^ 52" "1 / 16 \<le> N"
  have "of_nat n * (1 / 16) \<le> of_nat n * N" using *(2) by (intro mult_left_mono) auto
  then have "(of_nat n :: rat) \<le> of_nat (2 ^ 56)" using *(1) by simp
  then show ?thesis by (simp only: of_nat_le_iff)
qed

lemma batch_step_launch:
  assumes N: "NANOSECONDS_PER_BYTE e = Fin N" "1 / 16 \<le> N" "N \<le> 2 ^ 10"
    and X: "wire_time e N (rval (current_byte_offset e)) \<le> M" "rval (ts_field p) + 5 \<le> M"
    and M: "M + of_nat (unat (pkt_len p) + unat (EMU_PACKET_OVERHEAD e)) * N \<le> 2 ^ 52"
  shows "\<exists>cs r e'. batch_step e p = Inr (cs, r, e') \<and>
     wire_time e' N (rval (current_byte_offset e')) \<le> M + of_nat (unat (pkt_len p) + unat (EMU_PACKET_OVERHEAD e)) * N \<and>
     (case r of
        None \<Rightarrow> rval (ts_field p) + 99998 < wire_time e N (rval (current_byte_offset e))
      | Some q \<Rightarrow> unat (ts_field q) < 2 ^ 63 \<and>
          unat (current_byte_offset e') = unat (current_byte_offset e) + unat (ts_field q) +
            (unat (pkt_len p) + unat (EMU_PACKET_OVERHEAD e)) \<and>
          rval (ts_field p) - (N + 4) \<le> wire_time e N (rval (current_byte_offset e) + rval (ts_field q)) \<and>
          (wire_time e N (rval (current_byte_offset e) + rval (ts_field q)) \<le> rval (ts_field p) + 5 \<or>
           ts_field q = 0 \<and> wire_time e N (rval (current_byte_offset e)) \<le> rval (ts_field p) + 100004))"
proof -
  define l where "l = unat (pkt_len p) + unat (EMU_PACKET_OVERHEAD e)"
  define o' where "o' = current_byte_offset e"
  have l0: "0 \<le> of_nat l * N" using N(2) by simp
  have M52: "M \<le> 2 ^ 52" using M l0 unfolding l_def[symmetric] by linarith
  have "rval (ts_field p) \<le> of_nat (2 ^ 52)" using X(2) M52 by simp
  then have ts: "unat (ts_field p) \<le> 2 ^ 52" unfolding rval_def by (simp only: of_nat_le_iff)
  have F0: "0 \<le> rval (first_timestamp e)" by simp
  obtain cs r e' where step: "batch_step e p = Inr (cs, r, e')" and
    acc: "case r of None \<Rightarrow> rval (ts_field p) + 99998 < wire_time e N (rval (current_byte_offset e) + 0)
     | Some q \<Rightarrow> rval (ts_field p) - (N + 4) \<le> wire_time e N (rval (current_byte_offset e) + rval (ts_field q)) \<and>
          wire_time e N (rval (current_byte_offset e) + rval (ts_field q)) \<le> rval (ts_field p) + 5 \<or>
         ts_field q = 0 \<and> rval (ts_field p) - 2 \<le> wire_time e N (rval (current_byte_offset e) + 0) \<and>
          wire_time e N (rval (current_byte_offset e) + 0) \<le> rval (ts_field p) + 100004"
    using launch_time_accuracy[OF N order.trans[OF X(1) M52] ts] unfolding Let_def by blast
  note keep = batch_step_keeps[OF step]
  show ?thesis
  proof (cases r)
    case None
    have "wire_time e' N (rval (current_byte_offset e')) \<le> M + of_nat l * N"
      using keep(3)[OF None] X(1) l0 by simp
    then show ?thesis using acc step None by (intro exI[of _ cs] exI[of _ r] exI[of _ e']) (simp add: l_def)
  next
    case (Some q)
    let ?g = "unat (ts_field q)"
    have q: "q = p\<lparr>ts_field := ts_field q\<rparr>" using keep(4)[OF Some] by simp
    then have len: "pkt_len q = pkt_len p" by (metis mbuf.select_convs(2) mbuf.surjective mbuf.update_convs(5))
    have lo: "rval (ts_field p) - (N + 4) \<le> wire_time e N (rval o' + rval (ts_field q))"
      and hi: "wire_time e N (rval o' + rval (ts_field q)) \<le> rval (ts_field p) + 5 \<or>
         ts_field q = 0 \<and> wire_time e N (rval o') \<le> rval (ts_field p) + 100004"
      using acc Some N(2) by (auto simp: o'_def)
    have g: "wire_time e N (rval o' + rval (ts_field q)) \<le> M"
      using hi X by (auto simp: o'_def)
    have "rval o' + rval (ts_field q) = of_nat (unat o' + ?g)" by (simp add: rval_def)
    then have "of_nat (unat o' + ?g) * N = wire_time e N (rval o' + rval (ts_field q)) - rval (first_timestamp e)"
      by (simp only: wire_time_def)
    with g M52 F0 have "of_nat (unat o' + ?g) * N \<le> 2 ^ 52" by linarith
    then have a: "unat o' + ?g \<le> 2 ^ 56" using N(2) by (rule rat_nat_le)
    have "0 \<le> M" using F0 X(2) rval_nonneg[of "ts_field p"] by linarith
    then have "of_nat l * N \<le> 2 ^ 52" using M unfolding l_def[symmetric] by linarith
    then have b: "l \<le> 2 ^ 56" using N(2) by (rule rat_nat_le)
    have "current_byte_offset e' = of_nat (unat o' + ?g + l)"
      using batch_step_offset(1)[OF step] Some by (simp add: o'_def l_def len ac_simps)
    moreover have "unat o' + ?g + l < 2 ^ 64" using a b by simp
    ultimately have off: "unat (current_byte_offset e') = unat o' + ?g + l" by (simp only: unat_of_nat_u64)
    have "wire_time e' N (rval (current_byte_offset e')) = wire_time e N (rval o' + rval (ts_field q)) + of_nat l * N"
      unfolding wire_time_def keep(1) rval_def off by (simp add: algebra_simps)
    then have "wire_time e' N (rval (current_byte_offset e')) \<le> M + of_nat l * N" using g by linarith
    moreover have "?g < 2 ^ 63" using a by simp
    ultimately show ?thesis using step Some off lo hi
      by (intro exI[of _ cs] exI[of _ r] exI[of _ e']) (simp add: l_def o'_def)
  qed
qed

section \<open>One batch\<close>

lemma filler_invalid: "is_filler c f \<Longrightarrow> invalid_packet_size c = 9000 \<Longrightarrow> invalid_frame c f"
  by (simp add: is_filler_def invalid_frame_def word_le_nat_alt)

abbreviation batch_bytes :: "emu \<Rightarrow> mbuf list \<Rightarrow> nat" where
  "batch_bytes e rx \<equiv> sum_list (map (\<lambda>p. unat (pkt_len p) + unat (EMU_PACKET_OVERHEAD e)) rx)"

text \<open>What \<open>send_packets\<close> makes of the batch, for every way of pacing it.\<close>

definition launches :: "rat \<Rightarrow> emu \<Rightarrow> mbuf list \<Rightarrow> call list \<Rightarrow> mbuf option list \<Rightarrow> emu \<Rightarrow> bool" where
  "launches N e rx cs load e' \<longleftrightarrow> (\<forall>c r out r' b. paced c r (live load) out r' \<longrightarrow> r < min_gap c \<longrightarrow>
     PACKET_OVERHEAD c = EMU_PACKET_OVERHEAD e \<longrightarrow> invalid_packet_size c = 9000 \<longrightarrow> unat (current_byte_offset e) = b + r \<longrightarrow>
     (\<exists>ds. cs = map Free ds \<and> delivers c N (rval (first_timestamp e)) b rx ds out \<and>
        unat (current_byte_offset e') = b + stream_bytes c out + r'))"

lemma launchesD:
  assumes "launches N e rx cs load e'" "paced c r (live load) out r'" "r < min_gap c"
    and "PACKET_OVERHEAD c = EMU_PACKET_OVERHEAD e" "invalid_packet_size c = 9000" "unat (current_byte_offset e) = b + r"
  shows "\<exists>ds. cs = map Free ds \<and> delivers c N (rval (first_timestamp e)) b rx ds out \<and>
        unat (current_byte_offset e') = b + stream_bytes c out + r'"
  using assms unfolding launches_def by blast

lemma launches_drop:
  assumes "launches N e rx cs load e'" "rval (ts_field p) + 99998 < wire_time e N (rval (current_byte_offset e))" "0 \<le> N"
  shows "launches N e (p # rx) (Free p # cs) (None # load) e'"
  unfolding launches_def
proof (intro allI impI)
  fix c r out r' b
  assume h: "paced c r (live (None # load)) out r'" "r < min_gap c" "PACKET_OVERHEAD c = EMU_PACKET_OVERHEAD e"
    "invalid_packet_size c = 9000" "unat (current_byte_offset e) = b + r"
  then obtain ds where ds: "cs = map Free ds" "delivers c N (rval (first_timestamp e)) b rx ds out"
      "unat (current_byte_offset e') = b + stream_bytes c out + r'"
    using launchesD[OF assms(1) _ h(2-5)] by auto
  have "of_nat (b + r) * N \<le> of_nat (b + min_gap c) * N"
    using h(2) assms(3) by (intro mult_right_mono) (simp_all only: of_nat_le_iff add_left_mono less_imp_le)
  then have "too_late c N (rval (first_timestamp e)) p b"
    using assms(2)[unfolded wire_time_def rval_def h(5)] unfolding too_late_def rval_def by linarith
  then have "delivers c N (rval (first_timestamp e)) b (p # rx) (p # ds) out"
    using delivers.drop[of "[]"] ds(2) by simp
  then show "\<exists>ds. Free p # cs = map Free ds \<and> delivers c N (rval (first_timestamp e)) b (p # rx) ds out \<and>
      unat (current_byte_offset e') = b + stream_bytes c out + r'"
    using ds(1,3) by (intro exI[of _ "p # ds"]) simp
qed

lemma launches_send:
  assumes "launches N e1 rx cs load e'" "first_timestamp e1 = first_timestamp e" "EMU_PACKET_OVERHEAD e1 = EMU_PACKET_OVERHEAD e"
    and q: "q = p\<lparr>ts_field := ts_field q\<rparr>" and N: "0 \<le> N"
    and off: "unat (current_byte_offset e1) = unat (current_byte_offset e) + unat (ts_field q) +
            (unat (pkt_len p) + unat (EMU_PACKET_OVERHEAD e))"
    and lo: "rval (ts_field p) - (N + 4) \<le> wire_time e N (rval (current_byte_offset e) + rval (ts_field q))"
    and hi: "wire_time e N (rval (current_byte_offset e) + rval (ts_field q)) \<le> rval (ts_field p) + 5 \<or>
           ts_field q = 0 \<and> wire_time e N (rval (current_byte_offset e)) \<le> rval (ts_field p) + 100004"
  shows "launches N e (p # rx) cs (Some q # load) e'"
  unfolding launches_def
proof (intro allI impI)
  fix c r out r' b
  assume h: "paced c r (live (Some q # load)) out r'" "r < min_gap c" "PACKET_OVERHEAD c = EMU_PACKET_OVERHEAD e"
    "invalid_packet_size c = 9000" "unat (current_byte_offset e) = b + r"
  let ?F = "rval (first_timestamp e)"
  from h(1) obtain fs out1 where out: "out = fs @ q # out1" "\<forall>f\<in>set fs. is_filler c f"
      and sum: "stream_bytes c fs = gap_sent c (unat (ts_field q) + r)"
      and rest: "paced c (unat (ts_field q) + r - gap_sent c (unat (ts_field q) + r)) (live load) out1 r'"
    by (auto simp: stream_bytes_def elim: paced_ConsE)
  define r1 where "r1 = unat (ts_field q) + r - stream_bytes c fs"
  have r1: "r1 < min_gap c" "stream_bytes c fs + r1 = unat (ts_field q) + r"
    using h(2) unfolding r1_def sum by (auto simp: gap_sent_def)
  have len: "wire c q = unat (pkt_len p) + unat (EMU_PACKET_OVERHEAD e)"
    using q h(3) unfolding wire_def by (metis mbuf.select_convs(2) mbuf.surjective mbuf.update_convs(5))
  have "unat (current_byte_offset e1) = (b + stream_bytes c fs + wire c q) + r1"
    using off h(5) r1(2) len by simp
  then obtain ds where ds: "cs = map Free ds" "delivers c N ?F (b + stream_bytes c fs + wire c q) rx ds out1"
      "unat (current_byte_offset e') = b + stream_bytes c fs + wire c q + stream_bytes c out1 + r'"
    using launchesD[OF assms(1) rest[folded sum, folded r1_def] r1(1) _ h(4), of "b + stream_bytes c fs + wire c q"]
      assms(2,3) h(3) by auto
  define x where "x = b + stream_bytes c fs"
  have "rval (current_byte_offset e) + rval (ts_field q) = of_nat (x + r1)"
    unfolding rval_def of_nat_add[symmetric] of_nat_eq_iff using h(5) r1(2) by (simp add: x_def)
  then have t: "wire_time e N (rval (current_byte_offset e) + rval (ts_field q)) = ?F + of_nat x * N + of_nat r1 * N"
    unfolding wire_time_def by (simp add: distrib_right)
  have rN: "0 \<le> of_nat r1 * N" "of_nat r1 * N \<le> of_nat (min_gap c) * N"
    using r1(1) N by (auto intro!: mult_right_mono)
  have "on_time c N ?F p q x"
    unfolding on_time_def
  proof (intro conjI)
    show "rval (ts_field p) - (N + 4) - of_nat (min_gap c) * N \<le> ?F + of_nat x * N" using lo t rN by linarith
    show "?F + of_nat x * N \<le> rval (ts_field p) + 5 \<or> ts_field q = 0 \<and> ?F + of_nat x * N \<le> rval (ts_field p) + 100004"
      using hi
    proof
      assume "wire_time e N (rval (current_byte_offset e) + rval (ts_field q)) \<le> rval (ts_field p) + 5"
      then show ?thesis using t rN by (intro disjI1) linarith
    next
      assume a: "ts_field q = 0 \<and> wire_time e N (rval (current_byte_offset e)) \<le> rval (ts_field p) + 100004"
      then have "wire_time e N (rval (current_byte_offset e) + rval (ts_field q)) \<le> rval (ts_field p) + 100004" by simp
      then show ?thesis using t rN a by (intro disjI2 conjI) linarith+
    qed
  qed (rule q)
  then have "delivers c N ?F b (p # rx) ds out"
    unfolding out(1) using ds(2) out(2) filler_invalid[OF _ h(4)] by (intro delivers.launch) (auto simp: x_def)
  then show "\<exists>ds. cs = map Free ds \<and> delivers c N ?F b (p # rx) ds out \<and> unat (current_byte_offset e') = b + stream_bytes c out + r'"
    using ds(1,3) out(1) by (intro exI[of _ ds]) simp
qed

lemma batch_launches:
  assumes "NANOSECONDS_PER_BYTE e = Fin N" "1 / 16 \<le> N" "N \<le> 2 ^ 10"
    and "wire_time e N (rval (current_byte_offset e)) \<le> M" "\<forall>p\<in>set rx. rval (ts_field p) + 5 \<le> M"
    and "M + of_nat (batch_bytes e rx) * N \<le> 2 ^ 52"
  shows "\<exists>cs load e'. batch_loop e rx = Inr (cs, load, e') \<and> launches N e rx cs load e' \<and>
     first_timestamp e' = first_timestamp e \<and> NANOSECONDS_PER_BYTE e' = Fin N \<and>
     wire_time e' N (rval (current_byte_offset e')) \<le> M + of_nat (batch_bytes e rx) * N \<and>
     (\<forall>p\<in>set (live load). unat (ts_field p) < 2 ^ 63)"
  using assms
proof (induction rx arbitrary: e M)
  case Nil
  then show ?case by (auto simp: launches_def intro!: exI[of _ "[]"] delivers.idle)
next
  case (Cons p rx)
  define l where "l = unat (pkt_len p) + unat (EMU_PACKET_OVERHEAD e)"
  define L where "L = batch_bytes e rx"
  have N0: "0 \<le> N" using Cons.prems(2) by simp
  have sum: "M + of_nat l * N + of_nat L * N \<le> 2 ^ 52" "batch_bytes e (p # rx) = l + L"
    using Cons.prems(6) by (simp_all add: l_def L_def distrib_right)
  have nn: "0 \<le> of_nat l * N" "0 \<le> of_nat L * N" using N0 by simp_all
  have "M + of_nat l * N \<le> 2 ^ 52" using sum(1) nn by linarith
  from batch_step_launch[OF Cons.prems(1-4) _ this[unfolded l_def]] Cons.prems(5) obtain cs1 r e1 where
    step: "batch_step e p = Inr (cs1, r, e1)" and t1: "wire_time e1 N (rval (current_byte_offset e1)) \<le> M + of_nat l * N"
    and r: "case r of
        None \<Rightarrow> rval (ts_field p) + 99998 < wire_time e N (rval (current_byte_offset e))
      | Some q \<Rightarrow> unat (ts_field q) < 2 ^ 63 \<and>
          unat (current_byte_offset e1) = unat (current_byte_offset e) + unat (ts_field q) +
            (unat (pkt_len p) + unat (EMU_PACKET_OVERHEAD e)) \<and>
          rval (ts_field p) - (N + 4) \<le> wire_time e N (rval (current_byte_offset e) + rval (ts_field q)) \<and>
          (wire_time e N (rval (current_byte_offset e) + rval (ts_field q)) \<le> rval (ts_field p) + 5 \<or>
           ts_field q = 0 \<and> wire_time e N (rval (current_byte_offset e)) \<le> rval (ts_field p) + 100004)"
    unfolding l_def by auto
  note keep = batch_step_keeps[OF step] batch_step_offset(2)[OF step]
  have "\<forall>p\<in>set rx. rval (ts_field p) + 5 \<le> M + of_nat l * N" using Cons.prems(5) nn(1) by force
  moreover have "M + of_nat l * N + of_nat (batch_bytes e1 rx) * N \<le> 2 ^ 52" using sum(1) keep(5) by (simp add: L_def)
  ultimately obtain cs2 load e' where IH: "batch_loop e1 rx = Inr (cs2, load, e')" "launches N e1 rx cs2 load e'"
      "first_timestamp e' = first_timestamp e1" "NANOSECONDS_PER_BYTE e' = Fin N"
      "wire_time e' N (rval (current_byte_offset e')) \<le> M + of_nat l * N + of_nat (batch_bytes e1 rx) * N"
      "\<forall>p\<in>set (live load). unat (ts_field p) < 2 ^ 63"
    using Cons.IH[of e1 "M + of_nat l * N"] t1 keep(2) Cons.prems(1-3) by auto
  have run: "batch_loop e (p # rx) = Inr (cs1 @ cs2, r # load, e')" using step IH(1) by simp
  have "launches N e (p # rx) (cs1 @ cs2) (r # load) e' \<and> (\<forall>p\<in>set (live (r # load)). unat (ts_field p) < 2 ^ 63)"
  proof (cases r)
    case None
    then show ?thesis using launches_drop[OF _ _ N0, of e rx cs2 load e' p] keep(3)[OF None] IH(2,6) r by simp
  next
    case (Some q)
    then show ?thesis using launches_send[OF IH(2) keep(1,5) _ N0, of q p] keep(4)[OF Some] IH(6) r by simp
  qed
  moreover have "wire_time e' N (rval (current_byte_offset e')) \<le> M + of_nat (batch_bytes e (p # rx)) * N"
    using IH(5) keep(5) unfolding sum(2) by (simp add: L_def distrib_right)
  ultimately show ?case using run IH(3,4) keep(1) by (intro exI[of _ "cs1 @ cs2"] exI[of _ "r # load"] exI[of _ e']) simp
qed

section \<open>One iteration\<close>

fun freed_of :: "call list \<Rightarrow> mbuf list" where
  "freed_of [] = []"
| "freed_of (Free p # cs) = p # freed_of cs"
| "freed_of (Enqueue ps # cs) = freed_of cs"
| "freed_of (Send ps # cs) = freed_of cs"

lemma freed_of_append [simp]: "freed_of (xs @ ys) = freed_of xs @ freed_of ys"
  by (induction xs rule: freed_of.induct) auto

lemma freed_of_frees [simp]: "freed_of (map Free ps) = ps"
  by (induction ps) auto

lemma freed_of_batches [simp]: "\<forall>b\<in>set bs. is_batch b \<Longrightarrow> freed_of bs = []"
  by (induction bs rule: freed_of.induct) (auto simp: is_batch_def)

text \<open>\<open>b\<close> bytes are on the wire since the frame with the timestamp, and the time there is at most \<open>M\<close>.\<close>

definition tracks :: "pool \<Rightarrow> crc \<Rightarrow> rat \<Rightarrow> nat \<Rightarrow> rat \<Rightarrow> emu \<times> crc \<times> world \<Rightarrow> bool" where
  "tracks pl c0 N b M = (\<lambda>(e, c, w). limiter_ok pl (c, w) \<and> PACKET_OVERHEAD c = PACKET_OVERHEAD c0 \<and>
     MIN_PACKET_SIZE c = MIN_PACKET_SIZE c0 \<and> EMU_PACKET_OVERHEAD e = PACKET_OVERHEAD c0 \<and> NANOSECONDS_PER_BYTE e = Fin N \<and>
     unat (current_byte_offset e) = b + left_over (c, w) \<and> wire_time e N (rval (current_byte_offset e)) \<le> M)"

lemma same_frames:
  assumes "PACKET_OVERHEAD c = PACKET_OVERHEAD c0" "MIN_PACKET_SIZE c = MIN_PACKET_SIZE c0"
  shows "wire c = wire c0" "min_gap c = min_gap c0" "invalid_frame c = invalid_frame c0" "stream_bytes c = stream_bytes c0"
    "on_time c = on_time c0" "too_late c = too_late c0"
proof -
  show w: "wire c = wire c0" and g: "min_gap c = min_gap c0" using assms by (simp_all add: fun_eq_iff wire_def min_gap_def)
  show "invalid_frame c = invalid_frame c0" "stream_bytes c = stream_bytes c0" "on_time c = on_time c0" "too_late c = too_late c0"
    using assms by (simp_all add: fun_eq_iff w g invalid_frame_def stream_bytes_def on_time_def too_late_def)
qed

lemma delivers_same:
  assumes "delivers c N first b ps ds out" "PACKET_OVERHEAD c = PACKET_OVERHEAD c0" "MIN_PACKET_SIZE c = MIN_PACKET_SIZE c0"
  shows "delivers c0 N first b ps ds out"
  using assms(1) unfolding same_frames[OF assms(2,3)]
  by (induction rule: delivers.induct) (simp_all add: delivers.intros same_frames[OF assms(2,3)])

lemma set_invalid_min [simp]: "MIN_PACKET_SIZE (set_invalid_packet_size n c) = MIN_PACKET_SIZE c"
  by (simp add: set_invalid_packet_size_def)

text \<open>The bytes of an iteration apart from the gaps.\<close>

definition cost :: "crc \<Rightarrow> mbuf list \<Rightarrow> nat" where
  "cost c rx = (if rx = [] then 64 * (1500 + unat (PACKET_OVERHEAD c)) else stream_bytes c rx)"

definition advances :: "pool \<Rightarrow> crc \<Rightarrow> rat \<Rightarrow> rat \<Rightarrow> nat \<Rightarrow> rat \<Rightarrow> mbuf list \<Rightarrow> world \<Rightarrow> emu \<times> crc \<times> world \<Rightarrow> bool" where
  "advances pl c0 N first b M ps w = (\<lambda>(e', c', w'). rval (first_timestamp e') = first \<and> (\<exists>cs. sent w' = sent w @ cs \<and>
     delivers c0 N first b ps (freed_of cs) (forwarded cs) \<and> tracks pl c0 N (b + stream_bytes c0 (forwarded cs)) M (e', c', w')))"

lemma idle_advances:
  assumes tr: "tracks pl c0 N b M (e, c, w)" and N: "1 / 16 \<le> N" and M: "M + of_nat (cost c0 []) * N \<le> 2 ^ 52"
  shows "\<exists>s'. transmit_iter pl (e, c, w) [] = Some (Inr s') \<and>
    advances pl c0 N (rval (first_timestamp e)) b (M + of_nat (cost c0 []) * N) [] w s'"
proof -
  let ?c = "set_invalid_packet_size 1500 c" and ?k = "64 * (1500 + unat (PACKET_OVERHEAD c0))"
  let ?k' = "64 * (1500 + PACKET_OVERHEAD c0)" and ?ps = "alloc_mbufs pl (n_bulk w) 64 1500"
  have ok: "limiter_ok pl (c, w)" and same: "PACKET_OVERHEAD c = PACKET_OVERHEAD c0" "MIN_PACKET_SIZE c = MIN_PACKET_SIZE c0"
    and ov: "EMU_PACKET_OVERHEAD e = PACKET_OVERHEAD c0" "NANOSECONDS_PER_BYTE e = Fin N"
    and off: "unat (current_byte_offset e) = b + left_over (c, w)" and t: "wire_time e N (rval (current_byte_offset e)) \<le> M"
    using tr by (auto simp: tracks_def)
  have ov750: "unat (PACKET_OVERHEAD c0) \<le> 750" "unat (MIN_PACKET_SIZE c0) \<le> 750" and bulk: "bulk_ok pl"
    using ok same by (auto simp: limiter_ok_def min_gap_def)
  define w' where "w' = w\<lparr>n_bulk := n_bulk w + 1, sent := sent w @ [Send ?ps]\<rparr>"
  have run: "empty_delay pl ?c w 64 = Inr (?k', w')"
    using same(1) by (simp add: empty_delay_def Let_def w'_def)
  have k: "unat ?k' = ?k" "sum_list (map (wire ?c) ?ps) = ?k"
  proof -
    show "unat ?k' = ?k" using ov750(1) by (subst unat_mult_no_wrap; subst unat_add_no_wrap) auto
    then show "sum_list (map (wire ?c) ?ps) = ?k"
      using empty_delay_bytes[OF bulk, of ?c 64 w] ov750(1) same(1) run by (auto simp: w'_def)
  qed
  then have bytes: "stream_bytes c0 ?ps = ?k" using same_frames(1)[OF same] by (simp add: stream_bytes_def)
  have "\<forall>f\<in>set ?ps. pkt_len f = 1500" using bulk by (auto simp: bulk_ok_def)
  then have idle: "delivers c0 N (rval (first_timestamp e)) b [] [] ?ps"
    using ov750 by (intro delivers.idle) (simp add: invalid_frame_def wire_def)
  have N0: "0 \<le> of_nat ?k * N" using N by (intro mult_nonneg_nonneg of_nat_0_le_iff) simp
  have "of_nat (unat (current_byte_offset e)) * N \<le> 2 ^ 52"
    using t M N0 rval_nonneg[of "first_timestamp e"] by (simp add: wire_time_def rval_def cost_def)
  then have "unat (current_byte_offset e) \<le> 2 ^ 56" using N by (rule rat_nat_le)
  then have off': "unat (current_byte_offset e + ?k') = unat (current_byte_offset e) + ?k"
    using k(1) ov750(1) by (subst unat_add_no_wrap) auto
  let ?e = "e\<lparr>current_byte_offset := current_byte_offset e + ?k'\<rparr>"
  have "wire_time ?e N (rval (current_byte_offset e + ?k')) = wire_time e N (rval (current_byte_offset e)) + of_nat ?k * N"
    unfolding wire_time_def rval_def off' by (simp add: algebra_simps)
  then have "tracks pl c0 N (b + ?k) (M + of_nat (cost c0 []) * N) (?e, ?c, w')"
    using ok same ov off off' t k(1) by (simp add: tracks_def limiter_ok_def left_over_def w'_def cost_def)
  then have "advances pl c0 N (rval (first_timestamp e)) b (M + of_nat (cost c0 []) * N) [] w (?e, ?c, w')"
    using idle bytes by (simp add: advances_def w'_def)
  moreover have "transmit_iter pl (e, c, w) [] = Some (Inr (?e, ?c, w'))"
    using run by (simp add: transmit_iter_def)
  ultimately show ?thesis by blast
qed

lemma batch_advances:
  assumes tr: "tracks pl c0 N b M (e, c, w)" and N: "1 / 16 \<le> N" "N \<le> 2 ^ 10"
    and rx: "rx \<noteq> []" "\<forall>p\<in>set rx. rval (ts_field p) + 5 \<le> M" "M + of_nat (cost c0 rx) * N \<le> 2 ^ 52"
    and tail: "\<And>cs load e'. batch_loop e rx = Inr (cs, load, e') \<Longrightarrow> last load \<noteq> None"
  shows "\<exists>s'. transmit_iter pl (e, c, w) rx = Some (Inr s') \<and>
    advances pl c0 N (rval (first_timestamp e)) b (M + of_nat (cost c0 rx) * N) rx w s'"
proof -
  let ?c = "set_invalid_packet_size 9000 c"
  have ok: "limiter_ok pl (c, w)" and same: "PACKET_OVERHEAD ?c = PACKET_OVERHEAD c0" "MIN_PACKET_SIZE ?c = MIN_PACKET_SIZE c0"
    and e: "EMU_PACKET_OVERHEAD e = PACKET_OVERHEAD c0" "NANOSECONDS_PER_BYTE e = Fin N"
    and off: "unat (current_byte_offset e) = b + unat (previous_missing_delay ?c)"
    and t: "wire_time e N (rval (current_byte_offset e)) \<le> M"
    using tr by (auto simp: tracks_def left_over_def)
  have cost: "cost c0 rx = batch_bytes e rx"
    using rx(1) e(1) by (simp add: cost_def stream_bytes_def wire_def[abs_def])
  obtain cs load e' where loop: "batch_loop e rx = Inr (cs, load, e')" and la: "launches N e rx cs load e'"
      and e': "first_timestamp e' = first_timestamp e" "NANOSECONDS_PER_BYTE e' = Fin N"
        "wire_time e' N (rval (current_byte_offset e')) \<le> M + of_nat (cost c0 rx) * N"
      and small: "\<forall>p\<in>set (live load). unat (ts_field p) < 2 ^ 63"
    using batch_launches[OF e(2) N t rx(2)] rx(3) unfolding cost by blast
  have keep: "EMU_PACKET_OVERHEAD e' = EMU_PACKET_OVERHEAD e" "load \<noteq> []"
    using batch_loop_offset[OF loop] rx(1) by auto
  let ?w = "w\<lparr>sent := sent w @ cs\<rparr>"
  have lim: "wf_crc ?c" "alloc_ok pl" "unat (previous_missing_delay ?c) < min_gap ?c"
      "unat (port_id ?c) < length (bad_pkts_sent ?w)" "unat (port_id ?c) < length (bad_bytes_sent ?w)"
    using ok limiter_wf[OF ok, of 9000] by (auto simp: limiter_ok_def)
  obtain x w' bs where run: "send_packets pl ?c ?w load = Some (Inr (?c\<lparr>previous_missing_delay := x\<rparr>, w'))"
      and bs: "sent w' = sent w @ cs @ bs" "\<forall>b\<in>set bs. is_batch b"
      and pc: "paced ?c (unat (previous_missing_delay ?c)) (live load) (forwarded bs) (unat x)"
      and len: "length (bad_pkts_sent w') = length (bad_pkts_sent w)" "length (bad_bytes_sent w') = length (bad_bytes_sent w)"
    using send_packets_paced[OF lim(1-3) small lim(4,5) keep(2) tail[OF loop]] by (auto simp: Let_def)
  obtain ds where ds: "cs = map Free ds" "delivers ?c N (rval (first_timestamp e)) b rx ds (forwarded bs)"
      "unat (current_byte_offset e') = b + stream_bytes ?c (forwarded bs) + unat x"
    using launchesD[OF la pc lim(3) _ _ off] same(1) e(1) by auto
  have "delivers c0 N (rval (first_timestamp e)) b rx ds (forwarded bs)"
    using ds(2) same by (rule delivers_same)
  moreover have "tracks pl c0 N (b + stream_bytes c0 (forwarded bs)) (M + of_nat (cost c0 rx) * N) (e', ?c\<lparr>previous_missing_delay := x\<rparr>, w')"
    using ok same e e' keep(1) ds(3) len paced_rest[OF pc lim(3)] same_frames(4)[OF same]
    by (simp add: tracks_def limiter_ok_def left_over_def)
  ultimately have "advances pl c0 N (rval (first_timestamp e)) b (M + of_nat (cost c0 rx) * N) rx w (e', ?c\<lparr>previous_missing_delay := x\<rparr>, w')"
    using e'(1) bs ds(1) by (simp add: advances_def)
  moreover have "transmit_iter pl (e, c, w) rx = Some (Inr (e', ?c\<lparr>previous_missing_delay := x\<rparr>, w'))"
    using rx(1) loop run by (simp add: transmit_iter_def send_batch_def)
  ultimately show ?thesis by blast
qed

section \<open>Whole runs\<close>

text \<open>No batch ends with a packet that is dropped as late, at which the limiter would lose the batch.\<close>

fun tails_kept :: "pool \<Rightarrow> emu \<times> crc \<times> world \<Rightarrow> mbuf list list \<Rightarrow> bool" where
  "tails_kept pl s [] = True"
| "tails_kept pl s (rx # rxs) =
     ((case batch_loop (fst s) rx of Inl _ \<Rightarrow> True | Inr (cs, load, e') \<Rightarrow> load = [] \<or> last load \<noteq> None) \<and>
      (case transmit_iter pl s rx of Some (Inr s') \<Rightarrow> tails_kept pl s' rxs | _ \<Rightarrow> True))"

lemma advances_trans:
  assumes "advances pl c0 N first b M ps w (e1, c1, w1)"
    and "\<And>b'. tracks pl c0 N b' M (e1, c1, w1) \<Longrightarrow> \<exists>s'. m = Some (Inr s') \<and> advances pl c0 N (rval (first_timestamp e1)) b' M' ps' w1 s'"
  shows "\<exists>s'. m = Some (Inr s') \<and> advances pl c0 N first b M' (ps @ ps') w s'"
proof -
  from assms(1) obtain cs where cs: "rval (first_timestamp e1) = first" "sent w1 = sent w @ cs"
      "delivers c0 N first b ps (freed_of cs) (forwarded cs)" "tracks pl c0 N (b + stream_bytes c0 (forwarded cs)) M (e1, c1, w1)"
    by (auto simp: advances_def)
  from assms(2)[OF cs(4)] obtain e2 c2 w2 cs2 where "m = Some (Inr (e2, c2, w2))" "rval (first_timestamp e2) = first" "sent w2 = sent w1 @ cs2"
      "delivers c0 N first (b + stream_bytes c0 (forwarded cs)) ps' (freed_of cs2) (forwarded cs2)"
      "tracks pl c0 N (b + stream_bytes c0 (forwarded cs) + stream_bytes c0 (forwarded cs2)) M' (e2, c2, w2)"
    unfolding cs(1) by (auto simp: advances_def)
  then show ?thesis using cs(2) delivers_append[OF cs(3)]
    by (intro exI[of _ "(e2, c2, w2)"]) (auto simp: advances_def ac_simps intro!: exI[of _ "cs @ cs2"])
qed

lemma iters_advance:
  assumes "tracks pl c0 N b M (e, c, w)" "1 / 16 \<le> N" "N \<le> 2 ^ 10"
    and "\<forall>p\<in>set (concat rxs). rval (ts_field p) + 5 \<le> M" "M + of_nat (sum_list (map (cost c0) rxs)) * N \<le> 2 ^ 52"
    and "tails_kept pl (e, c, w) rxs"
  shows "\<exists>s'. transmit_iters pl (e, c, w) rxs = Some (Inr s') \<and>
    advances pl c0 N (rval (first_timestamp e)) b (M + of_nat (sum_list (map (cost c0) rxs)) * N) (concat rxs) w s'"
  using assms
proof (induction rxs arbitrary: e c w b M)
  case Nil
  then show ?case by (auto simp: advances_def intro!: exI[of _ "[]"] delivers.idle)
next
  case (Cons rx rxs)
  define S where "S = sum_list (map (cost c0) rxs)"
  define M1 where "M1 = M + of_nat (cost c0 rx) * N"
  have nn: "0 \<le> of_nat S * N" "0 \<le> of_nat (cost c0 rx) * N" using Cons.prems(2) by simp_all
  have M2: "M + of_nat (sum_list (map (cost c0) (rx # rxs))) * N = M1 + of_nat S * N"
    by (simp add: M1_def S_def distrib_right)
  have le: "M1 + of_nat S * N \<le> 2 ^ 52" using Cons.prems(5) unfolding M2 .
  then have M1: "M + of_nat (cost c0 rx) * N \<le> 2 ^ 52" using nn unfolding M1_def by linarith
  have "\<exists>s'. transmit_iter pl (e, c, w) rx = Some (Inr s') \<and> advances pl c0 N (rval (first_timestamp e)) b M1 rx w s'"
  proof (cases "rx = []")
    case True
    then show ?thesis using idle_advances[OF Cons.prems(1,2)] M1 unfolding M1_def by simp
  next
    case False
    have "last load \<noteq> None" if "batch_loop e rx = Inr (cs, load, e')" for cs load e'
      using Cons.prems(6) that batch_loop_offset[OF that] False by auto
    then show ?thesis using batch_advances[OF Cons.prems(1-3) False _ M1] Cons.prems(4) unfolding M1_def by auto
  qed
  then obtain e1 c1 w1 where s1: "transmit_iter pl (e, c, w) rx = Some (Inr (e1, c1, w1))"
      "advances pl c0 N (rval (first_timestamp e)) b M1 rx w (e1, c1, w1)" by auto
  have "\<exists>s'. transmit_iters pl (e1, c1, w1) rxs = Some (Inr s') \<and>
      advances pl c0 N (rval (first_timestamp e)) b (M1 + of_nat S * N) (rx @ concat rxs) w s'"
  proof (rule advances_trans[OF s1(2)])
    fix b' assume tr: "tracks pl c0 N b' M1 (e1, c1, w1)"
    have "\<forall>p\<in>set (concat rxs). rval (ts_field p) + 5 \<le> M1" using Cons.prems(4) nn(2) unfolding M1_def by force
    moreover have "tails_kept pl (e1, c1, w1) rxs" using Cons.prems(6) s1(1) by simp
    ultimately show "\<exists>s'. transmit_iters pl (e1, c1, w1) rxs = Some (Inr s') \<and>
        advances pl c0 N (rval (first_timestamp e1)) b' (M1 + of_nat S * N) (concat rxs) w1 s'"
      using Cons.IH[OF tr Cons.prems(2,3)] le unfolding S_def by simp
  qed
  then show ?case unfolding M2 using s1(1) by simp
qed

section \<open>Before the loop\<close>

lemma empty_delay_stream:
  assumes "bulk_ok pl" "unat (PACKET_OVERHEAD c) \<le> 750" "invalid_packet_size c = 1500"
  shows "\<exists>ps. empty_delay pl c w 64 = Inr (64 * (1500 + PACKET_OVERHEAD c), w\<lparr>n_bulk := n_bulk w + 1, sent := sent w @ [Send ps]\<rparr>) \<and>
    (\<forall>f\<in>set ps. pkt_len f = 1500) \<and> stream_bytes c ps = 64 * (1500 + unat (PACKET_OVERHEAD c))"
proof -
  let ?ps = "alloc_mbufs pl (n_bulk w) 64 1500"
  have "unat (64 * (1500 + PACKET_OVERHEAD c)) = 64 * (1500 + unat (PACKET_OVERHEAD c))"
    using assms(2) by (subst unat_mult_no_wrap; subst unat_add_no_wrap) auto
  then show ?thesis
    using empty_delay_bytes[OF assms, of 64 w] assms(1,3)
    by (intro exI[of _ ?ps]) (auto simp: empty_delay_def Let_def stream_bytes_def bulk_ok_def)
qed

lemma empty_delays_stream:
  assumes "bulk_ok pl" "unat (PACKET_OVERHEAD c) \<le> 750" "invalid_packet_size c = 1500"
  shows "\<exists>w' cs. empty_delays pl c w n = Inr (of_nat n * (64 * (1500 + PACKET_OVERHEAD c)), w') \<and> sent w' = sent w @ cs \<and>
    bad_pkts_sent w' = bad_pkts_sent w \<and> bad_bytes_sent w' = bad_bytes_sent w \<and> freed_of cs = [] \<and>
    (\<forall>f\<in>set (forwarded cs). pkt_len f = 1500) \<and> stream_bytes c (forwarded cs) = n * (64 * (1500 + unat (PACKET_OVERHEAD c)))"
proof (induction n arbitrary: w)
  case (Suc n)
  obtain ps where ps: "empty_delay pl c w 64 = Inr (64 * (1500 + PACKET_OVERHEAD c), w\<lparr>n_bulk := n_bulk w + 1, sent := sent w @ [Send ps]\<rparr>)"
      "\<forall>f\<in>set ps. pkt_len f = 1500" "stream_bytes c ps = 64 * (1500 + unat (PACKET_OVERHEAD c))"
    using empty_delay_stream[OF assms] by blast
  obtain w' cs where w': "empty_delays pl c (w\<lparr>n_bulk := n_bulk w + 1, sent := sent w @ [Send ps]\<rparr>) n =
        Inr (of_nat n * (64 * (1500 + PACKET_OVERHEAD c)), w')"
      "sent w' = sent (w\<lparr>n_bulk := n_bulk w + 1, sent := sent w @ [Send ps]\<rparr>) @ cs"
      "bad_pkts_sent w' = bad_pkts_sent w" "bad_bytes_sent w' = bad_bytes_sent w" "freed_of cs = []"
      "\<forall>f\<in>set (forwarded cs). pkt_len f = 1500" "stream_bytes c (forwarded cs) = n * (64 * (1500 + unat (PACKET_OVERHEAD c)))"
    using Suc[of "w\<lparr>n_bulk := n_bulk w + 1, sent := sent w @ [Send ps]\<rparr>"] by auto
  have "empty_delays pl c w (Suc n) = Inr (of_nat (Suc n) * (64 * (1500 + PACKET_OVERHEAD c)), w')"
    using ps(1) w'(1) by (simp add: distrib_right)
  then show ?case using ps(2,3) w'(2-7) by (intro exI[of _ w'] exI[of _ "Send ps # cs"]) auto
qed auto

lemma unat_of_nat_mult: "of_nat k * (64 * (1500 + PACKET_OVERHEAD c)) = (of_nat (k * (64 * (1500 + unat (PACKET_OVERHEAD c)))) :: u64)"
  by simp

lemma start_up_tracks:
  assumes "limiter_ok pl (c, w)" "PACKET_OVERHEAD c = EMU_PACKET_OVERHEAD e" "NANOSECONDS_PER_BYTE e = Fin N" "previous_missing_delay c = 0"
    and M: "rval (fst ts * 1000000000 + snd ts) + of_nat (101 * cost c []) * N \<le> M"
  shows "\<exists>w1 e3 c3 w3 cs. empty_delays pl (set_invalid_packet_size 1500 c) w 100 = Inr w1 \<and>
    start_up pl ts e c w = Inr (e3, c3, w3) \<and> sent w3 = sent (snd w1) @ cs \<and> freed_of cs = [] \<and>
    first_timestamp e3 = fst ts * 1000000000 + snd ts \<and>
    forwarded cs \<noteq> [] \<and> ol_flags (hd (forwarded cs)) AND RTE_MBUF_F_TX_IEEE1588_TMST pl = RTE_MBUF_F_TX_IEEE1588_TMST pl \<and>
    (\<forall>f\<in>set (forwarded cs). invalid_frame c f) \<and> tracks pl c N (stream_bytes c (forwarded cs)) M (e3, c3, w3)"
proof -
  let ?c = "set_invalid_packet_size 1500 c" and ?k = "64 * (1500 + unat (PACKET_OVERHEAD c))" and ?k' = "64 * (1500 + PACKET_OVERHEAD c)"
  have c: "bulk_ok pl" "unat (PACKET_OVERHEAD ?c) \<le> 750" "invalid_packet_size ?c = 1500" "unat (MIN_PACKET_SIZE c) \<le> 750"
    using assms(1) by (auto simp: limiter_ok_def min_gap_def)
  have same: "stream_bytes ?c = stream_bytes c" by (rule same_frames) simp_all
  obtain w1 cs1 where w1: "empty_delays pl ?c w 100 = Inr (100 * ?k', w1)"
      "bad_pkts_sent w1 = bad_pkts_sent w" "bad_bytes_sent w1 = bad_bytes_sent w"
    using empty_delays_stream[OF c(1-3), of w 100] by auto
  obtain ps where ps: "empty_delay pl ?c w1 64 = Inr (?k', w1\<lparr>n_bulk := n_bulk w1 + 1, sent := sent w1 @ [Send ps]\<rparr>)"
      "\<forall>f\<in>set ps. pkt_len f = 1500" "stream_bytes c ps = ?k"
    using empty_delay_stream[OF c(1-3), of w1] same by auto
  then have al: "alloc_mbufs pl (n_bulk w1) 64 1500 = ps"
    by (auto simp: empty_delay_def Let_def dest!: arg_cong[where f = sent])
  have "ps \<noteq> []" using ps(3) by auto
  then obtain f fs where fs: "ps = f # fs" by (cases ps) auto
  let ?f = "f\<lparr>ol_flags := ol_flags f OR RTE_MBUF_F_TX_IEEE1588_TMST pl\<rparr>"
  define w2 where "w2 = w1\<lparr>n_bulk := n_bulk w1 + 1, sent := sent w1 @ [Send (?f # fs)]\<rparr>"
  have ts: "send_timestamp_packet pl ?c w1 64 = Inr (?k', w2)"
    using al fs by (simp add: send_timestamp_packet_def w2_def)
  obtain w3 cs3 where w3: "empty_delays pl ?c w2 100 = Inr (100 * ?k', w3)" "sent w3 = sent w2 @ cs3"
      "bad_pkts_sent w3 = bad_pkts_sent w2" "bad_bytes_sent w3 = bad_bytes_sent w2" "freed_of cs3 = []"
      "\<forall>f\<in>set (forwarded cs3). pkt_len f = 1500" "stream_bytes c (forwarded cs3) = 100 * ?k"
    using empty_delays_stream[OF c(1-3), of w2 100] same by auto
  let ?cs = "Send (?f # fs) # cs3"
  have flag: "(x OR y) AND y = y" for x y :: u64 by (rule bit_eqI) (auto simp: bit_simps)
  define o3 where "o3 = ?k' + 100 * ?k'"
  let ?e = "e\<lparr>current_byte_offset := o3, first_timestamp := fst ts * 1000000000 + snd ts\<rparr>"
  have run: "start_up pl ts e c w = Inr (?e, ?c, w3)" using w1(1) ts w3(1) by (simp add: start_up_def o3_def)
  have "wire c ?f = wire c f" by (simp add: wire_def)
  then have bytes: "stream_bytes c (forwarded ?cs) = 101 * ?k" using ps(3) fs w3(7) by simp
  have "\<forall>f\<in>set (forwarded ?cs). pkt_len f = 1500" using ps(2) fs w3(6) by auto
  then have inv: "\<forall>f\<in>set (forwarded ?cs). invalid_frame c f" using c(2,4) by (simp add: invalid_frame_def wire_def)
  have "o3 = of_nat (101 * ?k)" by (simp add: o3_def)
  moreover have "101 * ?k < 2 ^ 64" using c(2) by simp
  ultimately have off: "unat o3 = 101 * ?k" using unat_of_nat_u64[of "101 * ?k"] by metis
  have "tracks pl c N (101 * ?k) M (?e, ?c, w3)"
  proof -
    have "limiter_ok pl (?c, w3)" using assms(1) w1 w3 by (simp add: limiter_ok_def w2_def)
    moreover have "wire_time ?e N (rval (current_byte_offset ?e)) \<le> M"
      using M unfolding wire_time_def rval_def by (simp add: off cost_def)
    ultimately show ?thesis using assms(2-4) off by (simp add: tracks_def left_over_def)
  qed
  then show ?thesis
    unfolding bytes[symmetric] using w1(1) run w3(2,5) inv
    by (intro exI[of _ "(100 * ?k', w1)"] exI[of _ ?e] exI[of _ ?c] exI[of _ w3] exI[of _ ?cs]) (simp add: w2_def flag)
qed

text \<open>The time a run takes apart from the gaps: the frames before the loop, the packets, and the invalid
  frames whenever the ring is empty.\<close>

definition busy_time :: "crc \<Rightarrow> rat \<Rightarrow> mbuf list list \<Rightarrow> rat" where
  "busy_time c N rxs = of_nat (101 * cost c [] + sum_list (map (cost c) rxs)) * N"

lemma transmit_delivers:
  assumes "limiter_ok pl (c, w)" "previous_missing_delay c = 0" "PACKET_OVERHEAD c = EMU_PACKET_OVERHEAD e"
    and N: "NANOSECONDS_PER_BYTE e = Fin N" "1 / 16 \<le> N" "N \<le> 2 ^ 10"
    and t: "unat (fst ts * 1000000000 + snd ts) \<le> 2 ^ 50" "\<forall>p\<in>set (concat rxs). unat (ts_field p) \<le> 2 ^ 50" "busy_time c N rxs \<le> 2 ^ 51"
    and tails: "\<And>s. start_up pl ts e c w = Inr s \<Longrightarrow> tails_kept pl s rxs"
  shows "\<exists>w1 e' c' w' cs. empty_delays pl (set_invalid_packet_size 1500 c) w 100 = Inr w1 \<and>
    transmit_loop pl ts e c w rxs = Some (Inr (e', c', w')) \<and> sent w' = sent (snd w1) @ cs \<and>
    forwarded cs \<noteq> [] \<and> ol_flags (hd (forwarded cs)) AND RTE_MBUF_F_TX_IEEE1588_TMST pl = RTE_MBUF_F_TX_IEEE1588_TMST pl \<and>
    delivers c N (rval (fst ts * 1000000000 + snd ts)) 0 (concat rxs) (freed_of cs) (forwarded cs)"
proof -
  let ?F = "fst ts * 1000000000 + snd ts"
  define A where "A = of_nat (101 * cost c []) * N"
  define B where "B = of_nat (sum_list (map (cost c) rxs)) * N"
  define M where "M = 2 ^ 50 + A + 5"
  have AB: "busy_time c N rxs = A + B" unfolding busy_time_def A_def B_def of_nat_add distrib_right ..
  have A0: "0 \<le> A" unfolding A_def using N(2) by (intro mult_nonneg_nonneg of_nat_0_le_iff) simp
  have r50: "rval x \<le> 2 ^ 50" if "unat x \<le> 2 ^ 50" for x :: u64
  proof -
    have "(of_nat (unat x) :: rat) \<le> of_nat (2 ^ 50)" using that by (simp only: of_nat_le_iff)
    then show ?thesis by (simp add: rval_def)
  qed
  have "rval ?F + A \<le> M" using r50[OF t(1)] by (simp add: M_def)
  from start_up_tracks[OF assms(1,3) N(1) assms(2) this[unfolded A_def]] obtain w1 e3 c3 w3 cs where
    up: "empty_delays pl (set_invalid_packet_size 1500 c) w 100 = Inr w1" "start_up pl ts e c w = Inr (e3, c3, w3)"
      "sent w3 = sent (snd w1) @ cs" "freed_of cs = []" "first_timestamp e3 = ?F" "forwarded cs \<noteq> []"
      "ol_flags (hd (forwarded cs)) AND RTE_MBUF_F_TX_IEEE1588_TMST pl = RTE_MBUF_F_TX_IEEE1588_TMST pl"
      "\<forall>f\<in>set (forwarded cs). invalid_frame c f" and tr: "tracks pl c N (stream_bytes c (forwarded cs)) M (e3, c3, w3)"
    by blast
  have "\<forall>p\<in>set (concat rxs). rval (ts_field p) + 5 \<le> M" using t(2) r50 A0 unfolding M_def by force
  moreover have "M + B \<le> 2 ^ 52" using t(3) unfolding AB M_def by simp
  ultimately obtain s' where run: "transmit_iters pl (e3, c3, w3) rxs = Some (Inr s')"
      "advances pl c N (rval (first_timestamp e3)) (stream_bytes c (forwarded cs)) (M + B) (concat rxs) w3 s'"
    using iters_advance[OF tr N(2,3) _ _ tails[OF up(2)]] unfolding B_def by blast
  then obtain e' c' w' cs' where s': "s' = (e', c', w')" "sent w' = sent w3 @ cs'"
      "delivers c N (rval ?F) (0 + stream_bytes c (forwarded cs)) (concat rxs) (freed_of cs') (forwarded cs')"
    unfolding up(5) by (cases s') (auto simp: advances_def)
  from delivers_idle[OF s'(3) up(8)] have "delivers c N (rval ?F) 0 (concat rxs) (freed_of (cs @ cs')) (forwarded (cs @ cs'))"
    using up(4) by simp
  moreover have "transmit_loop pl ts e c w rxs = Some (Inr (e', c', w'))"
    using up(2) run(1) s'(1) by (simp add: transmit_loop_def)
  ultimately show ?thesis using up(1,3,6,7) s'(2)
    by (intro exI[of _ w1] exI[of _ e'] exI[of _ c'] exI[of _ w'] exI[of _ "cs @ cs'"]) simp
qed

section \<open>Reading the specification\<close>

lemma delivers_packet:
  assumes "delivers c N first b ps ds out" "p \<in> set ps" "p \<notin> set ds"
  shows "\<exists>pre q post. out = pre @ q # post \<and> on_time c N first p q (b + stream_bytes c pre)"
  using assms
proof (induction rule: delivers.induct)
  case (launch fs p' q b ps ds out)
  show ?case
  proof (cases "p = p'")
    case True
    then show ?thesis using launch.hyps(2) by blast
  next
    case False
    then obtain pre q' post where "out = pre @ q' # post" "on_time c N first p q' (b + stream_bytes c fs + wire c q + stream_bytes c pre)"
      using launch by auto
    then show ?thesis by (intro exI[of _ "fs @ q # pre"] exI[of _ q'] exI[of _ post]) (simp add: ac_simps)
  qed
next
  case (drop fs p' b ps ds out)
  then obtain pre q post where "out = pre @ q # post" "on_time c N first p q (b + stream_bytes c fs + stream_bytes c pre)"
    by auto
  then show ?case by (intro exI[of _ "fs @ pre"] exI[of _ q] exI[of _ post]) (simp add: ac_simps)
qed simp

lemma delivers_order:
  "delivers c N first b ps ds out \<Longrightarrow> \<exists>ks. ps \<in> shuffles ks ds \<and> subseq (map mid ks) (map mid out)"
proof (induction rule: delivers.induct)
  case (launch fs p q b ps ds out)
  then obtain ks where ks: "ps \<in> shuffles ks ds" "subseq (map mid ks) (map mid out)" by blast
  have "mid q = mid p" using launch.hyps(2) unfolding on_time_def by (metis mbuf.select_convs(1) mbuf.surjective mbuf.update_convs(5))
  then have "subseq (map mid (p # ks)) (map mid (fs @ q # out))" using ks(2) by (simp add: list_emb_append2)
  then show ?case using Cons_in_shuffles_leftI[OF ks(1)] by blast
next
  case (drop fs p b ps ds out)
  then obtain ks where "ps \<in> shuffles ks ds" "subseq (map mid ks) (map mid out)" by blast
  then show ?case using Cons_in_shuffles_rightI by (intro exI[of _ ks]) (auto simp: list_emb_append2)
qed auto

lemma delay_iter_none:
  "cfg_loss_type c = NONE \<Longrightarrow> delay_iter c ls b = Inr (if b = [] then [] else [Enqueue (map (add_delay c) b)], ls)"
  by (simp add: delay_iter_def hand_over_def)

lemma receiver_delay_none:
  assumes "cfg_loss_type c = NONE"
  shows "\<exists>cs ls. receiver_loop_delay c bursts = Inr (cs, ls) \<and> forwarded cs = map (add_delay c) (concat bursts)"
proof -
  have "\<exists>cs. run_loop (delay_iter c) ls bursts = Inr (cs, ls) \<and> forwarded cs = map (add_delay c) (concat bursts)" for ls
  proof (induction bursts)
    case (Cons b bs)
    then obtain cs where cs: "run_loop (delay_iter c) ls bs = Inr (cs, ls)" "forwarded cs = map (add_delay c) (concat bs)" by blast
    then show ?case using delay_iter_none[OF assms, of ls b]
      by (intro exI[of _ "(if b = [] then [] else [Enqueue (map (add_delay c) b)]) @ cs"]) (simp add: run_loop_Cons)
  qed simp
  then show ?thesis unfolding receiver_loop_delay_def by blast
qed

section \<open>Properties\<close>


lemma ex_limiter: "limiter_ok ex_pool (ex_crc, ex_world)" "previous_missing_delay ex_crc = 0" "PACKET_OVERHEAD ex_crc = EMU_PACKET_OVERHEAD ex_emu"
    "NANOSECONDS_PER_BYTE ex_emu = Fin 1"
  by (simp_all add: limiter_ok_def bulk_ok_def crc_ex ex_emu_def)

lemma ex_tails:
  assumes "start_up ex_pool (0, 1000) ex_emu ex_crc ex_world = Inr s" "ts_field p = 20000000"
  shows "tails_kept ex_pool s [[p]]"
proof -
  have "fst s = ex_emu\<lparr>current_byte_offset := 101 * (64 * (1500 + PACKET_OVERHEAD ex_crc)), first_timestamp := 1000\<rparr>"
    using start_up_accounted[OF ex_limiter(1,3), of "(0, 1000)"] assms(1) by auto
  then show ?thesis using assms(2)
    by (simp add: batch_step_def current_sending_time_def Let_def ex_emu_def double_eval crc_ex split: option.splits sum.splits)
qed


text \<open>\<open>p\<close>, as it was received, is in the stream \<open>out\<close> and starts at its arrival time plus the delay.\<close>

definition launched :: "crc \<Rightarrow> rat \<Rightarrow> rat \<Rightarrow> moonem_config \<Rightarrow> mbuf list \<Rightarrow> mbuf \<Rightarrow> bool" where
  "launched c N first cfg out p \<longleftrightarrow> (\<exists>pre q post. out = pre @ q # post \<and> mid q = mid p \<and> pkt_len q = pkt_len p \<and> pkt_data q = pkt_data p \<and>
     (let start = first + of_nat (stream_bytes c pre) * N;
          goal = rval (ts_field p) + rval (cfg_delay cfg)
      in goal - (N + 4) - of_nat (min_gap c) * N \<le> start \<and>
         (start \<le> goal + 5 \<or> ts_field q = 0 \<and> start \<le> goal + 100004)))"



end
