(* ===== verification/Bytes.thy ===== *)
theory Bytes
  imports Prelude
begin

text \<open>
  Integers in memory and in files, least significant byte first (the byte order of the machines
  DPDK drives these network cards on), with the law that reading gives back what was written.
\<close>

fun le_bytes :: "nat \<Rightarrow> nat \<Rightarrow> bytes" where
  "le_bytes 0 v = []"
| "le_bytes (Suc n) v = of_nat (v mod 256) # le_bytes n (v div 256)"

fun le_value :: "bytes \<Rightarrow> nat" where
  "le_value [] = 0"
| "le_value (b # bs) = unat b + 256 * le_value bs"

lemma length_le_bytes [simp]: "length (le_bytes n v) = n"
  by (induction n arbitrary: v) auto

lemma le_value_bytes: "le_value (le_bytes n v) = v mod 256 ^ n"
proof (induction n arbitrary: v)
  case (Suc n)
  have "unat (of_nat (v mod 256) :: u8) = v mod 256" by (simp add: unat_of_nat take_bit_nat_eq_self)
  then show ?case using Suc mod_mult2_eq[of v 256 "256 ^ n"] by simp
qed simp

lemma le_value_less: "le_value bs < 256 ^ length bs"
proof (induction bs)
  case (Cons b bs)
  have "unat b < 256" using unsigned_less[of b] by simp
  then show ?case using Cons by simp
qed simp

lemma le_value_zeros [simp]: "le_value (replicate n 0) = 0"
  by (induction n) auto

text \<open>Integers of 32 and 64 bits.\<close>

definition put32 :: "u32 \<Rightarrow> bytes" where
  "put32 w = le_bytes 4 (unat w)"

definition put64 :: "u64 \<Rightarrow> bytes" where
  "put64 w = le_bytes 8 (unat w)"

definition get32 :: "bytes \<Rightarrow> u32" where
  "get32 bs = of_nat (le_value (take 4 bs))"

definition get64 :: "bytes \<Rightarrow> u64" where
  "get64 bs = of_nat (le_value (take 8 bs))"

lemma length_put [simp]: "length (put32 w) = 4" "length (put64 v) = 8"
  by (simp_all add: put32_def put64_def)

lemma get32_put32 [simp]: "get32 (put32 w @ bs) = w"
proof -
  have "unat w < 256 ^ 4" using unat_u32_less[of w] by simp
  then show ?thesis by (simp add: get32_def put32_def le_value_bytes del: of_nat_unat) (simp only: of_nat_unat ucast_id)
qed

lemma get64_put64 [simp]: "get64 (put64 w @ bs) = w"
proof -
  have "unat w < 256 ^ 8" using unat_u64_less[of w] by simp
  then show ?thesis by (simp add: get64_def put64_def le_value_bytes del: of_nat_unat) (simp only: of_nat_unat ucast_id)
qed

lemma drop_put [simp]: "drop 4 (put32 w @ bs) = bs" "drop 8 (put64 v @ bs) = bs"
  by simp_all

text \<open>A 32-bit read at an offset of a block of memory, which may lie outside of it.\<close>

definition mem32 :: "bytes \<Rightarrow> int \<Rightarrow> u32 res" where
  "mem32 bs off = (if 0 \<le> off \<and> off + 4 \<le> int (length bs) then Inr (get32 (drop (nat off) bs)) else Inl OutOfBounds)"

end
