(* ===== verification/Capture.thy ===== *)
theory Capture
  imports Mbuf Bytes
begin

text \<open>
  The two recording modes of MoonSniff (\<open>src/moonsniff.cpp\<close>): \<open>ms_log_pkts\<close> writes a time stamp and an
  identifier per packet, \<open>pcap_log_pkts\<close> writes the packets to a memory-mapped pcap file.

  \<^item> The input of a loop is the list of bursts received; \<open>pkt_data\<close> is the buffer from \<open>data_off\<close> to
    its end, which may be longer than the packet. A read before or behind it is \<open>OutOfBounds\<close>.
  \<^item> \<open>tmst\<close> is the value of DPDK's flag \<open>RTE_MBUF_F_RX_IEEE1588_TMST\<close>.
  \<^item> The readers are \<open>readSingle\<close> of \<open>lua/moonsniff-io.lua\<close> for the first format and a parser of
    nanosecond pcap files, written from the description of that format, for the second.
\<close>

section \<open>Time stamps\<close>

definition stamped :: "u64 \<Rightarrow> bool \<Rightarrow> mbuf \<Rightarrow> bool" where
  "stamped tmst embedded p \<longleftrightarrow> embedded \<or> ol_flags p AND tmst \<noteq> 0"

text \<open>The two words at the end of the packet: nanoseconds, then seconds.\<close>

definition trailer :: "mbuf \<Rightarrow> (u32 \<times> u32) res" where
  "trailer p =
     rbind (mem32 (pkt_data p) (uint (pkt_len p) - 8)) (\<lambda>low.
     rbind (mem32 (pkt_data p) (uint (pkt_len p) - 8 + 4)) (\<lambda>high. Inr (low, high)))"

definition log_stamp :: "bool \<Rightarrow> mbuf \<Rightarrow> u64 res" where
  "log_stamp embedded p =
     (if embedded then Inr (ts_field p)
      else rbind (trailer p) (\<lambda>(low, high). Inr (ucast (high * 1000000000 + low))))"

section \<open>The log of time stamps\<close>

datatype log_ev =
    Write bytes    \<comment> \<open>\<open>out.write\<close>\<close>
  | Cerr string
  | Release mbuf   \<comment> \<open>\<open>rte_pktmbuf_free\<close>\<close>

definition log_pkt :: "u64 \<Rightarrow> bool \<Rightarrow> u32 \<Rightarrow> mbuf \<Rightarrow> (log_ev list \<times> unit) res" where
  "log_pkt tmst embedded seqnum_offset p =
     rbind (if stamped tmst embedded p
            then rbind (log_stamp embedded p) (\<lambda>ts.
              if seqnum_offset < pkt_len p
              then rbind (mem32 (pkt_data p) (uint seqnum_offset)) (\<lambda>ident. Inr [Write (put64 ts), Write (put32 ident)])
              else Inr [Cerr (''Offset of sequence number greater than packet size'' @ [CHR 0x0A])])
            else Inr [])
       (\<lambda>evs. Inr (evs @ [Release p], ()))"

definition ms_log_pkts :: "u64 \<Rightarrow> bool \<Rightarrow> u32 \<Rightarrow> mbuf list list \<Rightarrow> (log_ev list \<times> unit) res" where
  "ms_log_pkts tmst embedded seqnum_offset bursts =
     run_loop (\<lambda>_ rx_pkts. run_loop (\<lambda>_ p. log_pkt tmst embedded seqnum_offset p) () rx_pkts) () bursts"

text \<open>What the calls have appended to the file, and the buffers they have released.\<close>

fun ev_bytes :: "log_ev \<Rightarrow> bytes" where
  "ev_bytes (Write bs) = bs"
| "ev_bytes _ = []"

fun ev_released :: "log_ev \<Rightarrow> mbuf list" where
  "ev_released (Release p) = [p]"
| "ev_released _ = []"

definition file_of :: "log_ev list \<Rightarrow> bytes" where
  "file_of evs = concat (map ev_bytes evs)"

definition released_of :: "log_ev list \<Rightarrow> mbuf list" where
  "released_of evs = concat (map ev_released evs)"

lemma file_of_append [simp]: "file_of (xs @ ys) = file_of xs @ file_of ys" "file_of [] = []"
  "file_of (e # xs) = ev_bytes e @ file_of xs"
  by (simp_all add: file_of_def)

lemma released_of_append [simp]: "released_of (xs @ ys) = released_of xs @ released_of ys" "released_of [] = []"
  "released_of (e # xs) = ev_released e @ released_of xs"
  by (simp_all add: released_of_def)

subsection \<open>The reader\<close>

definition MSCAP_SIZE :: nat where
  "MSCAP_SIZE = 12"

text \<open>The record at the offset, if the file has that many bytes left, and the next offset.\<close>

definition readSingle :: "bytes \<Rightarrow> nat \<Rightarrow> ((u64 \<times> u32) \<times> nat) option" where
  "readSingle file offset =
     (if length file - offset < MSCAP_SIZE then None
      else Some ((get64 (drop offset file), get32 (drop (offset + 8) file)), offset + MSCAP_SIZE))"

function read_all :: "bytes \<Rightarrow> nat \<Rightarrow> (u64 \<times> u32) list" where
  "read_all file offset = (case readSingle file offset of None \<Rightarrow> [] | Some (r, offset') \<Rightarrow> r # read_all file offset')"
  by auto
termination
  by (relation "measure (\<lambda>(file, offset). length file - offset)") (auto simp: readSingle_def MSCAP_SIZE_def split: if_splits)

declare read_all.simps [simp del]

subsection \<open>Round trip\<close>

definition put_rec :: "u64 \<times> u32 \<Rightarrow> bytes" where
  "put_rec = (\<lambda>(ts, ident). put64 ts @ put32 ident)"

lemma length_put_rec [simp]: "length (put_rec r) = 12"
  by (simp add: put_rec_def split: prod.split)

lemma read_all_recs: "read_all (pre @ concat (map put_rec rs)) (length pre) = rs"
proof (induction rs arbitrary: pre)
  case Nil
  then show ?case by (simp add: read_all.simps readSingle_def MSCAP_SIZE_def)
next
  case (Cons r rs)
  obtain ts ident where r: "r = (ts, ident)" by (cases r)
  have "drop (length pre + 8) (pre @ put64 ts @ put32 ident @ concat (map put_rec rs)) = put32 ident @ concat (map put_rec rs)"
    by simp
  moreover have "read_all (pre @ put_rec r @ concat (map put_rec rs)) (length pre + 12) = rs"
    using Cons.IH[of "pre @ put_rec r"] by simp
  ultimately show ?case
    by (subst read_all.simps) (simp add: readSingle_def MSCAP_SIZE_def r put_rec_def)
qed

text \<open>The record of a packet, if it is logged.\<close>

definition log_record :: "u64 \<Rightarrow> bool \<Rightarrow> u32 \<Rightarrow> mbuf \<Rightarrow> (u64 \<times> u32) list" where
  "log_record tmst embedded off p =
     (if stamped tmst embedded p \<and> off < pkt_len p
      then [(if embedded then ts_field p
             else of_nat ((le_value (take 4 (drop (unat (pkt_len p) - 4) (pkt_data p))) * 1000000000 +
                           le_value (take 4 (drop (unat (pkt_len p) - 8) (pkt_data p)))) mod 2 ^ 32),
             get32 (drop (unat off) (pkt_data p)))]
      else [])"

text \<open>The buffer holds the packet, with its trailer if there is one, and the identifier.\<close>

definition pkt_ok :: "bool \<Rightarrow> u32 \<Rightarrow> mbuf \<Rightarrow> bool" where
  "pkt_ok embedded off p \<longleftrightarrow> unat (pkt_len p) \<le> length (pkt_data p) \<and> (off < pkt_len p \<longrightarrow> unat off + 4 \<le> length (pkt_data p)) \<and>
     (embedded \<or> 8 \<le> unat (pkt_len p))"

lemma mem32_nat: "n + 4 \<le> length bs \<Longrightarrow> mem32 bs (int n) = Inr (get32 (drop n bs))"
  by (simp add: mem32_def)

lemma trailer_eq:
  assumes "pkt_ok False off p"
  shows "trailer p = Inr (get32 (drop (unat (pkt_len p) - 8) (pkt_data p)), get32 (drop (unat (pkt_len p) - 4) (pkt_data p)))"
proof -
  have "8 \<le> unat (pkt_len p)" "unat (pkt_len p) \<le> length (pkt_data p)" using assms by (auto simp: pkt_ok_def)
  then have "mem32 (pkt_data p) (int (unat (pkt_len p) - 8)) = Inr (get32 (drop (unat (pkt_len p) - 8) (pkt_data p)))"
    "mem32 (pkt_data p) (int (unat (pkt_len p) - 4)) = Inr (get32 (drop (unat (pkt_len p) - 4) (pkt_data p)))"
    by - (rule mem32_nat, linarith)+
  moreover have "uint (pkt_len p) - 8 = int (unat (pkt_len p) - 8)" "int (unat (pkt_len p) - 8) + 4 = int (unat (pkt_len p) - 4)"
    using \<open>8 \<le> _\<close> by (simp_all add: of_nat_diff)
  ultimately show ?thesis by (simp only: trailer_def rbind.simps)
qed

lemma log_pkt_eq:
  assumes "pkt_ok embedded off p"
  shows "\<exists>evs. log_pkt tmst embedded off p = Inr (evs, ()) \<and> file_of evs = concat (map put_rec (log_record tmst embedded off p)) \<and>
    released_of evs = [p]"
proof -
  define ts where "ts = (if embedded then ts_field p else of_nat ((le_value (take 4 (drop (unat (pkt_len p) - 4) (pkt_data p))) * 1000000000 +
                           le_value (take 4 (drop (unat (pkt_len p) - 8) (pkt_data p)))) mod 2 ^ 32))"
  have stamp: "log_stamp embedded p = Inr ts"
  proof (cases embedded)
    case False
    then have "pkt_ok False off p" using assms by simp
    note trailer_eq[OF this]
    moreover have "ucast (of_nat a * 1000000000 + of_nat b :: u32) = (of_nat ((a * 1000000000 + b) mod 2 ^ 32) :: u64)" for a b
    proof -
      have "(of_nat a * 1000000000 + of_nat b :: u32) = of_nat (a * 1000000000 + b)" by simp
      then have "unat (of_nat a * 1000000000 + of_nat b :: u32) = (a * 1000000000 + b) mod 2 ^ 32"
        by (simp only: unat_of_nat) (simp add: take_bit_eq_mod)
      then show ?thesis by (metis of_nat_unat)
    qed
    ultimately show ?thesis using False by (simp add: log_stamp_def ts_def get32_def)
  qed (simp add: log_stamp_def ts_def)
  have "mem32 (pkt_data p) (uint off) = Inr (get32 (drop (unat off) (pkt_data p)))" if "off < pkt_len p"
    using that assms mem32_nat[of "unat off" "pkt_data p"] by (simp add: pkt_ok_def)
  then show ?thesis
    by (auto simp: log_pkt_def stamp log_record_def ts_def[symmetric] put_rec_def)
qed

lemma log_burst:
  assumes "\<forall>p\<in>set ps. pkt_ok embedded off p"
  shows "\<exists>evs. run_loop (\<lambda>_ p. log_pkt tmst embedded off p) () ps = Inr (evs, ()) \<and>
    file_of evs = concat (map put_rec (concat (map (log_record tmst embedded off) ps))) \<and> released_of evs = ps"
  using assms
proof (induction ps)
  case (Cons p ps)
  then obtain e1 e2 where "log_pkt tmst embedded off p = Inr (e1, ())"
      "file_of e1 = concat (map put_rec (log_record tmst embedded off p))" "released_of e1 = [p]"
      "run_loop (\<lambda>_ p. log_pkt tmst embedded off p) () ps = Inr (e2, ())"
      "file_of e2 = concat (map put_rec (concat (map (log_record tmst embedded off) ps)))" "released_of e2 = ps"
    using log_pkt_eq[of embedded off p tmst] by auto
  then show ?case by (simp add: run_loop.simps)
qed simp



text \<open>The time at the end of a packet is put together in 32 bits: from five seconds on what is
  logged is not the time but less than 4.3 seconds.\<close>

theorem ms_log_trailer_wraps:
  assumes "pkt_ok False off p" "trailer p = Inr (low, high)" "5 \<le> high"
  shows "\<exists>ts. log_stamp False p = Inr ts \<and> unat ts < 2 ^ 32 \<and> unat ts \<noteq> unat high * 1000000000 + unat low"
proof -
  define w where "w = high * 1000000000 + low"
  have "unat (ucast w :: u64) < 2 ^ 32" using unat_u32_less[of w] by simp
  moreover have "2 ^ 32 \<le> unat high * 1000000000 + unat low" using assms(3) by (simp add: word_le_nat_alt)
  ultimately show ?thesis using assms(2) by (auto simp: log_stamp_def w_def[symmetric])
qed

definition ex_trail :: mbuf where
  "ex_trail = (ex_pkt 0)\<lparr>pkt_data := replicate 52 0 @ put32 7 @ put32 5\<rparr>"

lemma ex_trail_ok: "pkt_ok False 10 ex_trail"
  by (simp add: pkt_ok_def ex_trail_def ex_pkt_def)

lemma ex_trailer: "trailer ex_trail = Inr (7, 5)"
  using trailer_eq[OF ex_trail_ok] get32_put32[of 5 "[]"] by (simp add: ex_trail_def ex_pkt_def)

theorem ms_log_trailer_wraps_witness:
  "\<exists>ts. log_stamp False ex_trail = Inr ts \<and> unat ts < 2 ^ 32 \<and> unat ts \<noteq> 5000000007"
  using ms_log_trailer_wraps[OF ex_trail_ok ex_trailer] by simp

end
