(* ===== verification/Welford.thy ===== *)
theory Welford
  imports Float64
begin

text \<open>
  The running mean and sum of squared deviations, which \<open>Histogram::update\<close>
  (\<open>src/histogram.cpp\<close>) and \<open>test_for\<close> (\<open>src/moonsniff.cpp\<close>) compute with the same five
  lines. In exact arithmetic the algorithm is standard; the lemmas here are about the
  doubles the code uses: rounding never takes the mean out of the range of the samples and
  never makes the sum of squares negative, on every input, whatever the rounding errors.
\<close>

definition d_of_int :: "int \<Rightarrow> double" where
  "d_of_int i = mkd (of_int i)"

record moments =
  m_count :: u64
  m_mean :: double
  m_m2 :: double

definition moments0 :: moments where
  "moments0 = \<lparr>m_count = 0, m_mean = Fin 0, m_m2 = Fin 0\<rparr>"

definition welford :: "int \<Rightarrow> moments \<Rightarrow> moments" where
  "welford new_val m =
     (let count = m_count m + 1;
          delta = d_of_int new_val - m_mean m;
          mean = m_mean m + delta / d_of_u64 count;
          delta2 = d_of_int new_val - mean
      in \<lparr>m_count = count, m_mean = mean, m_m2 = m_m2 m + delta * delta2\<rparr>)"

definition sample_variance :: "moments \<Rightarrow> double" where
  "sample_variance m = m_m2 m / d_of_u64 (m_count m - 1)"

section \<open>One step of the mean\<close>

lemma rnd_multiple: "\<exists>i. rnd x = of_int i * 2 powi (-1074)"
proof -
  obtain m k where m: "rnd x = of_int m * 2 powi k" "-1074 \<le> k" using rnd_on_grid[of x] by blast
  have "rnd x = of_int (m * 2 ^ nat (k - -1074)) * 2 powi (-1074)"
    unfolding m(1) pow2_split[OF m(2)] by (simp only: of_int_mult mult.assoc)
  then show ?thesis by blast
qed

text \<open>A difference of doubles below the normal range is exact.\<close>

lemma rnd_diff_tiny:
  assumes "rnd x = x" "rnd y = y" "0 \<le> y - x" "y - x < 2 powi (-1021)"
  shows "rnd (y - x) = y - x"
proof -
  obtain i j where "x = of_int i * 2 powi (-1074)" "y = of_int j * 2 powi (-1074)"
    using rnd_multiple[of x] rnd_multiple[of y] assms(1,2) by auto
  then have d: "y - x = of_int (j - i) * 2 powi (-1074)" by (simp add: left_diff_distrib)
  have "of_int (j - i) * (2::rat) powi (-1074) < 2 ^ 53 * 2 powi (-1074)"
    using assms(4) d pow2_split[of "-1074" "-1021"] by simp
  then have "(of_int (j - i) :: rat) < of_int (2 ^ 53)" by simp
  then have "j - i < 2 ^ 53" by (simp only: of_int_less_iff)
  moreover have "0 \<le> j - i" using assms(3) unfolding d by (simp add: zero_le_mult_iff)
  ultimately show ?thesis unfolding d by (intro rnd_grid) auto
qed

lemma rnd_upper: assumes "2 powi (-1022) \<le> x" shows "rnd x \<le> x + x / 4"
proof -
  have "0 \<le> x" using less_imp_le[OF pow2_pos] assms by (rule order.trans)
  then have "\<bar>x\<bar> = x" by (rule abs_of_nonneg)
  then have "\<bar>rnd x - x\<bar> \<le> x / 2 ^ 53" using rnd_rel_error[of x] assms by metis
  also have "x / 2 ^ 53 \<le> x / 4" using \<open>0 \<le> x\<close> by (intro divide_left_mono) simp_all
  finally show ?thesis by linarith
qed

text \<open>Moving up by a fraction of the rounded distance does not overshoot.\<close>

lemma mean_step_up:
  assumes "rnd x = x" "rnd v = v" "x \<le> v" "2 \<le> n"
  defines "x' \<equiv> rnd (x + rnd (rnd (v - x) / n))"
  shows "x \<le> x'" "x' \<le> v"
proof -
  let ?a = "v - x" and ?d = "rnd (v - x)"
  have d0: "0 \<le> ?d" using assms(3) by (intro b64.fl_ge0) simp
  then have q0: "0 \<le> rnd (?d / n)" using assms(4) by (intro b64.fl_ge0) simp
  show "x \<le> x'" unfolding x'_def using assms(1) q0 by (rule b64.fl_add_ge)
  have half: "?d / n \<le> ?d / 2" using d0 assms(4) by (intro divide_left_mono) auto
  have "rnd (?d / n) \<le> ?a"
  proof (cases "?d \<le> ?a")
    case True
    have "?d / n \<le> ?d" using half d0 by linarith
    then have "rnd (?d / n) \<le> ?d" by (intro b64.fl_le_rep) simp_all
    then show ?thesis using True by linarith
  next
    case False
    then have big: "2 powi (-1021) \<le> ?a" using rnd_diff_tiny[OF assms(1,2)] assms(3) by fastforce
    have two: "2 powi (-1021) = 2 * (2::rat) powi (-1022)" using power_int_add_1'[of "2::rat" "-1022"] by simp
    have "2 powi (-1022) \<le> ?a" using big two pow2_pos[of "-1022"] by linarith
    then have e1: "?d \<le> ?a + ?a / 4" by (rule rnd_upper)
    have "2 powi (-1022) \<le> ?d / 2" using big two False by linarith
    then have e2: "rnd (?d / 2) \<le> ?d / 2 + ?d / 2 / 4" by (rule rnd_upper)
    have "rnd (?d / n) \<le> rnd (?d / 2)" using half by (rule rnd_mono)
    moreover have "q \<le> r \<Longrightarrow> d \<le> a + a / 4 \<Longrightarrow> r \<le> d / 2 + d / 2 / 4 \<Longrightarrow> 0 \<le> a \<Longrightarrow> q \<le> a" for q r d a :: rat
      by simp
    ultimately show ?thesis using e1 e2 assms(3) by (meson diff_ge_0_iff_ge)
  qed
  then have "x + rnd (?d / n) \<le> v" by linarith
  then show "x' \<le> v" unfolding x'_def using assms(2) by (intro b64.fl_le_rep)
qed

lemma mean_step_down:
  assumes "rnd x = x" "rnd v = v" "v \<le> x" "2 \<le> n"
  defines "x' \<equiv> rnd (x + rnd (rnd (v - x) / n))"
  shows "v \<le> x'" "x' \<le> x"
proof -
  have "x' = - rnd (- x + rnd (rnd (- v - - x) / n))"
    unfolding x'_def using rnd_minus[of "v - x"] rnd_minus[of "rnd (v - x) / n"]
      rnd_minus[of "x + rnd (rnd (v - x) / n)"] by (simp add: algebra_simps)
  then show "v \<le> x'" "x' \<le> x"
    using mean_step_up[of "- x" "- v" n] assms(1-4) by simp_all
qed

section \<open>Invariant\<close>

fun dnonneg :: "double \<Rightarrow> bool" where
  "dnonneg (Fin x) = (0 \<le> x)"
| "dnonneg PInf = True"
| "dnonneg _ = False"

lemma dnonneg_mkd: "0 \<le> x \<Longrightarrow> dnonneg (mkd x)"
  using rnd_nonneg[of x] by (auto simp: mkd_def Let_def dinf_def)

lemma dnonneg_add: "dnonneg a \<Longrightarrow> 0 \<le> y \<Longrightarrow> dnonneg (a + Fin y)"
  by (cases a) (auto simp: plus_double.simps dnonneg_mkd)

lemma dnonneg_div: "dnonneg a \<Longrightarrow> 0 < y \<Longrightarrow> dnonneg (a / Fin y)"
  by (cases a) (auto simp: divide_double.simps dnonneg_mkd dinf_def)

text \<open>After \<open>n\<close> samples in the range of \<open>lo\<close> and \<open>hi\<close>.\<close>

definition moments_ok :: "rat \<Rightarrow> rat \<Rightarrow> nat \<Rightarrow> moments \<Rightarrow> bool" where
  "moments_ok lo hi n m \<longleftrightarrow> unat (m_count m) = n \<and> dnonneg (m_m2 m) \<and>
     (\<exists>x. m_mean m = Fin x \<and> rnd x = x \<and> (if n = 0 then x = 0 else lo \<le> x \<and> x \<le> hi))"

lemma d_of_int_fin: "\<bar>v\<bar> \<le> 2 ^ 63 \<Longrightarrow> d_of_int v = Fin (rnd (of_int v))"
proof -
  assume "\<bar>v\<bar> \<le> 2 ^ 63"
  then have "(of_int \<bar>v\<bar> :: rat) \<le> of_int (2 ^ 63)" by (simp only: of_int_le_iff)
  then have "\<bar>of_int v :: rat\<bar> \<le> 2 ^ 63" by simp
  also have "\<dots> \<le> 2 ^ 1000" by simp
  finally show ?thesis unfolding d_of_int_def by (rule mkd_fin)
qed

lemma rnd_of_int_bound: "\<bar>v\<bar> \<le> 2 ^ 63 \<Longrightarrow> \<bar>rnd (of_int v)\<bar> \<le> 2 ^ 63"
proof -
  assume "\<bar>v\<bar> \<le> 2 ^ 63"
  then have "(of_int \<bar>v\<bar> :: rat) \<le> of_int (2 ^ 63)" by (simp only: of_int_le_iff)
  then show ?thesis by (intro rnd_abs_le) simp
qed

text \<open>The divisor: exactly 1 for the first sample, at least 2 from the second on.\<close>

lemma d_of_count:
  assumes "unat c = n" "Suc n < 2 ^ 64"
  shows "\<exists>D. d_of_u64 (c + 1) = Fin D \<and> (n = 0 \<longrightarrow> D = 1) \<and> (0 < n \<longrightarrow> 2 \<le> D) \<and> D \<le> 2 ^ 64"
proof -
  have c: "unat (c + 1) = Suc n" using assms by (subst unat_add_no_wrap) simp_all
  have "2 \<le> rnd (rval (c + 1))" if "0 < n"
  proof (rule b64.fl_ge_rep)
    have "of_nat 2 \<le> (of_nat (Suc n) :: rat)" using that by (simp only: of_nat_le_iff)
    then show "2 \<le> rval (c + 1)" unfolding rval_def c by simp
  qed (use rnd_nat_pow2[of 1] in simp)
  moreover have "rnd (rval (c + 1)) = 1" if "n = 0" using that c by (simp add: rval_def)
  ultimately show ?thesis using rval_rnd_le_u64[of "c + 1"] by (simp add: d_of_u64_fin)
qed

text \<open>The mean moves towards the sample and stops at it.\<close>

lemma mean_step_between:
  assumes "rnd x = x" "rnd v = v" "if n = 0 then x = 0 \<and> D = 1 else 2 \<le> D"
  defines "x' \<equiv> rnd (x + rnd (rnd (v - x) / D))"
  shows "if n = (0::nat) then x' = v else x \<le> x' \<and> x' \<le> v \<or> v \<le> x' \<and> x' \<le> x"
proof (cases "n = 0")
  case True
  then show ?thesis using assms(2,3) by (simp add: x'_def)
next
  case False
  then have "2 \<le> D" using assms(3) by simp
  then have "x \<le> x' \<and> x' \<le> v \<or> v \<le> x' \<and> x' \<le> x"
    using mean_step_up[OF assms(1,2)] mean_step_down[OF assms(1,2)] unfolding x'_def by (meson linear)
  then show ?thesis using False by simp
qed

lemma welford_ok:
  assumes m: "moments_ok lo hi n m" and n: "Suc n < 2 ^ 64"
    and v: "\<bar>v\<bar> \<le> 2 ^ 63" "lo \<le> rnd (of_int v)" "rnd (of_int v) \<le> hi" and b: "- (2 ^ 63) \<le> lo" "hi \<le> 2 ^ 63"
  shows "moments_ok lo hi (Suc n) (welford v m)"
proof -
  define V where "V = rnd (of_int v)"
  have V: "d_of_int v = Fin V" "rnd V = V" "lo \<le> V" "V \<le> hi"
    using v d_of_int_fin by (simp_all add: V_def)
  obtain x where x: "m_mean m = Fin x" "rnd x = x" "if n = 0 then x = 0 else lo \<le> x \<and> x \<le> hi"
    and m2: "dnonneg (m_m2 m)" and cnt: "unat (m_count m) = n" using m by (auto simp: moments_ok_def)
  obtain D where D: "d_of_u64 (m_count m + 1) = Fin D" "n = 0 \<longrightarrow> D = 1" "0 < n \<longrightarrow> 2 \<le> D" "D \<le> 2 ^ 64"
    using d_of_count[OF cnt n] by blast
  define d where "d = rnd (V - x)"
  define x' where "x' = rnd (x + rnd (d / D))"
  define d2 where "d2 = rnd (V - x')"
  have VX: "\<bar>V\<bar> \<le> 2 ^ 63" "\<bar>x\<bar> \<le> 2 ^ 63" using V(3,4) x(3) b by (auto simp: abs_le_iff split: if_splits)
  have btw: "if n = 0 then x' = V else x \<le> x' \<and> x' \<le> V \<or> V \<le> x' \<and> x' \<le> x"
    unfolding x'_def d_def by (rule mean_step_between[OF x(2) V(2)]) (use D(2,3) x(3) in \<open>auto split: if_splits\<close>)
  have D1: "1 \<le> D" using D(2,3) by (cases "n = 0") auto
  have d: "d_of_int v - m_mean m = Fin d" "\<bar>d\<bar> \<le> 2 ^ 64"
  proof -
    show "d_of_int v - m_mean m = Fin d" unfolding V(1) x(1) d_def using VX by (intro fin_small(2)) auto
    show "\<bar>d\<bar> \<le> 2 ^ 64" unfolding d_def using VX by (intro rnd_abs_le) auto
  qed
  have dD: "\<bar>d / D\<bar> \<le> 2 ^ 64"
  proof -
    have "\<bar>d / D\<bar> \<le> \<bar>d\<bar> / 1" unfolding abs_divide using D1 by (intro frac_le) auto
    then show ?thesis using d(2) by simp
  qed
  have q: "Fin d / Fin D = Fin (rnd (d / D))"
    using D1 dD by (intro fin_arith(4)) (auto intro: order.trans)
  have x': "Fin x + Fin (rnd (d / D)) = Fin x'" unfolding x'_def
    using VX(2) rnd_abs_le[OF dD] by (intro fin_small(1)) (auto intro: order.trans)
  have x'b: "x' = V \<or> lo \<le> x' \<and> x' \<le> hi" using btw V(3,4) x(3) by (auto split: if_splits)
  then have X': "\<bar>x'\<bar> \<le> 2 ^ 63" using VX b by (auto simp: abs_le_iff)
  have d2: "d_of_int v - Fin x' = Fin d2" "\<bar>d2\<bar> \<le> 2 ^ 64"
  proof -
    show "d_of_int v - Fin x' = Fin d2" unfolding V(1) d2_def using VX X' by (intro fin_small(2)) auto
    show "\<bar>d2\<bar> \<le> 2 ^ 64" unfolding d2_def using VX X' by (intro rnd_abs_le) auto
  qed
  have "0 \<le> d * d2"
  proof -
    consider "x' = V" | "x \<le> V" "x' \<le> V" | "V \<le> x" "V \<le> x'" using btw by (auto split: if_splits)
    then show ?thesis
    proof cases
      case 2
      then have "0 \<le> d" "0 \<le> d2" by (simp_all add: d_def d2_def b64.fl_ge0)
      then show ?thesis by (rule mult_nonneg_nonneg)
    next
      case 3
      then have "d \<le> 0" "d2 \<le> 0" by (simp_all add: d_def d2_def b64.fl_le0)
      then show ?thesis by (rule mult_nonpos_nonpos)
    qed (simp add: d2_def)
  qed
  then have "dnonneg (m_m2 m + Fin d * Fin d2)"
    using m2 fin_small(3)[of d d2] d(2) d2(2) by (auto intro!: dnonneg_add rnd_nonneg)
  moreover have "lo \<le> x' \<and> x' \<le> hi" using x'b V(3,4) by auto
  moreover have "unat (m_count m + 1) = Suc n" using cnt n by (subst unat_add_no_wrap) simp_all
  moreover have "rnd x' = x'" by (simp add: x'_def)
  ultimately show ?thesis
    by (simp add: moments_ok_def welford_def Let_def d(1)[unfolded x(1)] D(1) q x(1) x' d2(1))
qed

section \<open>A sequence of samples\<close>

definition sample_ok :: "int \<Rightarrow> int \<Rightarrow> int \<Rightarrow> bool" where
  "sample_ok lo hi v \<longleftrightarrow> lo \<le> v \<and> v \<le> hi"

lemma welford_fold:
  assumes "\<forall>v\<in>set vs. sample_ok lo hi v" "- (2 ^ 63) \<le> lo" "hi \<le> 2 ^ 63" "n + length vs < 2 ^ 64"
    and "moments_ok (rnd (of_int lo)) (rnd (of_int hi)) n m"
  shows "moments_ok (rnd (of_int lo)) (rnd (of_int hi)) (n + length vs) (fold welford vs m)"
  using assms
proof (induction vs arbitrary: n m)
  case (Cons v vs)
  have v: "lo \<le> v" "v \<le> hi" using Cons.prems(1) by (auto simp: sample_ok_def)
  then have a: "\<bar>v\<bar> \<le> 2 ^ 63" "\<bar>lo\<bar> \<le> 2 ^ 63" "\<bar>hi\<bar> \<le> 2 ^ 63" using Cons.prems(2,3) by auto
  have "moments_ok (rnd (of_int lo)) (rnd (of_int hi)) (Suc n) (welford v m)"
  proof (rule welford_ok[OF Cons.prems(5) _ a(1)])
    show "Suc n < 2 ^ 64" using Cons.prems(4) by simp
    show "rnd (of_int lo) \<le> rnd (of_int v)" "rnd (of_int v) \<le> rnd (of_int hi)"
      using v by (auto intro: rnd_mono)
    show "- (2 ^ 63) \<le> rnd (of_int lo)" "rnd (of_int hi) \<le> 2 ^ 63"
      using rnd_of_int_bound[OF a(2)] rnd_of_int_bound[OF a(3)] by (simp_all add: abs_le_iff)
  qed
  from Cons.IH[OF _ Cons.prems(2,3) _ this] Cons.prems(1,4) show ?case by simp
qed simp

lemma moments0_ok: "moments_ok lo hi 0 moments0"
  by (simp add: moments_ok_def moments0_def)

lemma sample_variance_nonneg:
  assumes "moments_ok lo hi n m" "2 \<le> n"
  shows "dnonneg (sample_variance m)"
proof -
  have c: "unat (m_count m) = n" and m2: "dnonneg (m_m2 m)" using assms(1) by (auto simp: moments_ok_def)
  have "unat (m_count m - 1) = n - 1" using c assms(2) by (subst unat_sub) (auto simp: word_le_nat_alt)
  then have "0 < m_count m - 1" using assms(2) by (simp add: word_less_nat_alt)
  then have "1 \<le> rnd (rval (m_count m - 1))" using rval_ge1 by (intro b64.fl_ge_rep) auto
  then show ?thesis
    unfolding sample_variance_def d_of_u64_fin by (intro dnonneg_div[OF m2]) simp
qed

end
