(* ===== verification/Decimal.thy ===== *)
theory Decimal
  imports Prelude
begin

text \<open>
  Numbers in text, as the stream operators of C++ and the formats of \<open>snprintf\<close> print them, numbers
  joined by dots as in an object identifier, and the readers that undo both.
\<close>

fun dec_nat :: "nat \<Rightarrow> string" where
  "dec_nat n = (if n < 10 then [char_of (48 + n)] else dec_nat (n div 10) @ [char_of (48 + n mod 10)])"

declare dec_nat.simps [simp del]

definition dec_int :: "int \<Rightarrow> string" where
  "dec_int i = (if i < 0 then ''-'' @ dec_nat (nat (- i)) else dec_nat (nat i))"

text \<open>\<open>snprintf\<close> stores at most \<open>n - 1\<close> characters before the terminating zero.\<close>

definition snprintf :: "nat \<Rightarrow> string \<Rightarrow> string" where
  "snprintf n s = take (n - 1) s"

section \<open>Reading numbers\<close>

definition dec_value :: "string \<Rightarrow> nat" where
  "dec_value s = foldl (\<lambda>a c. 10 * a + (of_char c - 48)) 0 s"

lemma digit_value: "n < 10 \<Longrightarrow> of_char (char_of (48 + n) :: char) = (48 + n :: nat)"
  by simp

lemma dec_value_nat: "dec_value (dec_nat n) = n"
proof (induction n rule: dec_nat.induct)
  case (1 n)
  have d: "of_char (char_of (48 + n mod 10) :: char) = (48 + n mod 10 :: nat)" by (rule digit_value) simp
  show ?case
  proof (cases "n < 10")
    case True
    then show ?thesis by (simp add: dec_nat.simps[of n] dec_value_def digit_value)
  next
    case False
    then have "dec_value (dec_nat (n div 10)) = n div 10" using 1 by simp
    then show ?thesis using False d by (simp add: dec_nat.simps[of n] dec_value_def)
  qed
qed

lemma dec_nat_no_dot: "CHR 0x2E \<notin> set (dec_nat n)"
proof (induction n rule: dec_nat.induct)
  case (1 n)
  have nodot: "CHR 0x2E \<noteq> char_of (48 + k)" if "k < 10" for k :: nat
  proof
    assume "CHR 0x2E = (char_of (48 + k) :: char)"
    then have "(of_char (char_of (48 + k) :: char) :: nat) = of_char (CHR 0x2E)" by simp
    then show False using that by (simp add: digit_value)
  qed
  show ?case using 1 nodot[of n] nodot[of "n mod 10"] by (subst dec_nat.simps) auto
qed

lemma dec_nat_length: "n < 256 \<Longrightarrow> length (dec_nat n) \<le> 3"
  by (simp add: dec_nat.simps[of n] dec_nat.simps[of "n div 10"] dec_nat.simps[of "n div 10 div 10"])

section \<open>Numbers joined by dots\<close>

fun oid_join :: "nat list \<Rightarrow> string" where
  "oid_join [] = []"
| "oid_join [n] = dec_nat n"
| "oid_join (n # ns) = dec_nat n @ CHR 0x2E # oid_join ns"

fun split_dots :: "string \<Rightarrow> string list" where
  "split_dots [] = [[]]"
| "split_dots (c # s) =
     (if c = CHR 0x2E then [] # split_dots s
      else case split_dots s of [] \<Rightarrow> [[c]] | w # ws \<Rightarrow> (c # w) # ws)"

definition oid_parse :: "string \<Rightarrow> nat list" where
  "oid_parse s = map dec_value (split_dots s)"

lemma split_dots_word: "CHR 0x2E \<notin> set w \<Longrightarrow> split_dots (w @ CHR 0x2E # s) = w # split_dots s"
  by (induction w) auto

lemma split_dots_last: "CHR 0x2E \<notin> set w \<Longrightarrow> split_dots w = [w]"
  by (induction w) auto

lemma oid_parse_join: "ns \<noteq> [] \<Longrightarrow> oid_parse (oid_join ns) = ns"
  by (induction ns rule: oid_join.induct)
    (simp_all add: oid_parse_def split_dots_word split_dots_last dec_nat_no_dot dec_value_nat)

lemma oid_join_length: "\<forall>n\<in>set ns. n < 256 \<Longrightarrow> ns \<noteq> [] \<Longrightarrow> Suc (length (oid_join ns)) \<le> 4 * length ns"
proof (induction ns rule: oid_join.induct)
  case (3 n m ns)
  then show ?case using dec_nat_length[of n] by simp
next
  case (2 n)
  then show ?case using dec_nat_length[of n] by simp
qed simp

end
