(* ===== verification/Hist.thy ===== *)
theory Hist
  imports Welford Decimal "HOL-Library.Signed_Division"
begin

text \<open>
  The latency histogram (\<open>src/histogram.cpp\<close>): running mean and variance, and counters per
  bucket in a \<open>std::map\<close>. The map is a list of key and counter sorted by the key, which is the
  order \<open>write_to_file\<close> walks it in. Signed 64-bit integers are \<open>int\<close> with the overflow of an
  addition or subtraction as \<open>SignedOverflow\<close>.

  The locale \<open>counters\<close> is the contract of the map: what a lookup returns after an increment.
\<close>

section \<open>Counters\<close>

type_synonym storage = "(int \<times> u32) list"

fun storage_incr :: "int \<Rightarrow> storage \<Rightarrow> storage" where
  "storage_incr k [] = [(k, 1)]"
| "storage_incr k ((k', n) # al) =
     (if k < k' then (k, 1) # (k', n) # al
      else if k = k' then (k, n + 1) # al
      else (k', n) # storage_incr k al)"

definition storage_get :: "storage \<Rightarrow> int \<Rightarrow> u32" where
  "storage_get al k = (case map_of al k of None \<Rightarrow> 0 | Some n \<Rightarrow> n)"

locale counters =
  fixes empty :: 'm and incr :: "'k \<Rightarrow> 'm \<Rightarrow> 'm" and get :: "'m \<Rightarrow> 'k \<Rightarrow> u32" and inv :: "'m \<Rightarrow> bool"
  assumes get_empty: "get empty k = 0"
    and get_incr: "inv m \<Longrightarrow> get (incr k m) k' = (if k' = k then get m k' + 1 else get m k')"
    and inv_empty: "inv empty"
    and inv_incr: "inv m \<Longrightarrow> inv (incr k m)"
begin

lemma fold_inv: "inv m \<Longrightarrow> inv (fold incr ks m)"
  by (induction ks arbitrary: m) (auto intro: inv_incr)

lemma fold_get: "inv m \<Longrightarrow> get (fold incr ks m) k = get m k + of_nat (count_list ks k)"
proof (induction ks arbitrary: m)
  case (Cons x ks)
  then show ?case using Cons.IH[OF inv_incr[OF Cons.prems], of x] by (simp add: get_incr)
qed simp

lemma count_all: "get (fold incr ks empty) k = of_nat (count_list ks k)"
  by (simp add: fold_get inv_empty get_empty)

end

definition storage_ok :: "storage \<Rightarrow> bool" where
  "storage_ok al \<longleftrightarrow> sorted_wrt (<) (map fst al)"

lemma keys_incr: "set (map fst (storage_incr k al)) = insert k (set (map fst al))"
  by (induction k al rule: storage_incr.induct) auto

lemma storage_ok_incr: "storage_ok al \<Longrightarrow> storage_ok (storage_incr k al)"
proof (induction k al rule: storage_incr.induct)
  case (2 k k' n al)
  have "fst ` set (storage_incr k al) = insert k (fst ` set al)" using keys_incr[of k al] by simp
  then show ?case using 2 by (auto simp: storage_ok_def)
qed (simp add: storage_ok_def)

lemma map_of_less: "\<forall>x\<in>set al. (k :: int) < fst x \<Longrightarrow> map_of al k = None"
  by (induction al) auto

lemma storage_get_incr:
  "storage_ok al \<Longrightarrow> storage_get (storage_incr k al) k' = (if k' = k then storage_get al k' + 1 else storage_get al k')"
proof (induction k al rule: storage_incr.induct)
  case (2 k k1 n al)
  then have "\<forall>x\<in>set al. k1 < fst x" by (auto simp: storage_ok_def)
  then have "k < k1 \<Longrightarrow> map_of al k = None" by (intro map_of_less) auto
  then show ?case using 2 by (auto simp: storage_get_def storage_ok_def)
qed (simp add: storage_get_def)

interpretation st: counters "[]" storage_incr storage_get storage_ok
proof unfold_locales
  show "storage_get [] k = 0" "storage_ok []" for k by (simp_all add: storage_get_def storage_ok_def)
qed (rule storage_get_incr storage_ok_incr, assumption)+

section \<open>The class\<close>

record histogram =
  h_moments :: moments
  variance :: double
  bucket_size :: int
  bucket_half :: int
  storage :: storage

text \<open>The constructor ends the process on an invalid size, here \<open>None\<close>.\<close>

definition new_Histogram :: "u32 \<Rightarrow> histogram option" where
  "new_Histogram n =
     (if n \<le> 0 then None
      else let size' = uint n
           in Some \<lparr>h_moments = moments0, variance = Fin 0, bucket_size = size', bucket_half = size' sdiv 2, storage = []\<rparr>)"

definition s64 :: "int \<Rightarrow> int res" where
  "s64 x = (if - (2 ^ 63) \<le> x \<and> x < 2 ^ 63 then Inr x else Inl SignedOverflow)"

definition bucket_of :: "histogram \<Rightarrow> int \<Rightarrow> int res" where
  "bucket_of h new_val =
     rbind (if 0 < new_val then s64 (new_val + bucket_half h)
            else if new_val < 0 then s64 (new_val - bucket_half h) else Inr new_val)
       (\<lambda>v. s64 ((v sdiv bucket_size h) * bucket_size h))"

definition update :: "histogram \<Rightarrow> int \<Rightarrow> (bool \<times> histogram) res" where
  "update h new_val =
     (let ret = (if new_val < 0 then False else True);
          h1 = h\<lparr>h_moments := welford new_val (h_moments h)\<rparr>
      in rbind (bucket_of h1 new_val) (\<lambda>b. Inr (ret, h1\<lparr>storage := storage_incr b (storage h1)\<rparr>)))"

definition finalize :: "histogram \<Rightarrow> histogram" where
  "finalize h = (if m_count (h_moments h) < 2 then h else h\<lparr>variance := sample_variance (h_moments h)\<rparr>)"

text \<open>The lines of the file; \<open>opened\<close> says whether the file could be opened, and the process ends
  when it could not.\<close>

definition write_line :: "int \<times> u32 \<Rightarrow> string" where
  "write_line = (\<lambda>(k, n). dec_int k @ '','' @ dec_nat (unat n) @ [CHR 0x0A])"

definition write_to_file :: "histogram \<Rightarrow> bool \<Rightarrow> string option" where
  "write_to_file h opened = (if opened then Some (concat (map write_line (storage h))) else None)"

text \<open>The exported functions work on one global object; \<open>None\<close> is a null or deleted one.
  \<open>hs_initialize\<close> ends the process, here the outer \<open>None\<close>, when the constructor does.\<close>

definition hs_initialize :: "u32 \<Rightarrow> histogram option option" where
  "hs_initialize n = map_option Some (new_Histogram n)"

definition hs_destroy :: "histogram option \<Rightarrow> histogram option" where
  "hs_destroy hist = None"

definition hs_write :: "histogram option \<Rightarrow> bool \<Rightarrow> string option res" where
  "hs_write hist opened = (case hist of None \<Rightarrow> Inl NullDeref | Some h \<Rightarrow> Inr (write_to_file h opened))"

definition hs_update :: "histogram option \<Rightarrow> int \<Rightarrow> (bool \<times> histogram option) res" where
  "hs_update hist new_val = (case hist of None \<Rightarrow> Inl NullDeref
     | Some h \<Rightarrow> rbind (update h new_val) (\<lambda>(r, h'). Inr (r, Some h')))"

definition hs_finalize :: "histogram option \<Rightarrow> histogram option res" where
  "hs_finalize hist = (case hist of None \<Rightarrow> Inl NullDeref | Some h \<Rightarrow> Inr (Some (finalize h)))"

definition hs_getCount :: "histogram option \<Rightarrow> u64 res" where
  "hs_getCount hist = (case hist of None \<Rightarrow> Inl NullDeref | Some h \<Rightarrow> Inr (m_count (h_moments h)))"

definition hs_getMean :: "histogram option \<Rightarrow> double res" where
  "hs_getMean hist = (case hist of None \<Rightarrow> Inl NullDeref | Some h \<Rightarrow> Inr (m_mean (h_moments h)))"

definition hs_getVariance :: "histogram option \<Rightarrow> double res" where
  "hs_getVariance hist = (case hist of None \<Rightarrow> Inl NullDeref | Some h \<Rightarrow> Inr (variance h))"

section \<open>Buckets\<close>

definition hist_ok :: "histogram \<Rightarrow> bool" where
  "hist_ok h \<longleftrightarrow> 0 < bucket_size h \<and> bucket_size h < 2 ^ 32 \<and> bucket_half h = bucket_size h div 2 \<and> storage_ok (storage h)"

text \<open>The reference: bucket \<open>b\<close> holds the values nearest to it, ties away from zero.\<close>

definition nearest :: "int \<Rightarrow> int \<Rightarrow> int" where
  "nearest n v = (if 0 \<le> v then (v + n div 2) div n * n else - ((- v + n div 2) div n * n))"

lemma bucket_of_nearest:
  assumes "hist_ok h" "\<bar>v\<bar> < 2 ^ 63 - bucket_half h"
  shows "bucket_of h v = Inr (nearest (bucket_size h) v)"
proof -
  define n where "n = bucket_size h"
  have n: "0 < n" "bucket_half h = n div 2" using assms(1) by (simp_all add: hist_ok_def n_def)
  have fits: "0 \<le> x \<Longrightarrow> x < 2 ^ 63 \<Longrightarrow> 0 \<le> x div n * n \<and> x div n * n < 2 ^ 63" for x
  proof
    assume x: "0 \<le> x" "x < 2 ^ 63"
    show "0 \<le> x div n * n" using x n(1) by (simp add: pos_imp_zdiv_nonneg_iff)
    show "x div n * n < 2 ^ 63" using div_mult_mod_eq[of x n] pos_mod_sign[OF n(1), of x] x by linarith
  qed
  have half: "0 \<le> n div 2" using n(1) by simp
  consider "0 < v" | "v = 0" | "v < 0" by linarith
  then show ?thesis
  proof cases
    case 1
    then have "0 \<le> v + n div 2" "v + n div 2 < 2 ^ 63" using assms(2) n(2) half by auto
    then show ?thesis using 1 n(1) fits[of "v + n div 2"]
      by (simp add: bucket_of_def n_def[symmetric] n(2) s64_def nearest_def signed_divide_int_def sgn_if)
  next
    case 2
    then show ?thesis using n(1) by (simp add: bucket_of_def n_def[symmetric] s64_def nearest_def)
  next
    case 3
    then have "0 \<le> - v + n div 2" "- v + n div 2 < 2 ^ 63" using assms(2) n(2) half by auto
    then show ?thesis using 3 n(1) fits[of "- v + n div 2"] half
      by (auto simp: bucket_of_def n_def[symmetric] n(2) s64_def nearest_def signed_divide_int_def sgn_if)
  qed
qed

lemma nearest_iff:
  assumes "0 < n"
  shows "nearest n v = k * n \<longleftrightarrow>
    (if k = 0 then \<bar>v\<bar> < n - n div 2
     else if 0 < k then k * n - n div 2 \<le> v \<and> v < k * n - n div 2 + n
     else k * n + n div 2 - n < v \<and> v \<le> k * n + n div 2)"
proof -
  define h where "h = n div 2"
  have half: "0 \<le> h" "h < n" using assms by (auto simp: h_def)
  have eq: "x div n * n = k * n \<longleftrightarrow> k * n \<le> x \<and> x < k * n + n" for x k
  proof -
    have "x div n * n \<le> x" "x < x div n * n + n"
      using div_mult_mod_eq[of x n] pos_mod_sign[OF assms, of x] pos_mod_bound[OF assms, of x] by linarith+
    moreover have "x div n = k" if "k * n \<le> x" "x < k * n + n"
      using that by (intro int_div_pos_eq[of x n k "x - k * n"]) (auto simp: mult.commute)
    ultimately show ?thesis using assms by auto
  qed
  have sgn: "0 < k \<Longrightarrow> n \<le> k * n" "k < 0 \<Longrightarrow> k * n \<le> - n"
    using assms mult_right_mono[of 1 k n] mult_right_mono[of k "-1" n] by auto
  have neg: "- (x div n * n) = k * n \<longleftrightarrow> - (k * n) \<le> x \<and> x < - (k * n) + n" for x
    using eq[of x "- k"] by auto
  have ch: "nearest n v = k * n \<longleftrightarrow> (if 0 \<le> v then k * n \<le> v + h \<and> v + h < k * n + n
      else - (k * n) \<le> - v + h \<and> - v + h < - (k * n) + n)"
    unfolding nearest_def h_def[symmetric] using eq neg by simp
  define K where "K = k * n"
  have K: "k = 0 \<Longrightarrow> K = 0" "0 < k \<Longrightarrow> n \<le> K" "k < 0 \<Longrightarrow> K \<le> - n" unfolding K_def using sgn by auto
  show ?thesis
    unfolding h_def[symmetric] K_def[symmetric] ch[folded K_def] using half K
    by (cases k "0 :: int" rule: linorder_cases) auto
qed

lemma new_Histogram_ok:
  assumes "new_Histogram n = Some h"
  shows "hist_ok h" "bucket_size h = uint n" "0 < uint n" "h_moments h = moments0" "storage h = []"
proof -
  have n: "0 < n" and h: "h = \<lparr>h_moments = moments0, variance = Fin 0, bucket_size = uint n,
      bucket_half = uint n sdiv 2, storage = []\<rparr>"
    using assms by (auto simp: new_Histogram_def Let_def word_gt_0 split: if_splits)
  then show pos: "0 < uint n" by (simp add: word_less_def)
  have "uint n < 2 ^ 32" using unsigned_less[of n, where 'a = int] by simp
  then show "hist_ok h" "bucket_size h = uint n" "h_moments h = moments0" "storage h = []"
    using pos h by (auto simp: hist_ok_def storage_ok_def signed_divide_int_def)
qed

lemma card_zero_bucket:
  assumes "0 < (n :: int)"
  shows "card {v. \<bar>v\<bar> < n - n div 2} = nat (if even n then n - 1 else n)"
proof -
  have "{v. \<bar>v\<bar> < n - n div 2} = {- (n - n div 2) <..< n - n div 2}" by auto
  moreover have "2 * (n - n div 2) - 1 = (if even n then n - 1 else n)" by presburger
  ultimately show ?thesis by (simp del: minus_diff_eq add: algebra_simps)
qed

lemma update_nearest:
  assumes "hist_ok h" "\<bar>v\<bar> < 2 ^ 63 - 2 ^ 31"
  shows "update h v = Inr (0 \<le> v, h\<lparr>h_moments := welford v (h_moments h),
    storage := storage_incr (nearest (bucket_size h) v) (storage h)\<rparr>)"
proof -
  have "bucket_half h \<le> 2 ^ 31" using assms(1) by (auto simp: hist_ok_def)
  then have "bucket_of h v = Inr (nearest (bucket_size h) v)"
    using assms by (intro bucket_of_nearest) auto
  then show ?thesis by (auto simp: update_def bucket_of_def Let_def)
qed

text \<open>(C20) Values go to the nearest bucket. For every size and every value whose rounding does not
  overflow, \<open>update\<close> increments the counter of a multiple \<open>k * n\<close> of the size \<open>n\<close>, and that is the bucket of
  exactly the \<open>n\<close> values from \<open>k * n - n / 2\<close> on for positive \<open>k\<close>, the mirrored ones for negative \<open>k\<close>, and
  the values of less than \<open>n - n / 2\<close> in magnitude for zero: one value less than the others when
  the size is even, as the comment in the source says.\<close>

theorem histogram_bucket:
  assumes "new_Histogram n = Some h0" "hist_ok h" "bucket_size h = bucket_size h0" "\<bar>v\<bar> < 2 ^ 63 - 2 ^ 31"
  shows "\<exists>k h'. update h v = Inr (0 \<le> v, h') \<and> storage h' = storage_incr (k * uint n) (storage h) \<and>
    (if k = 0 then \<bar>v\<bar> < uint n - uint n div 2
     else if 0 < k then k * uint n - uint n div 2 \<le> v \<and> v < k * uint n - uint n div 2 + uint n
     else k * uint n + uint n div 2 - uint n < v \<and> v \<le> k * uint n + uint n div 2) \<and>
    card {v. \<bar>v\<bar> < uint n - uint n div 2} = nat (if even (uint n) then uint n - 1 else uint n)"
proof -
  note n = new_Histogram_ok[OF assms(1)]
  define k where "k = (if 0 \<le> v then (v + uint n div 2) div uint n else - ((- v + uint n div 2) div uint n))"
  have k: "nearest (uint n) v = k * uint n" by (simp add: nearest_def k_def)
  let ?h = "h\<lparr>h_moments := welford v (h_moments h), storage := storage_incr (k * uint n) (storage h)\<rparr>"
  have size: "bucket_size h = uint n" using assms(3) n(2) by simp
  have "update h v = Inr (0 \<le> v, ?h)"
    using update_nearest[OF assms(2,4)] unfolding size k .
  moreover have "storage ?h = storage_incr (k * uint n) (storage h)" by simp
  ultimately show ?thesis
    using iffD1[OF nearest_iff[OF n(3)] k] card_zero_bucket[OF n(3)] by blast
qed

theorem histogram_bucket_witness:
  "\<exists>k h'. update (the (new_Histogram 10)) 27 = Inr (0 \<le> (27 :: int), h') \<and>
     storage h' = storage_incr (k * 10) (storage (the (new_Histogram 10))) \<and>
     (if k = 0 then \<bar>27 :: int\<bar> < 5 else if 0 < k then k * 10 - 5 \<le> 27 \<and> 27 < k * 10 + 5 else k * 10 - 5 < 27 \<and> 27 \<le> k * 10 + 5)"
proof -
  have new: "new_Histogram 10 = Some (the (new_Histogram 10))" by (simp add: new_Histogram_def)
  then have "hist_ok (the (new_Histogram 10))" by (rule new_Histogram_ok)
  from histogram_bucket[OF new this refl, of 27] show ?thesis by (auto split: if_splits)
qed

section \<open>A sequence of values\<close>

fun updates :: "histogram \<Rightarrow> int list \<Rightarrow> histogram res" where
  "updates h [] = Inr h"
| "updates h (v # vs) = rbind (update h v) (\<lambda>(_, h'). updates h' vs)"

definition in_range :: "int \<Rightarrow> bool" where
  "in_range v \<longleftrightarrow> \<bar>v\<bar> < 2 ^ 63 - 2 ^ 31"

lemma updates_run:
  assumes "hist_ok h" "\<forall>v\<in>set vs. in_range v"
  shows "updates h vs = Inr (h\<lparr>h_moments := fold welford vs (h_moments h),
    storage := fold storage_incr (map (nearest (bucket_size h)) vs) (storage h)\<rparr>)"
  using assms
proof (induction vs arbitrary: h)
  case (Cons v vs)
  let ?h = "h\<lparr>h_moments := welford v (h_moments h), storage := storage_incr (nearest (bucket_size h) v) (storage h)\<rparr>"
  have "update h v = Inr (0 \<le> v, ?h)" using Cons.prems by (intro update_nearest) (auto simp: in_range_def)
  moreover have "hist_ok ?h" using Cons.prems(1) by (simp add: hist_ok_def st.inv_incr)
  ultimately show ?case using Cons.IH[of ?h] Cons.prems(2) by simp
qed simp

lemma keys_fold: "set (map fst (fold storage_incr ks al)) = set ks \<union> set (map fst al)"
  by (induction ks arbitrary: al) (auto simp: keys_incr[simplified])

lemma sum_counters:
  "storage_ok al \<Longrightarrow> sum_list (map (\<lambda>x. unat (snd x)) al) = (\<Sum>k\<in>set (map fst al). unat (storage_get al k))"
proof (induction al)
  case (Cons x al)
  have x: "fst x \<notin> fst ` set al" using Cons.prems by (auto simp: storage_ok_def)
  have "storage_get (x # al) k = storage_get al k" if "k \<in> fst ` set al" for k
  proof -
    have "k \<noteq> fst x" using that x by blast
    then show ?thesis by (simp add: storage_get_def)
  qed
  then show ?case using Cons x by (simp add: storage_ok_def storage_get_def)
qed simp

text \<open>(C21) The histogram counts every value once. For every sequence of values the updates succeed,
  and the file written has one line per bucket that a value fell into, in strictly ascending
  order, with the number of the values whose nearest bucket it is; if there are less than
  \<open>2\<^sup>3\<^sup>2\<close> values, the counters add up to their number.\<close>

theorem histogram_counts:
  assumes "new_Histogram n = Some h" "\<forall>v\<in>set vs. in_range v"
  shows "\<exists>h' lines. updates h vs = Inr h' \<and> write_to_file h' True = Some (concat (map write_line lines)) \<and>
    sorted_wrt (<) (map fst lines) \<and> set (map fst lines) = nearest (uint n) ` set vs \<and>
    (\<forall>b. storage_get lines b = of_nat (length (filter (\<lambda>v. nearest (uint n) v = b) vs))) \<and>
    (length vs < 2 ^ 32 \<longrightarrow> sum_list (map (\<lambda>x. unat (snd x)) lines) = length vs)"
proof -
  note h = new_Histogram_ok[OF assms(1)]
  define ks where "ks = map (nearest (uint n)) vs"
  define al where "al = fold storage_incr ks []"
  have ok: "storage_ok al" unfolding al_def by (rule st.fold_inv[OF st.inv_empty])
  have get: "storage_get al b = of_nat (count_list ks b)" for b unfolding al_def by (rule st.count_all)
  have keys: "set (map fst al) = set ks" unfolding al_def using keys_fold[of ks "[]"] by simp
  have cnt: "count_list ks b = length (filter (\<lambda>v. nearest (uint n) v = b) vs)" for b
    unfolding ks_def by (induction vs) auto
  have total: "sum_list (map (\<lambda>x. unat (snd x)) al) = length vs" if "length vs < 2 ^ 32"
  proof -
    have "unat (storage_get al b) = count_list ks b" for b
    proof -
      have "count_list ks b < 2 ^ 32" using count_le_length[of ks b] that by (simp add: ks_def)
      then show ?thesis by (simp add: get unat_of_nat)
    qed
    then have "sum_list (map (\<lambda>x. unat (snd x)) al) = sum (count_list ks) (set ks)"
      using sum_counters[OF ok] keys by simp
    also have "\<dots> = length ks" by (rule sum_count_set) auto
    finally show ?thesis by (simp add: ks_def)
  qed
  have "updates h vs = Inr (h\<lparr>h_moments := fold welford vs (h_moments h), storage := al\<rparr>)"
    using updates_run[OF h(1) assms(2)] by (simp add: h(2,5) al_def ks_def)
  moreover have "write_to_file (h\<lparr>h_moments := fold welford vs (h_moments h), storage := al\<rparr>) True
      = Some (concat (map write_line al))" by (simp add: write_to_file_def)
  ultimately show ?thesis
    using ok get cnt keys total unfolding storage_ok_def
    by (intro exI[of _ "h\<lparr>h_moments := fold welford vs (h_moments h), storage := al\<rparr>"] exI[of _ al])
       (simp add: ks_def)
qed

theorem histogram_counts_witness:
  "\<exists>h' lines. updates (the (new_Histogram 10)) [27, -3, 31] = Inr h' \<and>
    write_to_file h' True = Some (concat (map write_line lines)) \<and> sorted_wrt (<) (map fst lines) \<and>
    set (map fst lines) = {30, 0} \<and> storage_get lines 30 = 2 \<and> sum_list (map (\<lambda>x. unat (snd x)) lines) = 3"
proof -
  have new: "new_Histogram 10 = Some (the (new_Histogram 10))" by (simp add: new_Histogram_def)
  have "\<forall>v\<in>set [27, -3, 31]. in_range v" by (simp add: in_range_def)
  from histogram_counts[OF new this] obtain h' lines where run: "updates (the (new_Histogram 10)) [27, -3, 31] = Inr h'"
      "write_to_file h' True = Some (concat (map write_line lines))" "sorted_wrt (<) (map fst lines)"
    and keys: "set (map fst lines) = nearest (uint (10 :: u32)) ` set [27, -3, 31]"
    and get: "\<And>b. storage_get lines b = of_nat (length (filter (\<lambda>v. nearest (uint (10 :: u32)) v = b) [27, -3, 31]))"
    and total: "length [27, -3, 31 :: int] < 2 ^ 32 \<longrightarrow> sum_list (map (\<lambda>x. unat (snd x)) lines) = length [27, -3, 31 :: int]"
    by blast
  have "set (map fst lines) = {30, 0}" "storage_get lines 30 = 2" "sum_list (map (\<lambda>x. unat (snd x)) lines) = 3"
    using keys get[of 30] total by (auto simp: nearest_def)
  with run show ?thesis by blast
qed

text \<open>(C22) Mean and variance stay meaningful whatever the rounding errors: after any non-empty
  sequence of values between \<open>lo\<close> and \<open>hi\<close>, the mean is a number between \<open>lo\<close> and \<open>hi\<close> (as doubles), the
  count is the number of values, and the variance of two or more values is not negative.\<close>

theorem histogram_mean_in_range:
  assumes "new_Histogram n = Some h" "\<forall>v\<in>set vs. lo \<le> v \<and> v \<le> hi" "vs \<noteq> []" "length vs < 2 ^ 64"
    and "in_range lo" "in_range hi"
  shows "\<exists>h' x. updates h vs = Inr h' \<and> hs_getMean (Some h') = Inr (Fin x) \<and>
    rnd (of_int lo) \<le> x \<and> x \<le> rnd (of_int hi) \<and> hs_getCount (Some h') = Inr (of_nat (length vs)) \<and>
    (2 \<le> length vs \<longrightarrow> dnonneg (variance (finalize h')))"
proof -
  note h = new_Histogram_ok[OF assms(1)]
  have rng: "\<forall>v\<in>set vs. in_range v" using assms(2,5,6) by (force simp: in_range_def)
  define m where "m = fold welford vs moments0"
  have ok: "moments_ok (rnd (of_int lo)) (rnd (of_int hi)) (length vs) m"
    unfolding m_def using welford_fold[of vs lo hi 0 moments0] moments0_ok assms(2,4-6)
    by (auto simp: sample_ok_def in_range_def)
  then obtain x where x: "m_mean m = Fin x" "rnd (of_int lo) \<le> x" "x \<le> rnd (of_int hi)"
    and c: "unat (m_count m) = length vs" using assms(3) by (auto simp: moments_ok_def)
  from c have cnt: "m_count m = of_nat (length vs)" by (metis of_nat_unat ucast_id)
  define h' where "h' = h\<lparr>h_moments := m, storage := fold storage_incr (map (nearest (bucket_size h)) vs) (storage h)\<rparr>"
  have "updates h vs = Inr h'" using updates_run[OF h(1) rng] by (simp add: h(4) m_def h'_def)
  moreover have "dnonneg (variance (finalize h'))" if "2 \<le> length vs"
    using that c sample_variance_nonneg[OF ok that] by (simp add: finalize_def h'_def word_less_nat_alt)
  ultimately show ?thesis using x cnt by (auto simp: hs_getMean_def hs_getCount_def h'_def)
qed

theorem histogram_mean_in_range_witness:
  "\<exists>h' x. updates (the (new_Histogram 1)) [3, 4, 8] = Inr h' \<and> hs_getMean (Some h') = Inr (Fin x) \<and>
    rnd 3 \<le> x \<and> x \<le> rnd 8 \<and> hs_getCount (Some h') = Inr 3 \<and> dnonneg (variance (finalize h'))"
proof -
  have new: "new_Histogram 1 = Some (the (new_Histogram 1))" by (simp add: new_Histogram_def)
  have "\<forall>v\<in>set [3, 4, 8]. 3 \<le> v \<and> v \<le> (8 :: int)" "[3, 4, 8 :: int] \<noteq> []" "length [3, 4, 8 :: int] < 2 ^ 64"
    "in_range 3" "in_range 8" by (simp_all add: in_range_def)
  from histogram_mean_in_range[OF new this] show ?thesis by simp
qed

text \<open>The rounding of \<open>update\<close> overflows near the ends of the range: a value within half a
  bucket of the largest 64-bit integer is undefined behaviour, whatever the state.\<close>

theorem histogram_overflow:
  assumes "2 ^ 63 \<le> v + bucket_half h" "0 < v"
  shows "update h v = Inl SignedOverflow"
  using assms by (simp add: update_def bucket_of_def s64_def Let_def)

theorem histogram_overflow_witness:
  "update (the (new_Histogram 10)) (2 ^ 63 - 1) = Inl SignedOverflow"
  by (rule histogram_overflow) (simp_all add: new_Histogram_def signed_divide_int_def)

end
