(* ===== verification/ArrMatch.thy ===== *)
theory ArrMatch
  imports Capture Hist
begin

text \<open>
  Matching of two recordings (\<open>examples/moonsniff/arrmatch.lua\<close>): the time stamps taken in front of the
  device under test are put into an array indexed by the low 28 bits of the identifier, those
  taken behind it look their partner up, and the differences go to the histogram.

  \<^item> A reader is the list of the records that \<open>readSingle\<close> still returns (\<open>read_all\<close> of \<open>Capture\<close>); the record
    a loop holds in \<open>precap\<close> or \<open>postcap\<close> is the head of its list.
  \<^item> LuaJIT computes differences of time stamps in 64-bit integers, as the model does. The counters are
    Lua numbers, exact up to \<open>2\<^sup>5\<^sup>3\<close>; here they are natural numbers.
  \<^item> The script works on the global histogram of \<open>histogram.cpp\<close> (\<open>Hist\<close>).
\<close>

section \<open>State and operations\<close>

definition INDEX_BITMASK :: u32 where
  "INDEX_BITMASK = 0x0FFFFFFF"

definition TIME_THRESH :: int where
  "TIME_THRESH = -50"

type_synonym mscap = "u64 \<times> u32"

record am_entry =
  am_timestamp :: u64
  am_identifier :: u32

record am_state =
  am_map :: "u32 \<Rightarrow> am_entry"
  am_hist :: "histogram option"
  overwrites :: nat
  am_misses :: nat
  pre_pkts :: nat
  post_pkts :: nat
  warnings :: nat

definition zeroInit :: "u32 \<Rightarrow> am_entry" where
  "zeroInit = (\<lambda>_. \<lparr>am_timestamp = 0, am_identifier = 0\<rparr>)"

definition ident :: "mscap \<Rightarrow> u32" where
  "ident r = snd r AND INDEX_BITMASK"

definition put_pre :: "mscap \<Rightarrow> (u32 \<Rightarrow> am_entry) \<Rightarrow> u32 \<Rightarrow> am_entry" where
  "put_pre r m = m(ident r := \<lparr>am_timestamp = fst r, am_identifier = snd r\<rparr>)"

definition overwrite :: "mscap \<Rightarrow> (u32 \<Rightarrow> am_entry) \<Rightarrow> nat" where
  "overwrite r m = (if am_timestamp (m (ident r)) \<noteq> 0 then 1 else 0)"

text \<open>The loop of \<open>initialFill\<close>. Its result are the counters, the array and what the reader has left: the record
  that ends the loop has been read.\<close>

fun fill_loop :: "u32 \<Rightarrow> mscap list \<Rightarrow> nat \<Rightarrow> nat \<Rightarrow> (u32 \<Rightarrow> am_entry) \<Rightarrow> nat \<times> nat \<times> (u32 \<Rightarrow> am_entry) \<times> mscap list" where
  "fill_loop initial_id [] n ow m = (n, ow, m, [])"
| "fill_loop initial_id (r # rs) n ow m =
     (if initial_id \<le> ident r \<and> ident r < INDEX_BITMASK - 100
      then fill_loop initial_id rs (n + 1) (ow + overwrite r m) (put_pre r m)
      else (n, ow, m, rs))"

definition initialFill :: "mscap list \<Rightarrow> (u32 \<Rightarrow> am_entry) \<Rightarrow> nat \<times> nat \<times> (u32 \<Rightarrow> am_entry) \<times> mscap list" where
  "initialFill pre m = fill_loop (ident (hd pre)) pre 0 0 m"

definition diff_of :: "u64 \<Rightarrow> u64 \<Rightarrow> int" where
  "diff_of ts post =
     (let diff = sint (post - ts)
      in if ts \<noteq> 0 \<and> diff < - (2 ^ 31) \<and> diff > - (2 ^ 32) then diff + 2 ^ 32 else diff)"

definition computeLatency :: "am_state \<Rightarrow> mscap \<Rightarrow> am_state res" where
  "computeLatency s postcap =
     (let e = am_map s (ident postcap); ts = am_timestamp e; diff = diff_of ts (fst postcap)
      in rbind (if am_identifier e = snd postcap
                then if ts \<noteq> 0 \<and> diff < TIME_THRESH then Inr (s\<lparr>warnings := warnings s + 1\<rparr>)
                     else if ts \<noteq> 0 then rbind (hs_update (am_hist s) diff) (\<lambda>(_, h). Inr (s\<lparr>am_hist := h\<rparr>))
                     else Inr (s\<lparr>am_misses := am_misses s + 1\<rparr>)
                else Inr (s\<lparr>am_misses := am_misses s + 1\<rparr>))
           (\<lambda>s. Inr (s\<lparr>am_map := (am_map s)(ident postcap := \<lparr>am_timestamp = 0, am_identifier = 0\<rparr>)\<rparr>)))"

fun post_loop :: "am_state \<Rightarrow> mscap list \<Rightarrow> am_state res" where
  "post_loop s [] = Inr s"
| "post_loop s (q # qs) = rbind (computeLatency (s\<lparr>post_pkts := post_pkts s + 1\<rparr>) q) (\<lambda>s. post_loop s qs)"

fun match_loop :: "am_state \<Rightarrow> mscap list \<Rightarrow> mscap list \<Rightarrow> am_state res" where
  "match_loop s (p # ps) (q # qs) =
     (let s1 = s\<lparr>pre_pkts := pre_pkts s + 1, post_pkts := post_pkts s + 1\<rparr>;
          s2 = s1\<lparr>overwrites := overwrites s1 + overwrite p (am_map s1), am_map := put_pre p (am_map s1)\<rparr>
      in rbind (computeLatency s2 q) (\<lambda>s3. match_loop s3 ps qs))"
| "match_loop s ps [] = Inr s"
| "match_loop s [] qs = post_loop s qs"

text \<open>The script ends with an error when a file has no record, or when the histogram cannot be created
  or its file cannot be opened; otherwise with its state and the text of the histogram.\<close>

datatype am_outcome = Aborted | Finished am_state histogram string

definition am_match :: "bytes \<Rightarrow> bytes \<Rightarrow> u32 \<Rightarrow> bool \<Rightarrow> am_outcome res" where
  "am_match PRE POST nrbuckets opened =
     (case hs_initialize nrbuckets of None \<Rightarrow> Inr Aborted | Some hist \<Rightarrow>
      let pre = read_all PRE 0; post = read_all POST 0
      in if pre = [] \<or> post = [] then Inr Aborted
         else let (n, ow, m, rest) = initialFill pre zeroInit
              in rbind (match_loop \<lparr>am_map = m, am_hist = hist, overwrites = ow, am_misses = 0, pre_pkts = n, post_pkts = 0, warnings = 0\<rparr>
                          (hd pre # rest) post) (\<lambda>s.
                 rbind (hs_finalize (am_hist s)) (\<lambda>hist'.
                 rbind (hs_write hist' opened) (\<lambda>text.
                   case (text, hist') of (Some t, Some h) \<Rightarrow> Inr (Finished (s\<lparr>am_hist := hs_destroy hist'\<rparr>) h t)
                   | _ \<Rightarrow> Inr Aborted))))"

section \<open>Specification\<close>

text \<open>The partners of a record behind the device, and the latency it contributes.\<close>

definition partners :: "mscap list \<Rightarrow> mscap \<Rightarrow> mscap list" where
  "partners pre q = filter (\<lambda>r. snd r = snd q \<and> fst r \<noteq> 0) pre"

definition am_sample :: "mscap list \<Rightarrow> mscap \<Rightarrow> int list" where
  "am_sample pre q = filter (\<lambda>d. TIME_THRESH \<le> d) (map (\<lambda>r. diff_of (fst r) (fst q)) (partners pre q))"

text \<open>Identifiers that occur once and do not wrap around, so that the whole file is read before the
  matching starts.\<close>

definition one_round :: "mscap list \<Rightarrow> bool" where
  "one_round pre \<longleftrightarrow> distinct (map ident pre) \<and> (\<forall>r\<in>set pre. ident (hd pre) \<le> ident r \<and> ident r < INDEX_BITMASK - 100)"

definition times_ok :: "mscap list \<Rightarrow> bool" where
  "times_ok rs \<longleftrightarrow> (\<forall>r\<in>set rs. unat (fst r) \<le> 2 ^ 62)"

section \<open>The array\<close>

lemma fill_all:
  "\<forall>r\<in>set pre. initial_id \<le> ident r \<and> ident r < INDEX_BITMASK - 100 \<Longrightarrow>
     \<exists>ow'. fill_loop initial_id pre n ow m = (n + length pre, ow', fold put_pre pre m, [])"
proof (induction pre arbitrary: n ow m)
  case (Cons r rs)
  then obtain ow' where "fill_loop initial_id rs (n + 1) (ow + overwrite r m) (put_pre r m) = (n + 1 + length rs, ow', fold put_pre rs (put_pre r m), [])"
    by (metis list.set_intros(2))
  then show ?case using Cons.prems by simp
qed simp

lemma fold_put_other: "x \<notin> ident ` set rs \<Longrightarrow> fold put_pre rs m x = m x"
  by (induction rs arbitrary: m) (auto simp: put_pre_def)

lemma fold_put_pre:
  "r \<in> set rs \<Longrightarrow> distinct (map ident rs) \<Longrightarrow> fold put_pre rs m (ident r) = \<lparr>am_timestamp = fst r, am_identifier = snd r\<rparr>"
proof (induction rs arbitrary: m)
  case (Cons r' rs)
  have "fold put_pre rs (put_pre r' m) (ident r') = put_pre r' m (ident r')"
    using Cons.prems(2) by (intro fold_put_other) simp
  then have "fold put_pre rs (put_pre r' m) (ident r') = \<lparr>am_timestamp = fst r', am_identifier = snd r'\<rparr>"
    by (simp add: put_pre_def)
  then show ?case using Cons by auto
qed simp

lemma put_again:
  assumes "r \<in> set rs" "distinct (map ident rs)"
  shows "put_pre r (fold put_pre rs m) = fold put_pre rs m"
  using fold_put_pre[OF assms, of m] by (simp add: put_pre_def fun_upd_idem)

lemma same_ident: "snd r = snd q \<Longrightarrow> ident r = ident q"
  by (simp add: ident_def)

lemma partners_one:
  assumes "distinct (map ident pre)" "r \<in> set (partners pre q)"
  shows "partners pre q = [r]"
  using assms
proof (induction pre)
  case (Cons x xs)
  have none: "partners xs q = []" if x: "snd x = snd q"
  proof -
    have "snd r \<noteq> snd q" if r: "r \<in> set xs" for r
    proof
      assume "snd r = snd q"
      then have "ident r = ident x" using x by (simp add: ident_def)
      then have "ident x \<in> ident ` set xs" using r by (metis imageI)
      then show False using Cons.prems(1) by simp
    qed
    then show ?thesis by (auto simp: partners_def filter_empty_conv)
  qed
  show ?case
  proof (cases "snd x = snd q \<and> fst x \<noteq> 0")
    case True
    then have "partners (x # xs) q = [x]" using none by (simp add: partners_def)
    then show ?thesis using Cons.prems(2) by simp
  next
    case False
    then show ?thesis using Cons by (auto simp: partners_def)
  qed
qed (simp add: partners_def)

text \<open>What the array says about a record behind the device.\<close>

lemma entry_cases:
  assumes "distinct (map ident pre)" "e = fold put_pre pre zeroInit (ident q)"
  shows "partners pre q = [] \<and> (am_identifier e = snd q \<longrightarrow> am_timestamp e = 0) \<or>
    (\<exists>r. partners pre q = [r] \<and> e = \<lparr>am_timestamp = fst r, am_identifier = snd q\<rparr> \<and> fst r \<noteq> 0)"
proof (cases "partners pre q")
  case Nil
  have "am_timestamp e = 0" if "am_identifier e = snd q"
  proof (cases "ident q \<in> ident ` set pre")
    case True
    then obtain r where r: "r \<in> set pre" "ident r = ident q" by auto
    then have "e = \<lparr>am_timestamp = fst r, am_identifier = snd r\<rparr>" using fold_put_pre[OF r(1) assms(1)] assms(2) by metis
    then show ?thesis using Nil r(1) that by (auto simp: partners_def filter_empty_conv)
  qed (simp add: assms(2) fold_put_other zeroInit_def)
  then show ?thesis using Nil by blast
next
  case (Cons r rs)
  then have r: "r \<in> set (partners pre q)" by simp
  then have "r \<in> set pre" "snd r = snd q" "fst r \<noteq> 0" by (auto simp: partners_def)
  then show ?thesis using partners_one[OF assms(1) r] fold_put_pre[of r pre zeroInit] assms same_ident[of r q] by auto
qed

lemma diff_of_range:
  assumes "unat a \<le> 2 ^ 62" "unat b \<le> 2 ^ 62"
  shows "in_range (diff_of a b)"
proof -
  define x where "x = int (unat a)"
  define y where "y = int (unat b)"
  have "x \<le> int (2 ^ 62)" "y \<le> int (2 ^ 62)" unfolding x_def y_def using assms by (simp_all only: of_nat_le_iff)
  moreover have "0 \<le> x" "0 \<le> y" by (simp_all add: x_def y_def)
  ultimately show ?thesis
    unfolding in_range_def diff_of_def Let_def sint_diff[OF assms(2,1)] x_def[symmetric] y_def[symmetric] by (auto simp: abs_if)
qed

section \<open>Matching\<close>

lemma computeLatency_match:
  assumes pre: "distinct (map ident pre)" "times_ok pre" "am_map s (ident q) = fold put_pre pre zeroInit (ident q)"
    and h: "am_hist s = Some h" "hist_ok h" and q: "unat (fst q) \<le> 2 ^ 62"
  shows "\<exists>h'. computeLatency s q = Inr (s\<lparr>am_hist := Some h', am_misses := am_misses s + (if partners pre q = [] then 1 else 0),
      warnings := warnings s + (if partners pre q \<noteq> [] \<and> am_sample pre q = [] then 1 else 0),
      am_map := (am_map s)(ident q := \<lparr>am_timestamp = 0, am_identifier = 0\<rparr>)\<rparr>) \<and>
    updates h (am_sample pre q) = Inr h' \<and> hist_ok h'"
proof -
  from entry_cases[OF pre(1) pre(3)] show ?thesis
  proof (elim disjE exE conjE)
    assume "partners pre q = []" "am_identifier (am_map s (ident q)) = snd q \<longrightarrow> am_timestamp (am_map s (ident q)) = 0"
    then show ?thesis using h by (auto simp: computeLatency_def Let_def am_sample_def)
  next
    fix r assume r: "partners pre q = [r]" "am_map s (ident q) = \<lparr>am_timestamp = fst r, am_identifier = snd q\<rparr>" "fst r \<noteq> 0"
    have "r \<in> set (partners pre q)" using r(1) by simp
    then have "r \<in> set pre" by (simp add: partners_def)
    then have "unat (fst r) \<le> 2 ^ 62" using pre(2) by (auto simp: times_ok_def)
    then have rng: "in_range (diff_of (fst r) (fst q))" using q by (rule diff_of_range)
    show ?thesis
    proof (cases "diff_of (fst r) (fst q) < TIME_THRESH")
      case True
      then show ?thesis using r h by (simp add: computeLatency_def Let_def am_sample_def)
    next
      case False
      let ?d = "diff_of (fst r) (fst q)"
      let ?h = "h\<lparr>h_moments := welford ?d (h_moments h), storage := storage_incr (nearest (bucket_size h) ?d) (storage h)\<rparr>"
      have up: "update h ?d = Inr (0 \<le> ?d, ?h)" using h(2) rng by (intro update_nearest) (simp_all add: in_range_def)
      moreover have "hist_ok ?h" using h(2) by (simp add: hist_ok_def st.inv_incr)
      ultimately show ?thesis using False r h by (intro exI[of _ ?h]) (simp add: computeLatency_def Let_def am_sample_def hs_update_def)
    qed
  qed
qed

lemma updates_append: "updates h (xs @ ys) = rbind (updates h xs) (\<lambda>h. updates h ys)"
  by (induction xs arbitrary: h) (auto simp: rbind_assoc case_prod_unfold)

text \<open>The state after the records \<open>qs\<close> behind the device: \<open>s\<close> was the state before.\<close>

definition matched :: "mscap list \<Rightarrow> mscap list \<Rightarrow> am_state \<Rightarrow> histogram \<Rightarrow> am_state \<Rightarrow> bool" where
  "matched pre qs s h s' \<longleftrightarrow> (\<exists>h'. am_hist s' = Some h' \<and> hist_ok h' \<and> updates h (concat (map (am_sample pre) qs)) = Inr h') \<and>
     am_misses s' = am_misses s + length (filter (\<lambda>q. partners pre q = []) qs) \<and>
     warnings s' = warnings s + length (filter (\<lambda>q. partners pre q \<noteq> [] \<and> am_sample pre q = []) qs) \<and>
     post_pkts s' = post_pkts s + length qs \<and> pre_pkts s' = pre_pkts s \<and> overwrites s' = overwrites s"

lemma post_loop_matched:
  assumes "distinct (map ident pre)" "times_ok pre" "distinct (map ident qs)" "times_ok qs"
    and "\<forall>q\<in>set qs. am_map s (ident q) = fold put_pre pre zeroInit (ident q)" "am_hist s = Some h" "hist_ok h"
  shows "\<exists>s'. post_loop s qs = Inr s' \<and> matched pre qs s h s'"
  using assms(3-7)
proof (induction qs arbitrary: s h)
  case (Cons q qs)
  let ?s = "s\<lparr>post_pkts := post_pkts s + 1\<rparr>"
  have "unat (fst q) \<le> 2 ^ 62" using Cons.prems(2) by (simp add: times_ok_def)
  with computeLatency_match[OF assms(1,2), of ?s q h] obtain h1 s1 where
    s1: "computeLatency ?s q = Inr s1" "s1 = ?s\<lparr>am_hist := Some h1, am_misses := am_misses s + (if partners pre q = [] then 1 else 0),
      warnings := warnings s + (if partners pre q \<noteq> [] \<and> am_sample pre q = [] then 1 else 0),
      am_map := (am_map s)(ident q := \<lparr>am_timestamp = 0, am_identifier = 0\<rparr>)\<rparr>"
      "updates h (am_sample pre q) = Inr h1" "hist_ok h1"
    using Cons.prems(3-5) by auto
  have "\<forall>q'\<in>set qs. am_map s1 (ident q') = fold put_pre pre zeroInit (ident q')"
  proof
    fix q' assume q': "q' \<in> set qs"
    then have "ident q' \<in> ident ` set qs" by (rule imageI)
    then have "ident q' \<noteq> ident q" using Cons.prems(1) by auto
    then show "am_map s1 (ident q') = fold put_pre pre zeroInit (ident q')" using Cons.prems(3) q' s1(2) by simp
  qed
  moreover have "distinct (map ident qs)" "times_ok qs" using Cons.prems(1,2) by (simp_all add: times_ok_def)
  ultimately obtain s' where s': "post_loop s1 qs = Inr s'" "matched pre qs s1 h1 s'"
    using Cons.IH[of s1 h1] s1(2,4) by auto
  then have "matched pre (q # qs) s h s'"
    using s1(2,3) by (simp add: matched_def updates_append)
  then show ?case using s1(1) s'(1) by simp
qed (simp add: matched_def)

text \<open>The first record is put into the array once more before the first look-up.\<close>

lemma match_loop_first:
  assumes "qs \<noteq> []"
  shows "match_loop s [p] qs = post_loop (s\<lparr>pre_pkts := pre_pkts s + 1,
      overwrites := overwrites s + overwrite p (am_map s), am_map := put_pre p (am_map s)\<rparr>) qs"
proof -
  obtain q qs' where qs: "qs = q # qs'" using assms by (cases qs) auto
  have "match_loop t [] qs' = post_loop t qs'" for t by (cases qs') simp_all
  then show ?thesis by (cases s) (simp add: qs Let_def)
qed

lemma am_match_run:
  assumes files: "read_all PRE 0 = pre" "read_all POST 0 = post" "pre \<noteq> []" "post \<noteq> []"
    and pre: "one_round pre" "times_ok pre" and post: "distinct (map ident post)" "times_ok post"
    and h: "new_Histogram n = Some h"
  shows "\<exists>s h'. am_match PRE POST n True = Inr (Finished s (finalize h') (concat (map write_line (storage h')))) \<and>
    updates h (concat (map (am_sample pre) post)) = Inr h' \<and>
    am_misses s = length (filter (\<lambda>q. partners pre q = []) post) \<and>
    warnings s = length (filter (\<lambda>q. partners pre q \<noteq> [] \<and> am_sample pre q = []) post) \<and>
    post_pkts s = length post"
proof -
  let ?M = "fold put_pre pre zeroInit"
  have d: "distinct (map ident pre)" using pre(1) by (simp add: one_round_def)
  obtain ow where fill: "initialFill pre zeroInit = (length pre, ow, ?M, [])"
    using fill_all[of pre "ident (hd pre)" 0 0 zeroInit] pre(1) by (auto simp: initialFill_def one_round_def)
  define s0 where "s0 = \<lparr>am_map = ?M, am_hist = Some h, overwrites = ow, am_misses = 0, pre_pkts = length pre, post_pkts = 0, warnings = 0\<rparr>"
  define s1 where "s1 = s0\<lparr>pre_pkts := pre_pkts s0 + 1, overwrites := overwrites s0 + overwrite (hd pre) (am_map s0), am_map := put_pre (hd pre) (am_map s0)\<rparr>"
  have map: "am_map s1 = ?M" "am_hist s1 = Some h" "am_misses s1 = 0" "warnings s1 = 0" "post_pkts s1 = 0"
    using put_again[OF hd_in_set[OF files(3)] d] by (simp_all add: s1_def s0_def)
  then obtain s where s: "post_loop s1 post = Inr s" "matched pre post s1 h s"
    using post_loop_matched[OF d pre(2) post, of s1 h] new_Histogram_ok(1)[OF h] by auto
  then obtain h' where h': "am_hist s = Some h'" "updates h (concat (map (am_sample pre) post)) = Inr h'"
    by (auto simp: matched_def)
  have "match_loop s0 [hd pre] post = Inr s" using s(1) match_loop_first[OF files(4)] by (simp add: s1_def)
  moreover have "storage (finalize h') = storage h'" by (simp add: finalize_def)
  ultimately have "am_match PRE POST n True = Inr (Finished (s\<lparr>am_hist := None\<rparr>) (finalize h') (concat (map write_line (storage h'))))"
    using files h h'(1)
    by (simp add: am_match_def hs_initialize_def fill s0_def[symmetric] hs_finalize_def hs_write_def write_to_file_def hs_destroy_def)
  then show ?thesis using h'(2) s(2) map(3-5)
    by (intro exI[of _ "s\<lparr>am_hist := None\<rparr>"] exI[of _ h']) (auto simp: matched_def)
qed

section \<open>Properties\<close>

text \<open>(C18) The matching is a join of the two files. If the identifiers of the first file occur once and do not
  wrap around, and those of the second occur once, the script has no undefined behaviour and ends;
  the histogram has been updated, in the order of the second file, with the difference of the time
  stamps of every pair of equal identifiers, unless it is below the threshold; the
  misses are the records without partner, and the output is the file of that histogram.\<close>

theorem am_match_joins:
  assumes "read_all PRE 0 = pre" "read_all POST 0 = post" "pre \<noteq> []" "post \<noteq> []"
    and "one_round pre" "times_ok pre" "distinct (map ident post)" "times_ok post" "new_Histogram n = Some h"
  shows "\<exists>s h'. am_match PRE POST n True = Inr (Finished s (finalize h') (concat (map write_line (storage h')))) \<and>
    updates h (concat (map (\<lambda>q. filter (\<lambda>d. TIME_THRESH \<le> d)
        (map (\<lambda>r. diff_of (fst r) (fst q)) (filter (\<lambda>r. snd r = snd q \<and> fst r \<noteq> 0) pre))) post)) = Inr h' \<and>
    am_misses s = length (filter (\<lambda>q. \<forall>r\<in>set pre. snd r = snd q \<longrightarrow> fst r = 0) post) \<and> post_pkts s = length post"
proof -
  have "(partners pre q = []) = (\<forall>r\<in>set pre. snd r = snd q \<longrightarrow> fst r = 0)" for q
    by (auto simp: partners_def filter_empty_conv)
  then show ?thesis using am_match_run[OF assms] by (auto simp: am_sample_def[abs_def] partners_def)
qed

text \<open>Time stamps that were cut to 32 bits: the difference is right if the latency is below \<open>2\<^sup>3\<^sup>1\<close>.\<close>

lemma diff_of_wrapped:
  assumes "t \<le> t'" "t' - t < 2 ^ 31" "t mod 2 ^ 32 \<noteq> 0"
  shows "diff_of (of_nat (t mod 2 ^ 32)) (of_nat (t' mod 2 ^ 32)) = int t' - int t"
proof -
  define a where "a = t mod 2 ^ 32"
  define b where "b = t' mod 2 ^ 32"
  have ab: "a < 2 ^ 32" "b < 2 ^ 32" "a \<noteq> 0" using assms(3) by (simp_all add: a_def b_def)
  have u: "unat (of_nat x :: u64) = x" if "x < 2 ^ 32" for x
    using that by (simp add: unat_of_nat take_bit_nat_eq_self)
  have s: "sint (of_nat b - of_nat a :: u64) = int b - int a"
    using sint_diff[of "of_nat b" "of_nat a"] u[OF ab(1)] u[OF ab(2)] ab(1,2) by simp
  have nz: "(of_nat a :: u64) \<noteq> 0" using u[OF ab(1)] ab(3) by (metis unat_0)
  define k where "k = t div 2 ^ 32"
  have t: "t = k * 2 ^ 32 + a" unfolding k_def a_def by (rule div_mult_mod_eq[symmetric])
  have "t' = t' div 2 ^ 32 * 2 ^ 32 + b" unfolding b_def by (rule div_mult_mod_eq[symmetric])
  moreover have "t' div 2 ^ 32 = k \<or> t' div 2 ^ 32 = k + 1"
    using assms(1,2) t ab(1) unfolding k_def by (auto simp: a_def)
  ultimately have "int b - int a = int t' - int t \<or> int b - int a = int t' - int t - 2 ^ 32"
    using t by auto
  then show ?thesis
  proof
    assume "int b - int a = int t' - int t"
    then show ?thesis unfolding a_def[symmetric] b_def[symmetric] diff_of_def Let_def s using assms(1) by simp
  next
    assume d: "int b - int a = int t' - int t - 2 ^ 32"
    have "int t' - int t < 2 ^ 31" "0 < int t' - int t"
      using assms(1,2) d ab(1,2) by auto
    then show ?thesis unfolding a_def[symmetric] b_def[symmetric] diff_of_def Let_def s using d nz by simp
  qed
qed

lemma cut_nonzero: "t mod 2 ^ 32 \<noteq> 0 \<Longrightarrow> (of_nat (t mod 2 ^ 32) :: u64) \<noteq> 0"
proof -
  assume "t mod 2 ^ 32 \<noteq> 0"
  moreover have "unat (of_nat (t mod 2 ^ 32) :: u64) = t mod 2 ^ 32"
    by (simp add: unat_of_nat take_bit_nat_eq_self)
  ultimately show ?thesis by (metis unat_0)
qed

text \<open>The time at the end of a packet, in nanoseconds, and its identifier; \<open>cut32\<close> is what the recorder makes of it.\<close>

definition true_record :: "u64 \<Rightarrow> u32 \<Rightarrow> mbuf \<Rightarrow> (nat \<times> u32) list" where
  "true_record tmst off p =
     (if stamped tmst False p \<and> off < pkt_len p
      then [(le_value (take 4 (drop (unat (pkt_len p) - 4) (pkt_data p))) * 1000000000 +
             le_value (take 4 (drop (unat (pkt_len p) - 8) (pkt_data p))), get32 (drop (unat off) (pkt_data p)))]
      else [])"

definition cut32 :: "nat \<times> u32 \<Rightarrow> mscap" where
  "cut32 r = (of_nat (fst r mod 2 ^ 32), snd r)"

lemma log_record_cut: "log_record tmst False off p = map cut32 (true_record tmst off p)"
  by (simp add: log_record_def true_record_def cut32_def)

lemma recorded:
  assumes "\<forall>p\<in>set (concat bursts). pkt_ok False off p"
  shows "\<exists>evs. ms_log_pkts tmst False off bursts = Inr (evs, ()) \<and>
    read_all (file_of evs) 0 = map cut32 (concat (map (true_record tmst off) (concat bursts)))"
proof -
  from log_burst[OF assms, of tmst] obtain evs where evs: "ms_log_pkts tmst False off bursts = Inr (evs, ())"
    "file_of evs = concat (map put_rec (concat (map (log_record tmst False off) (concat bursts))))"
    by (auto simp: ms_log_pkts_def run_loop_concat)
  have "read_all (file_of evs) 0 = concat (map (log_record tmst False off) (concat bursts))"
    using read_all_recs[of "[]"] by (simp add: evs(2))
  then show ?thesis using evs(1) unfolding log_record_cut by (auto simp: map_concat comp_def)
qed

lemma times_ok_cut: "times_ok (map cut32 rs)"
proof -
  have "unat (of_nat (t mod 2 ^ 32) :: u64) \<le> 2 ^ 62" for t :: nat
  proof -
    have "unat (of_nat (t mod 2 ^ 32) :: u64) = t mod 2 ^ 32" by (simp add: unat_of_nat take_bit_nat_eq_self)
    also have "\<dots> < 2 ^ 32" by simp
    finally show ?thesis by simp
  qed
  then show ?thesis by (auto simp: times_ok_def cut32_def)
qed

text \<open>Latencies between the records of two runs.\<close>

definition latencies_of :: "(nat \<times> u32) list \<Rightarrow> (nat \<times> u32) list \<Rightarrow> int list" where
  "latencies_of pre post = concat (map (\<lambda>q. map (\<lambda>r. int (fst q) - int (fst r)) (filter (\<lambda>r. snd r = snd q) pre)) post)"

definition forward_pairs :: "(nat \<times> u32) list \<Rightarrow> (nat \<times> u32) list \<Rightarrow> bool" where
  "forward_pairs pre post \<longleftrightarrow> (\<forall>r\<in>set pre. fst r mod 2 ^ 32 \<noteq> 0 \<and>
     (\<forall>q\<in>set post. snd q = snd r \<longrightarrow> fst r \<le> fst q \<and> fst q - fst r < 2 ^ 31))"

lemma am_sample_cut:
  assumes "forward_pairs pre post" "q \<in> set post"
  shows "partners (map cut32 pre) (cut32 q) = map cut32 (filter (\<lambda>r. snd r = snd q) pre)"
    and "am_sample (map cut32 pre) (cut32 q) = map (\<lambda>r. int (fst q) - int (fst r)) (filter (\<lambda>r. snd r = snd q) pre)"
proof -
  have nz: "fst (cut32 r) \<noteq> 0" if "r \<in> set pre" for r
    using cut_nonzero bspec[OF assms(1)[unfolded forward_pairs_def] that] by (simp add: cut32_def)
  have "filter (\<lambda>r. snd (cut32 r) = snd (cut32 q) \<and> fst (cut32 r) \<noteq> 0) pre = filter (\<lambda>r. snd r = snd q) pre"
    using nz by (intro filter_cong) (auto simp: cut32_def)
  then show p: "partners (map cut32 pre) (cut32 q) = map cut32 (filter (\<lambda>r. snd r = snd q) pre)"
    by (simp add: partners_def filter_map comp_def)
  have d: "diff_of (fst (cut32 r)) (fst (cut32 q)) = int (fst q) - int (fst r) \<and> TIME_THRESH \<le> int (fst q) - int (fst r)"
    if "r \<in> set pre" "snd r = snd q" for r
  proof -
    have r: "fst r mod 2 ^ 32 \<noteq> 0" "fst r \<le> fst q" "fst q - fst r < 2 ^ 31"
      using bspec[OF assms(1)[unfolded forward_pairs_def] that(1)] assms(2) that(2) by auto
    have "diff_of (fst (cut32 r)) (fst (cut32 q)) = int (fst q) - int (fst r)"
      unfolding cut32_def fst_conv using r by (intro diff_of_wrapped)
    then show ?thesis using r(2) by (simp add: TIME_THRESH_def)
  qed
  have "map (\<lambda>r. diff_of (fst r) (fst (cut32 q))) (map cut32 (filter (\<lambda>r. snd r = snd q) pre)) =
      map (\<lambda>r. int (fst q) - int (fst r)) (filter (\<lambda>r. snd r = snd q) pre)"
    using d by auto
  then show "am_sample (map cut32 pre) (cut32 q) = map (\<lambda>r. int (fst q) - int (fst r)) (filter (\<lambda>r. snd r = snd q) pre)"
    unfolding am_sample_def p using d by (auto intro!: filter_True)
qed

text \<open>(C7) Latencies are right from the packets to the histogram, although the recorder cuts time stamps to 32
  bits: if two ports are recorded, identifiers occur once per port and do not wrap around, and every packet seen on both ports takes
  less than \<open>2\<^sup>3\<^sup>1\<close> nanoseconds, then both recordings and the matching of their files have no undefined
  behaviour, and the histogram holds the true latency of every packet seen on both ports; the
  misses are the packets seen behind the device only.\<close>

theorem offline_latencies:
  assumes "\<forall>p\<in>set (concat pre_bursts). pkt_ok False off p" "\<forall>p\<in>set (concat post_bursts). pkt_ok False off p"
    and pre: "pre = concat (map (true_record tmst off) (concat pre_bursts))" "pre \<noteq> []" "one_round (map cut32 pre)"
    and post: "post = concat (map (true_record tmst off) (concat post_bursts))" "post \<noteq> []" "distinct (map ident (map cut32 post))"
    and pairs: "forward_pairs pre post" and h: "new_Histogram n = Some h"
  shows "\<exists>ev1 ev2 s h'. ms_log_pkts tmst False off pre_bursts = Inr (ev1, ()) \<and> ms_log_pkts tmst False off post_bursts = Inr (ev2, ()) \<and>
    am_match (file_of ev1) (file_of ev2) n True = Inr (Finished s (finalize h') (concat (map write_line (storage h')))) \<and>
    updates h (latencies_of pre post) = Inr h' \<and> warnings s = 0 \<and>
    am_misses s = length (filter (\<lambda>q. snd q \<notin> snd ` set pre) post)"
proof -
  obtain ev1 where ev1: "ms_log_pkts tmst False off pre_bursts = Inr (ev1, ())" "read_all (file_of ev1) 0 = map cut32 pre"
    using recorded[OF assms(1), of tmst] pre(1) by blast
  obtain ev2 where ev2: "ms_log_pkts tmst False off post_bursts = Inr (ev2, ())" "read_all (file_of ev2) 0 = map cut32 post"
    using recorded[OF assms(2), of tmst] post(1) by blast
  obtain s h' where run: "am_match (file_of ev1) (file_of ev2) n True = Inr (Finished s (finalize h') (concat (map write_line (storage h'))))"
      "updates h (concat (map (am_sample (map cut32 pre)) (map cut32 post))) = Inr h'"
      "am_misses s = length (filter (\<lambda>q. partners (map cut32 pre) q = []) (map cut32 post))"
      "warnings s = length (filter (\<lambda>q. partners (map cut32 pre) q \<noteq> [] \<and> am_sample (map cut32 pre) q = []) (map cut32 post))"
    using am_match_run[OF ev1(2) ev2(2) _ _ pre(3) times_ok_cut post(3) times_ok_cut h] pre(2) post(2) by auto
  note sample = am_sample_cut[OF pairs]
  have "concat (map (am_sample (map cut32 pre)) (map cut32 post)) = latencies_of pre post"
    unfolding latencies_of_def map_map comp_def using sample(2) by (intro arg_cong[where f = concat] map_cong) auto
  moreover have "am_misses s = length (filter (\<lambda>q. snd q \<notin> snd ` set pre) post)"
  proof -
    have "filter (\<lambda>q. partners (map cut32 pre) (cut32 q) = []) post = filter (\<lambda>q. snd q \<notin> snd ` set pre) post"
      using sample(1) by (intro filter_cong) (auto simp: filter_empty_conv image_iff)
    then show ?thesis using run(3) by (simp add: filter_map comp_def)
  qed
  moreover have "warnings s = 0"
    using run(4) sample by (auto simp: filter_empty_conv)
  ultimately show ?thesis using ev1(1) ev2(1) run(1,2) by auto
qed

text \<open>Two recordings, and packets that carry the number \<open>k\<close> and the time of \<open>low\<close> nanoseconds and four seconds.\<close>

definition ex_file :: "mscap list \<Rightarrow> bytes" where
  "ex_file rs = concat (map put_rec rs)"

lemma ex_file_read: "read_all (ex_file rs) 0 = rs"
  using read_all_recs[of "[]" rs] by (simp add: ex_file_def)

theorem am_match_joins_witness:
  "\<exists>s h'. am_match (ex_file [(1000, 5), (2000, 6)]) (ex_file [(2700, 6), (3000, 9), (1500, 5)]) 1 True =
      Inr (Finished s (finalize h') (concat (map write_line (storage h')))) \<and>
    updates (the (new_Histogram 1)) [700, 500] = Inr h' \<and> am_misses s = 1 \<and> post_pkts s = 3"
proof -
  have new: "new_Histogram 1 = Some (the (new_Histogram 1))" by (simp add: new_Histogram_def)
  have "diff_of 2000 2700 = 700" "diff_of 1000 1500 = 500" by (simp_all add: diff_of_def Let_def)
  then show ?thesis
    using am_match_joins[OF ex_file_read ex_file_read _ _ _ _ _ _ new, of "[(1000, 5), (2000, 6)]" "[(2700, 6), (3000, 9), (1500, 5)]"]
    by (simp add: one_round_def times_ok_def ident_def INDEX_BITMASK_def TIME_THRESH_def numeral_3_eq_3)
qed

definition ex_stamp :: "u32 \<Rightarrow> u32 \<Rightarrow> mbuf" where
  "ex_stamp k low = (ex_pkt 0)\<lparr>ol_flags := 1024, pkt_data := put32 k @ replicate 48 0 @ put32 low @ put32 4\<rparr>"

lemma ex_stamp_record: "true_record 1024 0 (ex_stamp k low) = [(4000000000 + unat low, k)]"
proof -
  have v: "le_value (put32 x) = unat x" for x
    using le_value_bytes[of 4 "unat x"] unat_u32_less[of x] by (simp add: put32_def)
  have "take 4 (put32 x) = put32 x" for x by simp
  then show ?thesis
    by (simp add: true_record_def ex_stamp_def ex_pkt_def stamped_def v)
qed

lemma ex_stamp_ok: "pkt_ok False 0 (ex_stamp k low)"
  by (simp add: pkt_ok_def ex_stamp_def ex_pkt_def)

theorem offline_latencies_witness:
  "\<exists>ev1 ev2 s h'. ms_log_pkts 1024 False 0 [[ex_stamp 5 294967290]] = Inr (ev1, ()) \<and>
    ms_log_pkts 1024 False 0 [[ex_stamp 5 294967310], [ex_stamp 6 294967320]] = Inr (ev2, ()) \<and>
    am_match (file_of ev1) (file_of ev2) 1 True = Inr (Finished s (finalize h') (concat (map write_line (storage h')))) \<and>
    updates (the (new_Histogram 1)) [20] = Inr h' \<and> warnings s = 0 \<and> am_misses s = 1"
proof -
  have new: "new_Histogram 1 = Some (the (new_Histogram 1))" by (simp add: new_Histogram_def)
  have l: "latencies_of [(4294967290, 5)] [(4294967310, 5), (4294967320, 6)] = [20]" by (simp add: latencies_of_def)
  show ?thesis
    using offline_latencies[of "[[ex_stamp 5 294967290]]" 0 "[[ex_stamp 5 294967310], [ex_stamp 6 294967320]]" "[(4294967290, 5)]" 1024
        "[(4294967310, 5), (4294967320, 6)]", OF _ _ _ _ _ _ _ _ _ new]
    by (simp add: l ex_stamp_record ex_stamp_ok one_round_def ident_def cut32_def INDEX_BITMASK_def forward_pairs_def)
qed

section \<open>A record that is lost\<close>

lemma fill_stop:
  "\<forall>r\<in>set xs. initial_id \<le> ident r \<and> ident r < INDEX_BITMASK - 100 \<Longrightarrow> \<not> (initial_id \<le> ident r \<and> ident r < INDEX_BITMASK - 100) \<Longrightarrow>
     fill_loop initial_id (xs @ [r]) n ow m = fill_loop initial_id xs n ow m"
  by (induction xs arbitrary: n ow m) auto

text \<open>(C37) The record that ends the initial filling is lost: it has been read, but \<open>initialFill\<close> does not return
  it, and the loop goes on with the first record instead. When it is the last record of its file, the whole result is the
  one for the file without it, so its partner is reported as a miss.\<close>

theorem am_match_loses_record:
  assumes "read_all PRE 0 = xs @ [r]" "read_all PRE' 0 = xs" "xs \<noteq> []"
    and "\<forall>r\<in>set xs. ident (hd xs) \<le> ident r \<and> ident r < INDEX_BITMASK - 100" "ident r < ident (hd xs)"
  shows "am_match PRE POST n opened = am_match PRE' POST n opened"
proof -
  have "\<not> (ident (hd xs) \<le> ident r \<and> ident r < INDEX_BITMASK - 100)" using assms(5) by (simp add: not_le[symmetric])
  from fill_stop[OF assms(4) this] have "initialFill (xs @ [r]) zeroInit = initialFill xs zeroInit"
    using assms(3) by (simp add: initialFill_def)
  moreover have "hd (xs @ [r]) = hd xs" using assms(3) by simp
  ultimately show ?thesis using assms(3) by (cases "hs_initialize n") (simp_all add: am_match_def assms(1,2) Let_def)
qed

theorem am_match_loses_record_witness:
  "am_match (ex_file [(1000, 5), (2000, 4)]) (ex_file [(1500, 5), (2500, 4)]) 1 True =
   am_match (ex_file [(1000, 5)]) (ex_file [(1500, 5), (2500, 4)]) 1 True"
  by (rule am_match_loses_record[of _ "[(1000, 5)]" "(2000, 4)"]) (simp_all add: ex_file_read ident_def INDEX_BITMASK_def)

end
