(* ===== verification/Tsc.thy ===== *)
theory Tsc
  imports Prelude
begin

text \<open>
  Busy waiting on the time-stamp counter, which the software path emulator and the software rate
  limiter share. \<open>clk k\<close> is the \<open>k\<close>-th reading of the counter.
\<close>

text \<open>Spin until the counter has reached \<open>t\<close>; the result is the number of readings made so far,
  the last of which ended the wait.\<close>

partial_function (option) tsc_wait :: "(nat \<Rightarrow> u64) \<Rightarrow> u64 \<Rightarrow> nat \<Rightarrow> nat option" where
  "tsc_wait clk t k = (if clk k < t then tsc_wait clk t (Suc k) else Some (Suc k))"

text \<open>The counter reaches \<open>t\<close> again and again, however many readings were made before.\<close>

definition clock_reaches :: "(nat \<Rightarrow> u64) \<Rightarrow> u64 \<Rightarrow> bool" where
  "clock_reaches clk t \<longleftrightarrow> (\<forall>k. \<exists>j\<ge>k. t \<le> clk j)"

lemma tsc_wait_returns:
  assumes "clock_reaches clk t"
  shows "\<exists>k'. tsc_wait clk t k = Some k' \<and> k < k' \<and> t \<le> clk (k' - 1)"
proof -
  obtain j where "k \<le> j" "t \<le> clk j" using assms by (auto simp: clock_reaches_def)
  then show ?thesis
  proof (induction "j - k" arbitrary: k)
    case 0
    then have "\<not> clk k < t" by (simp add: not_less)
    then show ?case by (subst tsc_wait.simps) simp
  next
    case (Suc n)
    show ?case
    proof (cases "clk k < t")
      case True
      have "n = j - Suc k" "Suc k \<le> j" using Suc.hyps(2) by simp_all
      from Suc.hyps(1)[OF this Suc.prems(2)] obtain k' where "tsc_wait clk t (Suc k) = Some k'" "Suc k < k'" "t \<le> clk (k' - 1)"
        by blast
      then show ?thesis using True by (subst tsc_wait.simps) auto
    next
      case False
      then have "tsc_wait clk t k = Some (Suc k)" by (subst tsc_wait.simps) simp
      then show ?thesis using False by (simp add: not_less)
    qed
  qed
qed

text \<open>Whenever the wait ends, it has read at least once, and its last reading is not below \<open>t\<close>.\<close>

lemma tsc_wait_reads:
  assumes "tsc_wait clk t k = Some k'"
  shows "k < k' \<and> t \<le> clk (k' - 1)"
  by (rule tsc_wait.raw_induct[of "\<lambda>clk t k k'. k < k' \<and> t \<le> clk (k' - 1)", OF _ assms])
    (force simp: not_less split: if_splits)

end
