(* ===== verification/MoonemSw.thy ===== *)
theory MoonemSw
  imports Moonem Tsc
begin

text \<open>
  The path emulator for network cards without hardware timestamps (\<open>src/moonem_sw.cpp\<close>).
  Time is the time-stamp counter: a receive loop reads it once per burst, stamps the accepted
  packets with the count they are to be sent at and with the number of packets of the
  burst that follow, and the transmit loop sends these packets together once the counter
  has reached their stamp.

  \<^item> The input of a receive iteration is the counter reading and the packets received; \<open>hz\<close>
    is what \<open>rte_get_tsc_hz\<close> returns.
  \<^item> The transmit loop reads the counter in a busy loop; \<open>clk k\<close> is the \<open>k\<close>-th reading. Both its
    loops may run forever, so they are \<open>partial_function\<close>s and \<open>None\<close> means that they do.
  \<^item> \<open>burst_closed\<close> is what the receive loops promise of the burst sizes and \<open>coherent\<close> what the
    transmit loop needs of them.
\<close>

section \<open>Receive loops\<close>

text \<open>The 32-bit dynamic field of the burst size.\<close>

definition get_burst_size_dynfield :: "mbuf \<Rightarrow> u64" where
  "get_burst_size_dynfield p = ucast (burst_field p)"

definition set_burst_size_dynfield :: "mbuf \<Rightarrow> u64 \<Rightarrow> mbuf" where
  "set_burst_size_dynfield p n = p\<lparr>burst_field := ucast n\<rparr>"

text \<open>The offset of the field: \<open>lookup\<close> and \<open>register\<close> are what DPDK returns for its name, negative if there
  is no such field or no room for one. The field itself is \<open>burst_field\<close> of the packet.\<close>

definition init_dynfield_burst_size_offset :: "int \<Rightarrow> int \<Rightarrow> int" where
  "init_dynfield_burst_size_offset lookup register = (if lookup < 0 then register else lookup)"

definition sw_delay :: "u64 \<Rightarrow> moonem_config \<Rightarrow> u64 res" where
  "sw_delay hz c = u64_of_d (d_of_u64 hz * (d_of_u64 (cfg_delay c) / Fin 1000000000))"

text \<open>The loop that stamps packet \<open>i\<close> of \<open>rx\<close> with the time and with \<open>rx - i\<close>.\<close>

fun stamp_burst :: "u64 \<Rightarrow> mbuf list \<Rightarrow> mbuf list" where
  "stamp_burst t [] = []"
| "stamp_burst t (p # ps) =
     set_burst_size_dynfield (p\<lparr>ts_field := t\<rparr>) (of_nat (length (p # ps))) # stamp_burst t ps"

definition sw_receiver_loop_fwd :: "moonem_config \<Rightarrow> mbuf list list \<Rightarrow> (call list \<times> loss_st) res" where
  "sw_receiver_loop_fwd c bursts = run_loop (hand_over Send c) (init_loss c) bursts"

definition sw_delay_iter :: "u64 \<Rightarrow> moonem_config \<Rightarrow> loss_st \<Rightarrow> u64 \<times> mbuf list \<Rightarrow> (call list \<times> loss_st) res" where
  "sw_delay_iter delay c ls = (\<lambda>(timestamp, bufs).
     if bufs = [] then Inr ([], ls)
     else if cfg_loss_type c \<noteq> NONE
     then rbind (applyLoss c ls bufs) (\<lambda>(bufs_accept, freed, ls').
            Inr (map Free freed @ [Enqueue (stamp_burst (timestamp + delay) bufs_accept)], ls'))
     else Inr ([Enqueue (stamp_burst (timestamp + delay) bufs)], ls))"

definition sw_receiver_loop_delay :: "u64 \<Rightarrow> moonem_config \<Rightarrow> (u64 \<times> mbuf list) list \<Rightarrow> (call list \<times> loss_st) res" where
  "sw_receiver_loop_delay hz c inputs =
     rbind (sw_delay hz c) (\<lambda>delay. run_loop (sw_delay_iter delay c) (init_loss c) inputs)"

text \<open>The rate limiters draw one random number per packet when a loss is configured, whatever
  the loss model.\<close>

definition sw_lost :: "moonem_config \<Rightarrow> u64 \<Rightarrow> bool \<times> u64" where
  "sw_lost c loss_state =
     (if 0 < cfg_loss c then let (x, r) = wyhash64 loss_state in (x < cfg_loss c, r) else (False, loss_state))"

definition SW_TOKEN_RATE :: "u64 \<Rightarrow> moonem_config \<Rightarrow> double" where
  "SW_TOKEN_RATE hz c = d_of_u64 (cfg_rate c) / Fin 8 / d_of_u64 hz * Fin 1000000"

record sw_token_st =
  sw_bucket :: bucket
  sw_token_rand :: u64

definition sw_token_step :: "moonem_config \<Rightarrow> double \<times> u64 \<Rightarrow> mbuf \<Rightarrow> (mbuf option \<times> double \<times> u64) res" where
  "sw_token_step c = (\<lambda>(current_tokens, loss_state) p.
     let effective_packet_size = d_of_u64 (ucast (wire_len p))
     in if current_tokens < effective_packet_size then Inr (None, current_tokens, loss_state)
        else let current_tokens' = current_tokens - effective_packet_size;
                 (lost, loss_state') = sw_lost c loss_state
             in Inr (if lost then None else Some p, current_tokens', loss_state'))"

definition enqueue_some :: "mbuf list \<Rightarrow> call list" where
  "enqueue_some ps = (if ps = [] then [] else [Enqueue ps])"

definition sw_token_iter :: "u64 \<Rightarrow> u64 \<Rightarrow> moonem_config \<Rightarrow> sw_token_st \<Rightarrow> u64 \<times> mbuf list \<Rightarrow> (call list \<times> sw_token_st) res" where
  "sw_token_iter hz delay c s = (\<lambda>(recv_timestamp, bufs).
     if bufs = [] then Inr ([], s)
     else let b = sw_bucket s;
              current_tokens = dmin (previous_tokens b + (d_of_u64 recv_timestamp - previous_timestamp b) * SW_TOKEN_RATE hz c)
                                    (d_of_u64 (cfg_capacity c))
          in rbind (filter_loop (sw_token_step c) (current_tokens, sw_token_rand s) bufs) (\<lambda>(bufs_accept, freed, tokens, rand).
               Inr (map Free freed @ enqueue_some (stamp_burst (recv_timestamp + delay) bufs_accept),
                    \<lparr>sw_bucket = \<lparr>previous_timestamp = d_of_u64 recv_timestamp, previous_tokens = tokens\<rparr>,
                     sw_token_rand = rand\<rparr>)))"

definition sw_receiver_loop_rate_token_bucket :: "u64 \<Rightarrow> moonem_config \<Rightarrow> (u64 \<times> mbuf list) list \<Rightarrow> (call list \<times> sw_token_st) res" where
  "sw_receiver_loop_rate_token_bucket hz c inputs =
     rbind (sw_delay hz c) (\<lambda>delay. run_loop (sw_token_iter hz delay c)
       \<lparr>sw_bucket = \<lparr>previous_timestamp = Fin 0, previous_tokens = Fin 0\<rparr>, sw_token_rand = cfg_loss_seed c\<rparr> inputs)"

definition B_P_TSC_TARGET :: "u64 \<Rightarrow> moonem_config \<Rightarrow> double" where
  "B_P_TSC_TARGET hz c = d_of_u64 (cfg_rate c) * Fin 1000000 / d_of_u64 hz"

definition SW_BACKLOG_BOUND :: "u64 \<Rightarrow> moonem_config \<Rightarrow> double" where
  "SW_BACKLOG_BOUND hz c = d_of_u64 (cfg_capacity c) / (B_P_TSC_TARGET hz c / Fin 8)"

definition sw_leaky_step :: "u64 \<Rightarrow> u64 \<Rightarrow> moonem_config \<Rightarrow> double \<times> u64 \<Rightarrow> mbuf \<Rightarrow> (mbuf option \<times> double \<times> u64) res" where
  "sw_leaky_step hz send_time c = (\<lambda>(next_at, loss_state) p.
     let effective_packet_size = d_of_u64 (ucast (wire_len p));
         real_send_time = dmax (d_of_u64 send_time) next_at;
         backlog = real_send_time - d_of_u64 send_time
     in if SW_BACKLOG_BOUND hz c < backlog then Inr (None, next_at, loss_state)
        else let next_at' = real_send_time + (effective_packet_size * Fin 8) / B_P_TSC_TARGET hz c;
                 (lost, loss_state') = sw_lost c loss_state
             in if lost then Inr (None, next_at', loss_state')
                else rbind (u64_of_d real_send_time) (\<lambda>t.
                       Inr (Some (set_burst_size_dynfield (p\<lparr>ts_field := t\<rparr>) 1), next_at', loss_state')))"

record sw_leaky_st =
  sw_next_at :: double
  sw_leaky_rand :: u64

definition sw_leaky_iter :: "u64 \<Rightarrow> u64 \<Rightarrow> moonem_config \<Rightarrow> sw_leaky_st \<Rightarrow> u64 \<times> mbuf list \<Rightarrow> (call list \<times> sw_leaky_st) res" where
  "sw_leaky_iter hz delay c s = (\<lambda>(recv_timestamp, bufs).
     rbind (filter_loop (sw_leaky_step hz (recv_timestamp + delay) c) (sw_next_at s, sw_leaky_rand s) bufs)
       (\<lambda>(bufs_accept, freed, nxt, rand).
          Inr (map Free freed @ enqueue_some bufs_accept, \<lparr>sw_next_at = nxt, sw_leaky_rand = rand\<rparr>)))"

definition sw_receiver_loop_rate_leaky_bucket :: "u64 \<Rightarrow> moonem_config \<Rightarrow> (u64 \<times> mbuf list) list \<Rightarrow> (call list \<times> sw_leaky_st) res" where
  "sw_receiver_loop_rate_leaky_bucket hz c inputs =
     rbind (sw_delay hz c) (\<lambda>delay. run_loop (sw_leaky_iter hz delay c)
       \<lparr>sw_next_at = Fin 0, sw_leaky_rand = cfg_loss_seed c\<rparr> inputs)"

section \<open>Transmit loop\<close>

text \<open>The packets from index \<open>i\<close> on; \<open>out\<close> are the batches sent so far, each with the counter reading
  that released it. A burst size of zero leaves the index where it is.\<close>

partial_function (option) tx_loop :: "(nat \<Rightarrow> u64) \<Rightarrow> nat \<Rightarrow> mbuf list \<Rightarrow> (u64 \<times> mbuf list) list
    \<Rightarrow> ((u64 \<times> mbuf list) list \<times> nat) option" where
  "tx_loop clk k rx_pkts out =
     (if rx_pkts = [] then Some (out, k)
      else Option.bind (tsc_wait clk (ts_field (hd rx_pkts)) k) (\<lambda>k'.
        let packet_burst = min (unat (get_burst_size_dynfield (hd rx_pkts))) (length rx_pkts)
        in tx_loop clk k' (drop packet_burst rx_pkts) (out @ [(clk (k' - 1), take packet_burst rx_pkts)])))"

fun sw_transmitter_loop_delay :: "(nat \<Rightarrow> u64) \<Rightarrow> nat \<Rightarrow> mbuf list list \<Rightarrow> ((u64 \<times> mbuf list) list \<times> nat) option" where
  "sw_transmitter_loop_delay clk k [] = Some ([], k)"
| "sw_transmitter_loop_delay clk k (rx_pkts # rest) =
     Option.bind (tx_loop clk k rx_pkts []) (\<lambda>(out, k').
     Option.bind (sw_transmitter_loop_delay clk k' rest) (\<lambda>(out', k'').
       Some (out @ out', k'')))"

section \<open>Conservation and order\<close>

lemma stamp_burst_mid [simp]: "map mid (stamp_burst t ps) = map mid ps"
  by (induction ps) (auto simp: set_burst_size_dynfield_def)

lemma stamp_burst_length [simp]: "length (stamp_burst t ps) = length ps"
  by (induction ps) auto

lemma enqueue_some_calls [simp]:
  "forwarded (enqueue_some ps) = ps" "trace_ids (enqueue_some ps) = map mid ps"
  by (auto simp: enqueue_some_def)

lemma sw_token_step_same:
  "sw_token_step c s p = Inr (Some q, s') \<Longrightarrow> q = p"
  by (auto simp: sw_token_step_def Let_def split: prod.splits if_splits)

lemma sw_leaky_step_same:
  assumes "sw_leaky_step hz t c s p = Inr (Some q, s')"
  shows "mid q = mid p \<and> pkt_len q = pkt_len p \<and> pkt_data q = pkt_data p \<and> burst_field q = 1"
  using assms by (auto simp: sw_leaky_step_def Let_def res_simps set_burst_size_dynfield_def split: prod.splits if_splits)

interpretation swt: burst_filter "sw_token_step c" "\<lambda>_. True" for c
  by unfold_locales (auto dest: sw_token_step_same)

interpretation swl: burst_filter "sw_leaky_step hz t c" "\<lambda>_. True" for hz t c
  by unfold_locales (auto dest: sw_leaky_step_same)

interpretation sfw: burst_handler "hand_over Send c" "\<lambda>x. x" for c
proof unfold_locales
  fix s x cs s' assume ho: "hand_over Send c s x = Inr (cs, s')"
  show "mset (trace_ids cs) = mset (map mid x)"
    using hand_over_conserve[OF ho] by (simp add: is_out_def)
  show "subseq (map mid (forwarded cs)) (map mid x)"
    using subseq_map[OF hand_over_forwarded[OF ho], of mid] by (simp add: is_out_def)
qed

interpretation sdl: burst_handler "sw_delay_iter delay c" snd for delay c
proof unfold_locales
  fix s x cs s' assume it: "sw_delay_iter delay c s x = Inr (cs, s')"
  show "mset (trace_ids cs) = mset (map mid (snd x))"
    using it by (cases x) (auto simp: sw_delay_iter_def res_simps add.commute dest!: applyLoss_conserve split: if_splits)
  show "subseq (map mid (forwarded cs)) (map mid (snd x))"
    using it by (cases x) (auto simp: sw_delay_iter_def res_simps dest!: applyLoss_order split: if_splits)
qed

lemma filter_enqueue:
  assumes "subseq (map mid acc) (map mid bufs)" "mset (map mid acc) + mset (map mid freed) = mset (map mid bufs)"
    and "map mid out = map mid acc"
  shows "mset (trace_ids (map Free freed @ enqueue_some out)) = mset (map mid bufs)"
    "subseq (map mid (forwarded (map Free freed @ enqueue_some out))) (map mid bufs)"
  using assms by (simp_all add: add.commute)

interpretation stk: burst_handler "sw_token_iter hz delay c" snd for hz delay c
proof unfold_locales
  fix s x cs s' assume it: "sw_token_iter hz delay c s x = Inr (cs, s')"
  obtain t bufs where x: "x = (t, bufs)" by (cases x)
  have "mset (trace_ids cs) = mset (map mid bufs) \<and> subseq (map mid (forwarded cs)) (map mid bufs)"
  proof (cases "bufs = []")
    case False
    then obtain b0 acc freed b1 where loop: "filter_loop (sw_token_step c) b0 bufs = Inr (acc, freed, b1)"
        and cs: "cs = map Free freed @ enqueue_some (stamp_burst (t + delay) acc)"
      using it by (auto simp: x sw_token_iter_def Let_def res_simps)
    show ?thesis
      unfolding cs using filter_enqueue[OF swt.loop_order[OF loop] swt.loop_conserve[OF loop] stamp_burst_mid] by blast
  qed (use it in \<open>simp add: x sw_token_iter_def\<close>)
  then show "mset (trace_ids cs) = mset (map mid (snd x))" "subseq (map mid (forwarded cs)) (map mid (snd x))"
    by (simp_all add: x)
qed

interpretation slk: burst_handler "sw_leaky_iter hz delay c" snd for hz delay c
proof unfold_locales
  fix s x cs s' assume it: "sw_leaky_iter hz delay c s x = Inr (cs, s')"
  obtain t bufs where x: "x = (t, bufs)" by (cases x)
  from it obtain b0 acc freed b1 where loop: "filter_loop (sw_leaky_step hz (t + delay) c) b0 bufs = Inr (acc, freed, b1)"
      and cs: "cs = map Free freed @ enqueue_some acc"
    by (auto simp: x sw_leaky_iter_def res_simps)
  show "mset (trace_ids cs) = mset (map mid (snd x))" "subseq (map mid (forwarded cs)) (map mid (snd x))"
    unfolding cs x snd_conv using filter_enqueue[OF swl.loop_order[OF loop] swl.loop_conserve[OF loop] refl] by blast+
qed

section \<open>The transmit loop\<close>

text \<open>\<open>released out\<close>: no batch before the stamp of its first packet.\<close>

definition released :: "(u64 \<times> mbuf list) list \<Rightarrow> bool" where
  "released out \<longleftrightarrow> (\<forall>(t, ps)\<in>set out. ps \<noteq> [] \<and> ts_field (hd ps) \<le> t)"

lemma tx_loop_returns:
  assumes "\<forall>p\<in>set ps. burst_field p \<noteq> 0 \<and> clock_reaches clk (ts_field p)"
  shows "\<exists>out' k'. tx_loop clk k ps out = Some (out @ out', k') \<and> concat (map snd out') = ps \<and> released out' \<and>
    (\<forall>(t, c)\<in>set out'. \<exists>xs ys. ps = xs @ c @ ys \<and> length c = min (unat (burst_field (hd c))) (length (c @ ys)))"
  using assms
proof (induction "length ps" arbitrary: ps k out rule: less_induct)
  case less
  show ?case
  proof (cases "ps = []")
    case True
    then show ?thesis by (subst tx_loop.simps) (simp add: released_def)
  next
    case False
    then have hd: "hd ps \<in> set ps" by simp
    obtain k1 where k1: "tsc_wait clk (ts_field (hd ps)) k = Some k1" "ts_field (hd ps) \<le> clk (k1 - 1)"
      using tsc_wait_returns less.prems hd by blast
    define b where "b = min (unat (burst_field (hd ps))) (length ps)"
    have "unat (burst_field (hd ps)) \<noteq> 0" using less.prems hd by (simp add: unat_eq_zero)
    then have b: "0 < b" "b \<le> length ps" using False by (auto simp: b_def)
    have sub: "\<forall>p\<in>set (drop b ps). burst_field p \<noteq> 0 \<and> clock_reaches clk (ts_field p)"
      using less.prems set_drop_subset[of b ps] by blast
    have "length (drop b ps) < length ps" using b False by simp
    from less.hyps[OF this sub, of k1 "out @ [(clk (k1 - 1), take b ps)]"] obtain out' k' where
      rest: "tx_loop clk k1 (drop b ps) (out @ [(clk (k1 - 1), take b ps)]) = Some ((out @ [(clk (k1 - 1), take b ps)]) @ out', k')"
        "concat (map snd out') = drop b ps" "released out'" and
      chunks: "\<forall>(t, c)\<in>set out'. \<exists>xs ys. drop b ps = xs @ c @ ys \<and> length c = min (unat (burst_field (hd c))) (length (c @ ys))"
      by blast
    have "tx_loop clk k ps out = Some (out @ (clk (k1 - 1), take b ps) # out', k')"
      using False k1(1) rest(1)
      by (subst tx_loop.simps) (simp add: Let_def get_burst_size_dynfield_def b_def)
    moreover have "concat (map snd ((clk (k1 - 1), take b ps) # out')) = ps" using rest(2) by simp
    moreover have "hd (take b ps) = hd ps" "take b ps \<noteq> []" using b False by (auto simp: hd_take)
    moreover have "\<exists>xs ys. ps = xs @ take b ps @ ys \<and> length (take b ps) = min (unat (burst_field (hd (take b ps)))) (length (take b ps @ ys))"
      using b False by (intro exI[of _ "[]"] exI[of _ "drop b ps"]) (simp add: hd_take b_def)
    moreover have "\<exists>xs ys. ps = xs @ c @ ys \<and> length c = min (unat (burst_field (hd c))) (length (c @ ys))"
      if "(t, c) \<in> set out'" for t c
    proof -
      from chunks that obtain xs ys where "drop b ps = xs @ c @ ys" "length c = min (unat (burst_field (hd c))) (length (c @ ys))"
        by blast
      then have "ps = (take b ps @ xs) @ c @ ys" by (metis append_take_drop_id append_assoc)
      with \<open>length c = _\<close> show ?thesis by blast
    qed
    ultimately show ?thesis using rest(3) k1(2)
      by (intro exI[of _ "(clk (k1 - 1), take b ps) # out'"] exI[of _ k']) (auto simp: released_def)
  qed
qed

text \<open>The packets that a burst size announces have the stamp of the packet that announces them.\<close>

fun coherent :: "mbuf list \<Rightarrow> bool" where
  "coherent [] = True"
| "coherent (p # ps) = (burst_field p \<noteq> 0 \<and> (\<forall>q\<in>set (take (unat (burst_field p) - 1) ps). ts_field q = ts_field p) \<and> coherent ps)"

text \<open>In addition, they are all in the list: what one enqueue operation of a receive loop holds.\<close>

fun burst_closed :: "mbuf list \<Rightarrow> bool" where
  "burst_closed [] = True"
| "burst_closed (p # ps) = (burst_field p \<noteq> 0 \<and> unat (burst_field p) \<le> Suc (length ps) \<and>
     (\<forall>q\<in>set (take (unat (burst_field p) - 1) ps). ts_field q = ts_field p) \<and> burst_closed ps)"

lemma coherent_closed_append: "burst_closed xs \<Longrightarrow> coherent ys \<Longrightarrow> coherent (xs @ ys)"
  by (induction xs) auto

lemma coherent_appendD: "coherent (xs @ ys) \<Longrightarrow> coherent xs \<and> coherent ys"
  by (induction xs) auto

lemma coherent_burst: "coherent ps \<Longrightarrow> p \<in> set ps \<Longrightarrow> burst_field p \<noteq> 0"
  by (induction ps) auto

lemma coherent_chunk:
  assumes "coherent (xs @ c @ ys)" "length c \<le> unat (burst_field (hd c))" "q \<in> set c"
  shows "ts_field q = ts_field (hd c)"
proof (cases c)
  case (Cons p c')
  have "coherent (p # c' @ ys)" using assms(1) Cons by (auto dest: coherent_appendD)
  moreover have "set c' \<subseteq> set (take (unat (burst_field p) - 1) (c' @ ys))" using assms(2) Cons by simp
  ultimately show ?thesis using assms(3) Cons by auto
qed (use assms in simp)

lemma stamp_burst_ts: "q \<in> set (stamp_burst t ps) \<Longrightarrow> ts_field q = t"
  by (induction ps) (auto simp: set_burst_size_dynfield_def)

lemma stamp_burst_closed: "length ps < 2 ^ 32 \<Longrightarrow> burst_closed (stamp_burst t ps)"
proof (induction ps)
  case (Cons p ps)
  have "unat (burst_field (hd (stamp_burst t (p # ps)))) = Suc (length ps)"
    using Cons.prems by (simp add: set_burst_size_dynfield_def unsigned_ucast_eq unat_of_nat take_bit_nat_eq_self
        flip: of_nat_Suc)
  moreover have "ts_field (hd (stamp_burst t (p # ps))) = t" by (simp add: set_burst_size_dynfield_def)
  ultimately show ?case using Cons stamp_burst_ts by (fastforce simp: unat_eq_zero[symmetric] dest: in_set_takeD)
qed simp

text \<open>The contract between a receive loop and the transmit loop: every iteration enqueues closed
  bursts. Then the ring is coherent, wherever the transmit loop cuts it.\<close>

locale ring_feeder = burst_handler iter snd
  for iter :: "'s \<Rightarrow> u64 \<times> mbuf list \<Rightarrow> (call list \<times> 's) res" +
  assumes iter_closed: "iter s x = Inr (cs, s') \<Longrightarrow> length (snd x) \<le> BURST_SIZE \<Longrightarrow> burst_closed (forwarded cs)"
begin

lemma run_coherent:
  "run_loop iter s xs = Inr (cs, t) \<Longrightarrow> \<forall>x\<in>set xs. length (snd x) \<le> BURST_SIZE \<Longrightarrow> coherent (forwarded cs)"
proof (induction xs arbitrary: s cs)
  case (Cons x xs)
  then show ?case by (auto simp: run_loop_Cons intro!: coherent_closed_append dest: iter_closed)
qed simp

end

lemma sw_delay_iter_closed:
  assumes "sw_delay_iter delay c ls x = Inr (cs, ls')" "length (snd x) \<le> BURST_SIZE"
  shows "burst_closed (forwarded cs)"
proof -
  have "length acc \<le> BURST_SIZE" if "applyLoss c ls (snd x) = Inr (acc, freed, ls'')" for acc freed ls''
    using list_emb_length[OF applyLoss_subseq[OF that]] assms(2) by simp
  then show ?thesis
    using assms by (cases x) (force simp: sw_delay_iter_def res_simps intro!: stamp_burst_closed split: if_splits)
qed

lemma sw_token_iter_closed:
  assumes "sw_token_iter hz delay c s x = Inr (cs, s')" "length (snd x) \<le> BURST_SIZE"
  shows "burst_closed (forwarded cs)"
proof (cases "snd x = []")
  case False
  then obtain b0 acc freed b1 where loop: "filter_loop (sw_token_step c) b0 (snd x) = Inr (acc, freed, b1)"
      and cs: "cs = map Free freed @ enqueue_some (stamp_burst (fst x + delay) acc)"
    using assms(1) by (cases x) (auto simp: sw_token_iter_def Let_def res_simps)
  have "length acc < 2 ^ 32" using swt.loop_length[OF loop] assms(2) by simp
  then show ?thesis by (simp add: cs stamp_burst_closed)
qed (use assms in \<open>cases x, simp add: sw_token_iter_def\<close>)

lemma closed_ones: "\<forall>p\<in>set ps. burst_field p = 1 \<Longrightarrow> burst_closed ps"
  by (induction ps) auto

lemma sw_leaky_iter_closed:
  assumes "sw_leaky_iter hz delay c s x = Inr (cs, s')"
  shows "burst_closed (forwarded cs)"
proof -
  have ones: "filter_loop (sw_leaky_step hz t c) b0 ps = Inr (acc, freed, b1) \<Longrightarrow> \<forall>p\<in>set acc. burst_field p = 1"
    for t b0 ps acc freed b1
    by (induction ps arbitrary: b0 acc freed) (auto simp: res_simps split: option.splits dest: sw_leaky_step_same)
  show ?thesis using assms by (cases x) (auto simp: sw_leaky_iter_def res_simps intro!: closed_ones dest: ones)
qed

interpretation rdl: ring_feeder "sw_delay_iter delay c" for delay c
  by unfold_locales (rule sw_delay_iter_closed)

interpretation rtk: ring_feeder "sw_token_iter hz delay c" for hz delay c
  by unfold_locales (rule sw_token_iter_closed)

interpretation rlk: ring_feeder "sw_leaky_iter hz delay c" for hz delay c
  by unfold_locales (rule sw_leaky_iter_closed)

lemma transmitter_returns:
  assumes "\<forall>p\<in>set (concat chunks). clock_reaches clk (ts_field p)" "coherent (concat chunks)"
  shows "\<exists>out k'. sw_transmitter_loop_delay clk k chunks = Some (out, k') \<and> concat (map snd out) = concat chunks \<and>
    (\<forall>(t, ps)\<in>set out. ps \<noteq> [] \<and> (\<forall>p\<in>set ps. ts_field p \<le> t))"
  using assms
proof (induction chunks arbitrary: k)
  case (Cons c cs)
  have coh: "coherent c" "coherent (concat cs)" using Cons.prems(2) coherent_appendD[of c "concat cs"] by auto
  have "\<forall>p\<in>set c. burst_field p \<noteq> 0 \<and> clock_reaches clk (ts_field p)"
    using Cons.prems(1) coherent_burst[OF coh(1)] by auto
  from tx_loop_returns[OF this, of k "[]"] obtain out k1 where
    out: "tx_loop clk k c [] = Some (out, k1)" "concat (map snd out) = c" "released out" and
    chunk: "\<forall>(t, d)\<in>set out. \<exists>xs ys. c = xs @ d @ ys \<and> length d = min (unat (burst_field (hd d))) (length (d @ ys))"
    by auto
  have early: "\<forall>(t, ps)\<in>set out. ps \<noteq> [] \<and> (\<forall>p\<in>set ps. ts_field p \<le> t)"
  proof clarify
    fix t ps assume o: "(t, ps) \<in> set out"
    with chunk obtain xs ys where c: "c = xs @ ps @ ys" and "length ps = min (unat (burst_field (hd ps))) (length (ps @ ys))"
      by blast
    then have len: "length ps \<le> unat (burst_field (hd ps))" by linarith
    have "ts_field p = ts_field (hd ps)" if "p \<in> set ps" for p
      by (rule coherent_chunk[OF coh(1)[unfolded c] len that])
    moreover have "ps \<noteq> [] \<and> ts_field (hd ps) \<le> t" using bspec[OF out(3)[unfolded released_def] o] by simp
    ultimately show "ps \<noteq> [] \<and> (\<forall>p\<in>set ps. ts_field p \<le> t)" by metis
  qed
  obtain out2 k2 where "sw_transmitter_loop_delay clk k1 cs = Some (out2, k2)" "concat (map snd out2) = concat cs"
      "\<forall>(t, ps)\<in>set out2. ps \<noteq> [] \<and> (\<forall>p\<in>set ps. ts_field p \<le> t)"
    using Cons.IH[OF _ coh(2), of k1] Cons.prems(1) by auto
  then show ?case using out early by (intro exI[of _ "out @ out2"] exI[of _ k2]) auto
qed simp

section \<open>The path through the ring\<close>

text \<open>The calls one of the three receive loops that feed the ring has made.\<close>

definition sw_receives :: "u64 \<Rightarrow> moonem_config \<Rightarrow> (u64 \<times> mbuf list) list \<Rightarrow> call list \<Rightarrow> bool" where
  "sw_receives hz c inputs cs \<longleftrightarrow> (\<exists>s. sw_receiver_loop_delay hz c inputs = Inr (cs, s)) \<or>
     (\<exists>s. sw_receiver_loop_rate_token_bucket hz c inputs = Inr (cs, s)) \<or>
     (\<exists>s. sw_receiver_loop_rate_leaky_bucket hz c inputs = Inr (cs, s))"

lemmas sw_loop_defs = sw_receiver_loop_delay_def sw_receiver_loop_rate_token_bucket_def
  sw_receiver_loop_rate_leaky_bucket_def

lemma sw_receives_cases:
  assumes "sw_receives hz c inputs cs"
  obtains (delay) d t where "run_loop (sw_delay_iter d c) (init_loss c) inputs = Inr (cs, t)"
    | (token) d s t where "run_loop (sw_token_iter hz d c) s inputs = Inr (cs, t)"
    | (leaky) d s t where "run_loop (sw_leaky_iter hz d c) s inputs = Inr (cs, t)"
  using assms unfolding sw_receives_def sw_loop_defs rbind_Inr_iff by blast

lemma sw_receives_coherent:
  assumes "sw_receives hz c inputs cs" "\<forall>x\<in>set inputs. length (snd x) \<le> BURST_SIZE"
  shows "coherent (forwarded cs)"
  using assms(1)
  by (cases rule: sw_receives_cases) (erule rdl.run_coherent[OF _ assms(2)] rtk.run_coherent[OF _ assms(2)] rlk.run_coherent[OF _ assms(2)])+

lemma sw_receives_exact:
  assumes "sw_receives hz c inputs cs"
  shows "mset (trace_ids cs) = mset (map mid (concat (map snd inputs)))"
  using assms by (cases rule: sw_receives_cases) (erule sdl.run_exact stk.run_exact slk.run_exact)+

lemma sw_receives_in_order:
  assumes "sw_receives hz c inputs cs"
  shows "subseq (map mid (forwarded cs)) (map mid (concat (map snd inputs)))"
  using assms by (cases rule: sw_receives_cases) (erule sdl.run_in_order stk.run_in_order slk.run_in_order)+

text \<open>(C12) The software path delivers: for each of the three receive loops that stamp packets, however
  the ring cuts its content into dequeued bursts, if the counter reaches the stamps, then the
  transmit loop returns from all of its waits, sends every packet that was put into the ring,
  each once and in the order of the ring, and never sends a packet at a reading below its stamp.\<close>

theorem sw_path_delivers:
  assumes "sw_receives hz c inputs cs" "\<forall>x\<in>set inputs. length (snd x) \<le> BURST_SIZE"
    and "concat chunks = forwarded cs" "\<forall>p\<in>set (forwarded cs). clock_reaches clk (ts_field p)"
  shows "\<exists>out k'. sw_transmitter_loop_delay clk k chunks = Some (out, k') \<and> concat (map snd out) = forwarded cs \<and>
    (\<forall>(t, ps)\<in>set out. ps \<noteq> [] \<and> (\<forall>p\<in>set ps. ts_field p \<le> t))"
  using transmitter_returns[of chunks clk k] sw_receives_coherent[OF assms(1,2)] assms(3,4) by simp

definition ex_sw_cfg :: moonem_config where
  "ex_sw_cfg = (ex_cfg NONE [])\<lparr>cfg_delay := 2000000000\<rparr>"

definition ex_sw_in :: "(u64 \<times> mbuf list) list" where
  "ex_sw_in = [(500, [ex_pkt 0, ex_pkt 1]), (900, []), (1000, [ex_pkt 2])]"

definition ex_sw_ring :: "mbuf list" where
  "ex_sw_ring = [(ex_pkt 0)\<lparr>ts_field := 2500, burst_field := 2\<rparr>, (ex_pkt 1)\<lparr>ts_field := 2500, burst_field := 1\<rparr>,
     (ex_pkt 2)\<lparr>ts_field := 3000, burst_field := 1\<rparr>]"

definition ex_clk :: "nat \<Rightarrow> u64" where
  "ex_clk k = (if k < 5 then 1000 * of_nat k else 10000)"

lemma ex_clk_reaches: "t \<le> 10000 \<Longrightarrow> clock_reaches ex_clk t"
  unfolding clock_reaches_def by (metis ex_clk_def le_add2 not_add_less1)

lemma ex_sw_delay: "sw_delay 1000 ex_sw_cfg = Inr 2000"
  by (simp add: sw_delay_def ex_sw_cfg_def ex_cfg_def double_eval)

lemma ex_sw_run:
  "sw_receiver_loop_delay 1000 ex_sw_cfg ex_sw_in =
     Inr ([Enqueue (take 2 ex_sw_ring), Enqueue (drop 2 ex_sw_ring)], init_loss ex_sw_cfg)"
  unfolding sw_receiver_loop_delay_def ex_sw_delay
  by (simp add: run_loop.simps sw_delay_iter_def ex_sw_in_def ex_sw_ring_def set_burst_size_dynfield_def
      ex_sw_cfg_def ex_cfg_def)

theorem sw_path_delivers_witness:
  "\<exists>out k'. sw_transmitter_loop_delay ex_clk 0 [take 1 ex_sw_ring, [], drop 1 ex_sw_ring] = Some (out, k') \<and>
    concat (map snd out) = ex_sw_ring \<and> (\<forall>(t, ps)\<in>set out. ps \<noteq> [] \<and> (\<forall>p\<in>set ps. ts_field p \<le> t))"
proof -
  let ?cs = "[Enqueue (take 2 ex_sw_ring), Enqueue (drop 2 ex_sw_ring)]"
  have run: "sw_receives 1000 ex_sw_cfg ex_sw_in ?cs" using ex_sw_run unfolding sw_receives_def by blast
  have len: "\<forall>x\<in>set ex_sw_in. length (snd x) \<le> BURST_SIZE" by (simp add: ex_sw_in_def)
  have ring: "concat [take 1 ex_sw_ring, [], drop 1 ex_sw_ring] = forwarded ?cs" by simp
  have clk: "\<forall>p\<in>set (forwarded ?cs). clock_reaches ex_clk (ts_field p)"
    by (simp add: ex_sw_ring_def ex_clk_reaches)
  have f: "forwarded ?cs = ex_sw_ring" by simp
  show ?thesis using sw_path_delivers[OF run len ring clk, of 0] unfolding f .
qed

lemma sw_delay_run_stamps:
  assumes "cfg_loss_type c = NONE"
  shows "run_loop (sw_delay_iter delay c) ls inputs =
     Inr (concat (map (\<lambda>(t, ps). if ps = [] then [] else [Enqueue (stamp_burst (t + delay) ps)]) inputs), ls)"
  by (induction inputs) (auto simp: run_loop.simps sw_delay_iter_def assms)

lemma forwarded_concat: "forwarded (concat css) = concat (map forwarded css)"
  by (induction css) auto

lemma stamp_burst_mem: "p \<in> set ps \<Longrightarrow> \<exists>q\<in>set (stamp_burst t ps). mid q = mid p \<and> ts_field q = t"
  by (induction ps) (auto simp: set_burst_size_dynfield_def)

text \<open>(C13) A constant delay without loss: the delay loop has no undefined behaviour, and when its ring
  is drained by the transmit loop, all received packets leave, in the order of their arrival and
  none before the counter has advanced by the configured delay from the burst's arrival.\<close>

theorem sw_delay_end_to_end:
  assumes "cfg_loss_type c = NONE" "sw_delay hz c = Inr delay" "\<forall>x\<in>set inputs. length (snd x) \<le> BURST_SIZE"
    and "\<forall>x\<in>set inputs. clock_reaches clk (fst x + delay)"
  shows "\<exists>cs ls. sw_receiver_loop_delay hz c inputs = Inr (cs, ls) \<and>
    (\<forall>chunks. concat chunks = forwarded cs \<longrightarrow>
      (\<exists>out k'. sw_transmitter_loop_delay clk k chunks = Some (out, k') \<and>
         map mid (concat (map snd out)) = map mid (concat (map snd inputs)) \<and>
         (\<forall>(t, ps)\<in>set inputs. \<forall>p\<in>set ps. \<exists>(r, qs)\<in>set out. \<exists>q\<in>set qs. mid q = mid p \<and> t + delay \<le> r)))"
proof -
  let ?cs = "concat (map (\<lambda>(t, ps). if ps = [] then [] else [Enqueue (stamp_burst (t + delay) ps)]) inputs)"
  have run: "sw_receiver_loop_delay hz c inputs = Inr (?cs, init_loss c)"
    by (simp add: sw_receiver_loop_delay_def assms(2) sw_delay_run_stamps[OF assms(1)])
  have fw: "forwarded ?cs = concat (map (\<lambda>(t, ps). stamp_burst (t + delay) ps) inputs)"
    by (induction inputs) auto
  have ids: "map mid (forwarded ?cs) = map mid (concat (map snd inputs))"
    unfolding fw by (induction inputs) auto
  have coh: "coherent (forwarded ?cs)"
    using run by (intro sw_receives_coherent[OF _ assms(3)]) (auto simp: sw_receives_def)
  have clk: "\<forall>p\<in>set (forwarded ?cs). clock_reaches clk (ts_field p)"
  proof
    fix q assume "q \<in> set (forwarded ?cs)"
    then obtain t ps where "(t, ps) \<in> set inputs" "q \<in> set (stamp_burst (t + delay) ps)" unfolding fw by auto
    then show "clock_reaches clk (ts_field q)" using assms(4) stamp_burst_ts by fastforce
  qed
  have inner: "\<exists>out k'. sw_transmitter_loop_delay clk k chunks = Some (out, k') \<and>
         map mid (concat (map snd out)) = map mid (concat (map snd inputs)) \<and>
         (\<forall>(t, ps)\<in>set inputs. \<forall>p\<in>set ps. \<exists>(r, qs)\<in>set out. \<exists>q\<in>set qs. mid q = mid p \<and> t + delay \<le> r)"
    if ch: "concat chunks = forwarded ?cs" for chunks
  proof -
    from transmitter_returns[of chunks clk k] coh clk ch obtain out k' where
      out: "sw_transmitter_loop_delay clk k chunks = Some (out, k')" "concat (map snd out) = forwarded ?cs"
        "\<forall>(t, ps)\<in>set out. ps \<noteq> [] \<and> (\<forall>p\<in>set ps. ts_field p \<le> t)" by auto
    have "\<exists>(r, qs)\<in>set out. \<exists>q\<in>set qs. mid q = mid p \<and> t + delay \<le> r" if inp: "(t, ps) \<in> set inputs" "p \<in> set ps" for t ps p
    proof -
      obtain q where q: "q \<in> set (stamp_burst (t + delay) ps)" "mid q = mid p" "ts_field q = t + delay"
        using stamp_burst_mem[OF inp(2)] by blast
      then have "q \<in> set (concat (map snd out))" unfolding out(2) fw using inp(1) by force
      then obtain r qs where r: "(r, qs) \<in> set out" "q \<in> set qs" by auto
      then have "t + delay \<le> r" using bspec[OF out(3) r(1)] q(3) by auto
      then show ?thesis using r q(2) by (intro bexI[OF _ r(1)]) auto
    qed
    then show ?thesis using out(1,2) ids by (intro exI[of _ out] exI[of _ k']) auto
  qed
  show ?thesis by (intro exI[of _ ?cs] exI[of _ "init_loss c"] conjI allI impI run inner)
qed

theorem sw_delay_end_to_end_witness:
  "\<exists>cs ls. sw_receiver_loop_delay 1000 ex_sw_cfg ex_sw_in = Inr (cs, ls) \<and>
    (\<exists>out k'. sw_transmitter_loop_delay ex_clk 0 [forwarded cs] = Some (out, k') \<and>
         map mid (concat (map snd out)) = [0, 1, 2])"
proof -
  have none: "cfg_loss_type ex_sw_cfg = NONE" by (simp add: ex_sw_cfg_def ex_cfg_def)
  have len: "\<forall>x\<in>set ex_sw_in. length (snd x) \<le> BURST_SIZE" by (simp add: ex_sw_in_def)
  have clk: "\<forall>x\<in>set ex_sw_in. clock_reaches ex_clk (fst x + 2000)" by (simp add: ex_sw_in_def ex_clk_reaches)
  have ids: "map mid (concat (map snd ex_sw_in)) = [0, 1, 2]" by (simp add: ex_sw_in_def ex_pkt_def)
  obtain cs ls where cs: "sw_receiver_loop_delay 1000 ex_sw_cfg ex_sw_in = Inr (cs, ls)" and
    all: "\<forall>chunks. concat chunks = forwarded cs \<longrightarrow> (\<exists>out k'. sw_transmitter_loop_delay ex_clk 0 chunks = Some (out, k') \<and>
         map mid (concat (map snd out)) = [0, 1, 2] \<and>
         (\<forall>(t, ps)\<in>set ex_sw_in. \<forall>p\<in>set ps. \<exists>(r, qs)\<in>set out. \<exists>q\<in>set qs. mid q = mid p \<and> t + 2000 \<le> r))"
    using sw_delay_end_to_end[OF none ex_sw_delay len clk, of 0] unfolding ids by blast
  have "concat [forwarded cs] = forwarded cs" by simp
  from all[rule_format, OF this] obtain out k' where
    "sw_transmitter_loop_delay ex_clk 0 [forwarded cs] = Some (out, k')" "map mid (concat (map snd out)) = [0, 1, 2]"
    by (elim exE conjE)
  with cs show ?thesis by (intro exI conjI)
qed

section \<open>The rate limiters\<close>

text \<open>The two software rate limiters do not look at the loss model: their runs are the runs for
  a configuration without one, with whatever parameters. Only the uniform loss rate counts, which
  is zero when a Gilbert-Elliott or a four-state model is configured.\<close>

theorem sw_rate_ignores_loss_model:
  "sw_receiver_loop_rate_token_bucket hz (c\<lparr>cfg_loss_type := lt, cfg_params := ps\<rparr>) inputs =
     sw_receiver_loop_rate_token_bucket hz (c\<lparr>cfg_loss_type := NONE, cfg_params := []\<rparr>) inputs \<and>
   sw_receiver_loop_rate_leaky_bucket hz (c\<lparr>cfg_loss_type := lt, cfg_params := ps\<rparr>) inputs =
     sw_receiver_loop_rate_leaky_bucket hz (c\<lparr>cfg_loss_type := NONE, cfg_params := []\<rparr>) inputs"
proof -
  let ?c = "c\<lparr>cfg_loss_type := lt, cfg_params := ps\<rparr>" let ?d = "c\<lparr>cfg_loss_type := NONE, cfg_params := []\<rparr>"
  have lost: "sw_lost ?c = sw_lost ?d" by (rule ext) (simp add: sw_lost_def)
  have rate: "SW_TOKEN_RATE hz ?c = SW_TOKEN_RATE hz ?d" by (simp add: SW_TOKEN_RATE_def)
  have capac: "cfg_capacity ?c = cfg_capacity ?d" by simp
  have tok: "sw_token_step ?c = sw_token_step ?d" unfolding sw_token_step_def lost by simp
  have target: "B_P_TSC_TARGET hz ?c = B_P_TSC_TARGET hz ?d" by (simp add: B_P_TSC_TARGET_def)
  then have bound: "SW_BACKLOG_BOUND hz ?c = SW_BACKLOG_BOUND hz ?d" by (simp add: SW_BACKLOG_BOUND_def)
  have leak: "sw_leaky_step hz t ?c = sw_leaky_step hz t ?d" for t
    unfolding sw_leaky_step_def lost target bound ..
  have "sw_token_iter hz delay ?c = sw_token_iter hz delay ?d" "sw_leaky_iter hz delay ?c = sw_leaky_iter hz delay ?d" for delay
    unfolding sw_token_iter_def sw_leaky_iter_def tok leak rate capac by (rule refl)+
  then show ?thesis by (simp add: sw_loop_defs sw_delay_def)
qed

abbreviation sw_cap :: "moonem_config \<Rightarrow> rat" where
  "sw_cap c \<equiv> rnd (rval (cfg_capacity c))"

text \<open>The bucket after a burst received at counter value \<open>t\<close>.\<close>

definition sw_bucket_at :: "moonem_config \<Rightarrow> u64 \<Rightarrow> bucket \<Rightarrow> bool" where
  "sw_bucket_at c t b \<longleftrightarrow> previous_timestamp b = Fin (rnd (rval t)) \<and>
     (\<exists>k. previous_tokens b = Fin k \<and> 0 \<le> k \<and> k \<le> sw_cap c \<and> rnd k = k)"

definition sw_tokens_ok :: "moonem_config \<Rightarrow> double \<times> u64 \<Rightarrow> bool" where
  "sw_tokens_ok c s \<longleftrightarrow> (\<exists>k. fst s = Fin k \<and> 0 \<le> k \<and> k \<le> sw_cap c \<and> rnd k = k)"

lemma sw_rate_fin:
  assumes "0 < hz"
  shows "\<exists>R. SW_TOKEN_RATE hz c = Fin R \<and> 0 \<le> R \<and> R \<le> 2 ^ 100"
proof -
  let ?r = "rnd (rval (cfg_rate c))" let ?h = "rnd (rval hz)"
  have h: "1 \<le> ?h" using rval_ge1[OF assms] by (intro b64.fl_ge_rep) simp_all
  have r: "0 \<le> ?r" "?r \<le> 2 ^ 64" using rval_rnd_le_u64[of "cfg_rate c"] by (simp_all add: b64.fl_ge0)
  define q where "q = rnd (?r / 8)"
  have 1: "Fin ?r / Fin 8 = Fin q" unfolding q_def using r by (intro fin_div) simp_all
  have q: "0 \<le> q" "q \<le> 2 ^ 64" unfolding q_def using r rnd_nat_pow2[of 64] by (auto intro!: b64.fl_ge0 b64.fl_le_rep)
  define u where "u = rnd (q / ?h)"
  have 2: "Fin q / Fin ?h = Fin u" unfolding u_def using q h by (intro fin_div) (simp_all add: order.trans[of _ 1])
  have "q / ?h \<le> q / 1" using q h by (intro divide_left_mono) auto
  then have "q / ?h \<le> 2 ^ 64" using q by simp
  then have u: "0 \<le> u" "u \<le> 2 ^ 64" unfolding u_def using q h rnd_nat_pow2[of 64] by (auto intro!: b64.fl_ge0 b64.fl_le_rep)
  have 3: "Fin u * Fin 1000000 = Fin (rnd (u * 1000000))" using u by (intro fin_small) simp_all
  have "rnd (u * 1000000) \<le> 2 ^ 100" using u rnd_nat_pow2[of 100] by (intro b64.fl_le_rep) simp_all
  moreover have "0 \<le> rnd (u * 1000000)" using u by (intro b64.fl_ge0) simp
  ultimately show ?thesis unfolding SW_TOKEN_RATE_def d_of_u64_fin 1 2 3 by blast
qed

lemma sw_refill:
  assumes "0 < hz" "sw_bucket_at c t b" "t \<le> t'"
  shows "sw_tokens_ok c (dmin (previous_tokens b + (d_of_u64 t' - previous_timestamp b) * SW_TOKEN_RATE hz c) (d_of_u64 (cfg_capacity c)), r)"
proof -
  obtain k where k: "previous_tokens b = Fin k" "0 \<le> k" "k \<le> sw_cap c" "previous_timestamp b = Fin (rnd (rval t))"
    using assms(2) by (auto simp: sw_bucket_at_def)
  obtain R where R: "SW_TOKEN_RATE hz c = Fin R" "0 \<le> R" "R \<le> 2 ^ 100" using sw_rate_fin[OF assms(1)] by blast
  have cap: "0 \<le> sw_cap c" "sw_cap c \<le> 2 ^ 64" using rval_rnd_le_u64[of "cfg_capacity c"] by (simp_all add: b64.fl_ge0)
  have tb: "0 \<le> rnd (rval t)" "rnd (rval t') \<le> 2 ^ 64" "rnd (rval t) \<le> rnd (rval t')"
    using rval_rnd_le_u64[of t'] assms(3) by (auto intro!: b64.fl_ge0 rnd_mono simp: rval_le_iff)
  define d where "d = rnd (rnd (rval t') - rnd (rval t))"
  have 1: "Fin (rnd (rval t')) - Fin (rnd (rval t)) = Fin d" unfolding d_def using tb by (intro fin_small) auto
  have d: "0 \<le> d" "d \<le> 2 ^ 64" unfolding d_def using tb rnd_nat_pow2[of 64] by (auto intro!: b64.fl_ge0 b64.fl_le_rep)
  define e where "e = rnd (d * R)"
  have 2: "Fin d * Fin R = Fin e" unfolding e_def using d R by (intro fin_small) auto
  have "d * R \<le> 2 ^ 64 * 2 ^ 100" using d R by (intro mult_mono) auto
  then have "d * R \<le> 2 ^ 164" by simp
  then have e: "0 \<le> e" "e \<le> 2 ^ 164" unfolding e_def using d R rnd_nat_pow2[of 164] by (auto intro!: b64.fl_ge0 b64.fl_le_rep)
  have 3: "Fin k + Fin e = Fin (rnd (k + e))" using k e cap by (intro fin_small) auto
  have "0 \<le> rnd (k + e)" using k e by (intro b64.fl_ge0) simp
  then show ?thesis
    unfolding sw_tokens_ok_def k(1,4) d_of_u64_fin R(1) 1 2 3 using cap(1) by (auto simp: dmin_def)
qed

lemma sw_token_step_total:
  assumes "sw_tokens_ok c s"
  shows "\<exists>r s'. sw_token_step c s p = Inr (r, s') \<and> sw_tokens_ok c s'"
proof -
  obtain k rand where s: "s = (Fin k, rand)" and k: "0 \<le> k" "k \<le> sw_cap c" "rnd k = k"
    using assms by (cases s) (auto simp: sw_tokens_ok_def)
  define w where "w = rnd (rval (ucast (wire_len p) :: u64))"
  have w: "d_of_u64 (ucast (wire_len p)) = Fin w" "0 \<le> w" by (simp_all add: w_def d_of_u64_fin b64.fl_ge0)
  have "sw_cap c \<le> 2 ^ 64" "w \<le> 2 ^ 64" unfolding w_def by (rule rval_rnd_le_u64)+
  then have sub: "Fin k - Fin w = Fin (rnd (k - w))" using k w by (intro fin_small) auto
  have "rnd (k - w) \<le> k" using k(3) w(2) by (rule b64.fl_diff_le)
  then have "sw_tokens_ok c (Fin (rnd (k - w)), rand')" if "w \<le> k" for rand'
    using k that by (auto simp: sw_tokens_ok_def intro: b64.fl_ge0)
  then show ?thesis using assms
    by (auto simp: s sw_token_step_def Let_def w(1) sub not_less split: prod.split)
qed

lemma sw_token_iter_total:
  assumes "0 < hz" "sw_bucket_at c t (sw_bucket s)" "t \<le> fst x"
  shows "\<exists>cs s' t'. sw_token_iter hz delay c s x = Inr (cs, s') \<and> sw_bucket_at c t' (sw_bucket s') \<and> t' \<le> fst x"
proof (cases "snd x = []")
  case True
  then show ?thesis using assms by (cases x) (auto simp: sw_token_iter_def)
next
  case False
  obtain acc freed b where "filter_loop (sw_token_step c) (dmin (previous_tokens (sw_bucket s) +
       (d_of_u64 (fst x) - previous_timestamp (sw_bucket s)) * SW_TOKEN_RATE hz c) (d_of_u64 (cfg_capacity c)), sw_token_rand s) (snd x) =
       Inr (acc, freed, b)" "sw_tokens_ok c b"
    using filter_loop_total[where P = "sw_tokens_ok c" and f = "sw_token_step c" and ps = "snd x"]
      sw_token_step_total sw_refill[OF assms] by blast
  then show ?thesis using False
    by (cases x; cases b) (auto simp: sw_token_iter_def Let_def sw_bucket_at_def sw_tokens_ok_def d_of_u64_fin)
qed

lemma sw_token_run_total:
  assumes "0 < hz" "sw_bucket_at c t (sw_bucket s)" "sorted (t # map fst inputs)"
  shows "\<exists>cs s' t'. run_loop (sw_token_iter hz delay c) s inputs = Inr (cs, s') \<and> sw_bucket_at c t' (sw_bucket s')"
  using assms(2,3)
proof (induction inputs arbitrary: t s)
  case (Cons x xs)
  then have "t \<le> fst x" by simp
  from sw_token_iter_total[OF assms(1) Cons.prems(1) this] obtain cs s1 t1 where
    it: "sw_token_iter hz delay c s x = Inr (cs, s1)" "sw_bucket_at c t1 (sw_bucket s1)" "t1 \<le> fst x" by blast
  have "sorted (t1 # map fst xs)" using it(3) Cons.prems(2) by auto
  from Cons.IH[OF it(2) this] obtain cs2 s2 t2 where
    "run_loop (sw_token_iter hz delay c) s1 xs = Inr (cs2, s2)" "sw_bucket_at c t2 (sw_bucket s2)" by blast
  then show ?case using it(1) by (auto simp: run_loop.simps)
qed auto

text \<open>(C24) With a counter that does not run backwards and a delay that fits 64 bits, the software token
  bucket has no undefined behaviour: it returns on every input, with a finite token count
  between zero and the capacity.\<close>

theorem sw_token_bucket_invariant:
  assumes "0 < hz" "sw_delay hz c = Inr delay" "sorted (map fst inputs)"
  shows "\<exists>cs s k. sw_receiver_loop_rate_token_bucket hz c inputs = Inr (cs, s) \<and>
    previous_tokens (sw_bucket s) = Fin k \<and> 0 \<le> k \<and> Fin k \<le> d_of_u64 (cfg_capacity c)"
proof -
  let ?s = "\<lparr>sw_bucket = \<lparr>previous_timestamp = Fin 0, previous_tokens = Fin 0\<rparr>, sw_token_rand = cfg_loss_seed c\<rparr>"
  have "rnd (rval (0 :: u64)) = 0" by (simp add: rval_def)
  then have "sw_bucket_at c 0 (sw_bucket ?s)" by (simp add: sw_bucket_at_def b64.fl_ge0)
  moreover have "sorted (0 # map fst inputs)" using assms(3) by simp
  ultimately obtain cs s t where "run_loop (sw_token_iter hz delay c) ?s inputs = Inr (cs, s)" "sw_bucket_at c t (sw_bucket s)"
    using sw_token_run_total[OF assms(1)] by blast
  then show ?thesis unfolding sw_receiver_loop_rate_token_bucket_def assms(2)
    by (auto simp: sw_bucket_at_def d_of_u64_fin less_eq_double_def le_less)
qed

theorem sw_token_bucket_invariant_witness:
  "\<exists>cs s k. sw_receiver_loop_rate_token_bucket 1000 ex_sw_cfg ex_sw_in = Inr (cs, s) \<and>
    previous_tokens (sw_bucket s) = Fin k \<and> 0 \<le> k \<and> Fin k \<le> d_of_u64 (cfg_capacity ex_sw_cfg)"
  by (rule sw_token_bucket_invariant[OF _ ex_sw_delay]) (simp_all add: ex_sw_in_def)

end
