(* ===== verification/Sniff.thy ===== *)
theory Sniff
  imports Hist
begin

text \<open>
  The live mode of MoonSniff (\<open>src/moonsniff.cpp\<close>): one thread reports the packets seen before the
  device under test with \<open>add_entry\<close>, another the packets seen behind it with \<open>test_for\<close>, and
  \<open>fetch_stats\<close> reads the latency statistics.

  \<^item> The array \<open>hit_list\<close> has \<open>2\<^sup>2\<^sup>4\<close> entries, indexed by the low 24 bits of the identifier; it is a
    function here and \<open>index_of\<close> is proved to stay inside.
  \<^item> The first part takes the calls one after the other and refines them to a specification that
    only looks at the sequence of the calls: \<open>found\<close>, \<open>latencies\<close>.
  \<^item> The second part is the critical sections of \<open>add_entry\<close> and \<open>test_for\<close>, one memory access per
    step, for any number of threads: a step relation, its invariant, and the proof that every
    interleaving is equivalent to calling them one after the other.
\<close>

section \<open>State and operations\<close>

abbreviation INDEX_MASK :: u32 where
  "INDEX_MASK \<equiv> 0x00FFFFFF"

record entry =
  e_timestamp :: u64
  e_identifier :: u64

record ms_stats =
  average_latency :: int
  variance_latency :: int
  hits :: u32
  misses :: u32
  inval_ts :: u32

record moonsniff =
  thresh :: int
  ms_moments :: moments
  ms_variance :: double
  stats :: ms_stats
  hit_list :: "u32 \<Rightarrow> entry"
  cerr :: string

definition no_entry :: entry where
  "no_entry = \<lparr>e_timestamp = 0, e_identifier = 0\<rparr>"

definition ms_init :: moonsniff where
  "ms_init = \<lparr>thresh = 0, ms_moments = moments0, ms_variance = Fin 0,
     stats = \<lparr>average_latency = 0, variance_latency = 0, hits = 0, misses = 0, inval_ts = 0\<rparr>,
     hit_list = (\<lambda>_. no_entry), cerr = []\<rparr>"

definition index_of :: "u32 \<Rightarrow> u32" where
  "index_of identification = identification AND INDEX_MASK"

text \<open>The critical sections.\<close>

definition put_entry :: "u32 \<Rightarrow> u64 \<Rightarrow> (u32 \<Rightarrow> entry) \<Rightarrow> u32 \<Rightarrow> entry" where
  "put_entry identification ts hl = hl(index_of identification := \<lparr>e_timestamp = ts, e_identifier = ucast identification\<rparr>)"

definition old_of :: "u32 \<Rightarrow> entry \<Rightarrow> u64" where
  "old_of identification e = (if e_identifier e = ucast identification then e_timestamp e else 0)"

definition take_entry :: "u32 \<Rightarrow> (u32 \<Rightarrow> entry) \<Rightarrow> u64 \<times> (u32 \<Rightarrow> entry)" where
  "take_entry identification hl =
     (let index = index_of identification in (old_of identification (hl index), hl(index := no_entry)))"

definition add_entry :: "u32 \<Rightarrow> u64 \<Rightarrow> moonsniff \<Rightarrow> moonsniff" where
  "add_entry identification ts s = s\<lparr>hit_list := put_entry identification ts (hit_list s)\<rparr>"

definition test_for :: "u32 \<Rightarrow> u64 \<Rightarrow> moonsniff \<Rightarrow> moonsniff" where
  "test_for identification ts s =
     (let (old_ts, hl) = take_entry identification (hit_list s);
          s = s\<lparr>hit_list := hl\<rparr>
      in if old_ts \<noteq> 0
         then let s = s\<lparr>stats := (stats s)\<lparr>hits := hits (stats s) + 1\<rparr>\<rparr>;
                  diff = sint (ts - old_ts);
                  s = (if diff < thresh s
                       then s\<lparr>cerr := cerr s @ ''Measured latency below '' @ dec_int (thresh s) @ '' (Threshold). Ignoring...'' @ [CHR 0x0A]\<rparr>
                       else s)
              in s\<lparr>ms_moments := welford diff (ms_moments s)\<rparr>
         else s\<lparr>stats := (stats s)\<lparr>misses := misses (stats s) + 1\<rparr>\<rparr>)"

definition fetch_stats :: "moonsniff \<Rightarrow> (ms_stats \<times> moonsniff) res" where
  "fetch_stats s =
     (let s = (if m_count (ms_moments s) < 2
               then s\<lparr>cerr := cerr s @ ''Not enough members to calculate mean and variance'' @ [CHR 0x0A]\<rparr>
               else s\<lparr>ms_variance := sample_variance (ms_moments s)\<rparr>)
      in rbind (s64_of_d (m_mean (ms_moments s))) (\<lambda>a.
         rbind (s64_of_d (ms_variance s)) (\<lambda>v.
         let st = (stats s)\<lparr>average_latency := sint a, variance_latency := sint v\<rparr>
         in Inr (st, s\<lparr>stats := st\<rparr>))))"

definition ms_set_thresh :: "int \<Rightarrow> moonsniff \<Rightarrow> moonsniff" where
  "ms_set_thresh t s = s\<lparr>thresh := t\<rparr>"

text \<open>A sequence of calls.\<close>

datatype ms_op = Add u32 u64 | Test u32 u64

fun ms_exec :: "ms_op \<Rightarrow> moonsniff \<Rightarrow> moonsniff" where
  "ms_exec (Add identification ts) s = add_entry identification ts s"
| "ms_exec (Test identification ts) s = test_for identification ts s"

lemma index_of_bound: "unat (index_of identification) < 2 ^ 24"
proof -
  have "index_of identification = take_bit 24 identification"
    unfolding index_of_def by (simp add: take_bit_eq_mask mask_eq_exp_minus_1)
  then show ?thesis using take_bit_nat_less_exp[of 24 "unat identification"] by (simp add: unsigned_take_bit_eq)
qed

section \<open>Specification\<close>

text \<open>The time stamp a test finds after the calls \<open>h\<close>, newest first: that of the last call on its
  entry, if it was an \<open>add_entry\<close> with the same identifier.\<close>

fun found :: "u32 \<Rightarrow> ms_op list \<Rightarrow> u64" where
  "found i [] = 0"
| "found i (Add j t # h) = (if index_of j \<noteq> index_of i then found i h else if j = i then t else 0)"
| "found i (Test j t # h) = (if index_of j \<noteq> index_of i then found i h else 0)"

text \<open>The latencies measured by the calls \<open>h\<close>, newest call first, oldest latency first.\<close>

fun latencies :: "ms_op list \<Rightarrow> int list" where
  "latencies [] = []"
| "latencies (Add i t # h) = latencies h"
| "latencies (Test i t # h) = latencies h @ (if found i h = 0 then [] else [sint (t - found i h)])"

fun is_test :: "ms_op \<Rightarrow> bool" where
  "is_test (Test _ _) = True"
| "is_test (Add _ _) = False"

fun mem_exec :: "ms_op \<Rightarrow> (u32 \<Rightarrow> entry) \<Rightarrow> u32 \<Rightarrow> entry" where
  "mem_exec (Add i t) hl = put_entry i t hl"
| "mem_exec (Test i t) hl = snd (take_entry i hl)"

text \<open>The entries after the calls \<open>h\<close>, newest first.\<close>

definition entries :: "ms_op list \<Rightarrow> u32 \<Rightarrow> entry" where
  "entries h = foldr mem_exec h (\<lambda>_. no_entry)"

lemma entries_simps [simp]: "entries [] = (\<lambda>_. no_entry)" "entries (op # h) = mem_exec op (entries h)"
  by (simp_all add: entries_def)

lemma ucast_inj32: "(ucast (a :: u32) :: u64) = ucast b \<longleftrightarrow> a = b"
  by (metis unat_u32_u64 word_unat_eq_iff)

lemma found_entries: "old_of i (entries h (index_of i)) = found i h"
proof (induction i h rule: found.induct)
  case (2 i j t h)
  then show ?case by (auto simp: put_entry_def old_of_def ucast_inj32)
next
  case (3 i j t h)
  then show ?case by (auto simp: take_entry_def Let_def old_of_def no_entry_def)
qed (simp add: old_of_def no_entry_def)

abbreviation ms_after :: "ms_op list \<Rightarrow> moonsniff \<Rightarrow> moonsniff" where
  "ms_after h s \<equiv> foldr ms_exec h s"

lemma ms_after_entries: "hit_list s = (\<lambda>_. no_entry) \<Longrightarrow> hit_list (ms_after h s) = entries h"
proof (induction h)
  case (Cons op h)
  then show ?case by (cases op) (auto simp: add_entry_def test_for_def Let_def split: prod.split)
qed simp

lemma test_for_fields:
  assumes "hit_list s = entries h"
  shows "ms_moments (test_for i t s) = (if found i h = 0 then ms_moments s else welford (sint (t - found i h)) (ms_moments s))"
    "stats (test_for i t s) = (if found i h = 0 then (stats s)\<lparr>misses := misses (stats s) + 1\<rparr> else (stats s)\<lparr>hits := hits (stats s) + 1\<rparr>)"
    "ms_variance (test_for i t s) = ms_variance s" "thresh (test_for i t s) = thresh s"
  using found_entries[of i h] by (simp_all add: test_for_def take_entry_def Let_def assms)

definition live_spec :: "ms_op list \<Rightarrow> moonsniff \<Rightarrow> bool" where
  "live_spec h s \<longleftrightarrow> hit_list s = entries h \<and> ms_moments s = fold welford (latencies h) moments0 \<and>
     hits (stats s) = of_nat (length (latencies h)) \<and>
     misses (stats s) = of_nat (length (filter is_test h)) - of_nat (length (latencies h)) \<and>
     inval_ts (stats s) = 0 \<and> ms_variance s = Fin 0"

lemma live_spec_step: "live_spec h s \<Longrightarrow> live_spec (op # h) (ms_exec op s)"
proof (cases op)
  case (Test i t)
  assume s: "live_spec h s"
  then have e: "hit_list s = entries h" by (simp add: live_spec_def)
  then have "hit_list (test_for i t s) = entries (op # h)"
    using Test by (auto simp: test_for_def Let_def split: prod.split)
  then show ?thesis using s test_for_fields[OF e, of i t] Test by (simp add: live_spec_def algebra_simps)
qed (simp add: live_spec_def add_entry_def)

lemma live_spec_run:
  assumes "hit_list s = (\<lambda>_. no_entry)" "ms_moments s = moments0" "ms_variance s = Fin 0"
    "hits (stats s) = 0" "misses (stats s) = 0" "inval_ts (stats s) = 0"
  shows "live_spec h (ms_after h s)"
proof (induction h)
  case Nil
  then show ?case using assms by (simp add: live_spec_def)
next
  case (Cons op h)
  then show ?case by (simp add: live_spec_step)
qed

lemma fold_live_spec: "live_spec (rev ops) (fold ms_exec ops (ms_set_thresh t ms_init))"
  using live_spec_run[of "ms_set_thresh t ms_init" "rev ops"]
  by (simp add: ms_init_def ms_set_thresh_def foldr_conv_fold)


text \<open>The threshold has no effect on the statistics: samples below it are counted like all
  others, whatever its value.\<close>

theorem sniff_threshold_ignored:
  "ms_moments (fold ms_exec ops (ms_set_thresh t ms_init)) = ms_moments (fold ms_exec ops (ms_set_thresh t' ms_init)) \<and>
   hits (stats (fold ms_exec ops (ms_set_thresh t ms_init))) = hits (stats (fold ms_exec ops (ms_set_thresh t' ms_init))) \<and>
   misses (stats (fold ms_exec ops (ms_set_thresh t ms_init))) = misses (stats (fold ms_exec ops (ms_set_thresh t' ms_init)))"
  using fold_live_spec[of ops t] fold_live_spec[of ops t'] by (simp add: live_spec_def)

section \<open>Insert and lookup\<close>

fun op_id :: "ms_op \<Rightarrow> u32" where
  "op_id (Add i _) = i"
| "op_id (Test i _) = i"

lemma other_entry: "index_of (op_id op) \<noteq> x \<Longrightarrow> hit_list (ms_exec op s) x = hit_list s x"
  by (cases op) (auto simp: add_entry_def put_entry_def test_for_def take_entry_def Let_def)

lemma other_entries:
  "\<forall>op\<in>set ops. index_of (op_id op) \<noteq> x \<Longrightarrow> hit_list (fold ms_exec ops s) x = hit_list s x"
  by (induction ops arbitrary: s) (auto simp: other_entry)

text \<open>What \<open>add_entry\<close> stores, \<open>test_for\<close> finds: if only calls on other entries lie between, the test
  takes the difference of the two times as a sample and counts a hit, and a second test for the
  same packet counts a miss and takes no sample.\<close>

theorem sniff_roundtrip:
  assumes "ts \<noteq> 0" "\<forall>op\<in>set ops. index_of (op_id op) \<noteq> index_of i" "s' = fold ms_exec ops (add_entry i ts s)"
  shows "ms_moments (test_for i ts' s') = welford (sint (ts' - ts)) (ms_moments s') \<and>
    stats (test_for i ts' s') = (stats s')\<lparr>hits := hits (stats s') + 1\<rparr> \<and>
    ms_moments (test_for i ts2 (test_for i ts' s')) = ms_moments (test_for i ts' s') \<and>
    misses (stats (test_for i ts2 (test_for i ts' s'))) = misses (stats s') + 1"
proof -
  have "hit_list s' (index_of i) = \<lparr>e_timestamp = ts, e_identifier = ucast i\<rparr>"
    using other_entries[OF assms(2)] by (simp add: assms(3) add_entry_def put_entry_def)
  then have old: "old_of i (hit_list s' (index_of i)) = ts" by (simp add: old_of_def)
  have empty: "old_of i no_entry = 0" by (simp add: old_of_def no_entry_def)
  show ?thesis using assms(1) by (simp add: test_for_def take_entry_def Let_def old empty)
qed

theorem sniff_roundtrip_witness:
  "ms_moments (test_for 7 1500 (fold ms_exec [Add 8 9, Test 9 9] (add_entry 7 1000 ms_init))) =
     welford 500 (ms_moments (fold ms_exec [Add 8 9, Test 9 9] (add_entry 7 1000 ms_init)))"
  using sniff_roundtrip[of 1000 "[Add 8 9, Test 9 9]" 7 _ ms_init 1500, OF _ _ refl] by (simp add: index_of_def)

section \<open>Reading the statistics\<close>

lemma dtrunc_of_int [simp]: "dtrunc (of_int i) = i"
  by (simp add: dtrunc_def)

lemma s64_of_d_in:
  assumes "of_int lo \<le> x" "x \<le> of_int hi" "- (2 ^ 63) \<le> lo" "hi < 2 ^ 63"
  shows "\<exists>w. s64_of_d (Fin x) = Inr w \<and> lo \<le> sint w \<and> sint w \<le> hi"
proof -
  have b: "lo \<le> dtrunc x" "dtrunc x \<le> hi" using dtrunc_mono[OF assms(1)] dtrunc_mono[OF assms(2)] by simp_all
  then have "sint (word_of_int (dtrunc x) :: u64) = dtrunc x"
    using assms(3,4) by (simp add: sint_sbintrunc' signed_take_bit_int_eq_self)
  then show ?thesis using b assms(3,4) by (simp add: s64_of_d.simps)
qed

lemma s64_of_d_big: "dnonneg d \<Longrightarrow> \<not> d < Fin (2 ^ 63) \<Longrightarrow> s64_of_d d = Inl FloatToInt"
proof (cases d)
  case (Fin x)
  assume "\<not> d < Fin (2 ^ 63)"
  then have "of_int (2 ^ 63) \<le> x" using Fin by simp
  from dtrunc_mono[OF this] have "2 ^ 63 \<le> dtrunc x" by (simp only: dtrunc_of_int)
  then show ?thesis using Fin by (simp add: s64_of_d.simps)
qed (simp_all add: s64_of_d.simps)

lemma live_moments_ok:
  assumes "\<forall>v\<in>set vs. lo \<le> v \<and> v \<le> hi" "length vs < 2 ^ 64" "- (2 ^ 53) \<le> lo" "hi \<le> 2 ^ 53" "lo \<le> hi"
  shows "moments_ok (of_int lo) (of_int hi) (length vs) (fold welford vs moments0)"
proof -
  have "rnd (of_int lo) = of_int lo" "rnd (of_int hi) = of_int hi" using assms(3-5) by (auto intro!: rnd_of_int)
  then show ?thesis
    using welford_fold[of vs lo hi 0 moments0] moments0_ok assms by (auto simp: sample_ok_def)
qed

text \<open>(C29) The statistics that are read are meaningful: if all measured latencies lie between \<open>lo\<close> and
  \<open>hi\<close> (at most \<open>2\<^sup>5\<^sup>3\<close> in magnitude) and their variance is below \<open>2\<^sup>6\<^sup>3\<close>, then \<open>fetch_stats\<close> returns, the
  average lies between \<open>lo\<close> and \<open>hi\<close>, and the variance is not negative.\<close>

theorem sniff_average_in_range:
  assumes "\<forall>v\<in>set (latencies (rev ops)). lo \<le> v \<and> v \<le> hi" "latencies (rev ops) \<noteq> []"
    and "length (latencies (rev ops)) < 2 ^ 64" "- (2 ^ 53) \<le> lo" "hi \<le> 2 ^ 53"
    and "2 \<le> length (latencies (rev ops)) \<Longrightarrow> sample_variance (fold welford (latencies (rev ops)) moments0) < Fin (2 ^ 63)"
  shows "\<exists>st s'. fetch_stats (fold ms_exec ops (ms_set_thresh t ms_init)) = Inr (st, s') \<and>
    lo \<le> average_latency st \<and> average_latency st \<le> hi \<and> 0 \<le> variance_latency st \<and>
    hits st = of_nat (length (latencies (rev ops)))"
proof -
  define s where "s = fold ms_exec ops (ms_set_thresh t ms_init)"
  define vs where "vs = latencies (rev ops)"
  have spec: "ms_moments s = fold welford vs moments0" "hits (stats s) = of_nat (length vs)" "ms_variance s = Fin 0"
    using fold_live_spec[of ops t] by (simp_all add: live_spec_def s_def vs_def)
  have "lo \<le> hi" using assms(1,2) by (cases "latencies (rev ops)") auto
  then have ok: "moments_ok (of_int lo) (of_int hi) (length vs) (ms_moments s)"
    unfolding spec(1) vs_def using live_moments_ok assms(1,3-5) by blast
  then obtain x where x: "m_mean (ms_moments s) = Fin x" "of_int lo \<le> x" "x \<le> of_int hi"
    and cnt: "unat (m_count (ms_moments s)) = length vs" using assms(2) by (auto simp: moments_ok_def vs_def)
  obtain a where a: "s64_of_d (Fin x) = Inr a" "lo \<le> sint a" "sint a \<le> hi"
    using s64_of_d_in[OF x(2,3)] assms(4,5) by auto
  define d where "d = (if m_count (ms_moments s) < 2 then Fin 0 else sample_variance (ms_moments s))"
  have "dnonneg d \<and> d < Fin (2 ^ 63)"
    using sample_variance_nonneg[OF ok] cnt assms(6)
    by (auto simp: d_def word_less_nat_alt spec(1) vs_def)
  then obtain y where y: "d = Fin y" "of_int 0 \<le> y" "y < 2 ^ 63" by (cases d) auto
  have "\<exists>v. s64_of_d (Fin y) = Inr v \<and> 0 \<le> sint v"
  proof -
    have "0 \<le> dtrunc y" "dtrunc y < 2 ^ 63" using y(2,3) by (simp_all add: dtrunc_nonneg floor_less_iff)
    then show ?thesis by (simp add: s64_of_d.simps sint_sbintrunc' signed_take_bit_int_eq_self)
  qed
  then obtain v where v: "s64_of_d (Fin y) = Inr v" "0 \<le> sint v" by blast
  have "\<exists>st s'. fetch_stats s = Inr (st, s') \<and> average_latency st = sint a \<and> variance_latency st = sint v \<and> hits st = hits (stats s)"
  proof (cases "m_count (ms_moments s) < 2")
    case True
    then have "Fin y = Fin 0" using y(1) by (simp add: d_def)
    then show ?thesis using True x(1) a(1) v(1) spec(3) by (simp add: fetch_stats_def Let_def)
  next
    case False
    then have "sample_variance (ms_moments s) = Fin y" using y(1) by (simp add: d_def)
    then show ?thesis using False x(1) a(1) v(1) by (simp add: fetch_stats_def Let_def)
  qed
  then show ?thesis using a(2,3) v(2) spec(2) by (auto simp: s_def vs_def)
qed

text \<open>Two packets with latencies 0 and \<open>d\<close>.\<close>

definition ex_live :: "u64 \<Rightarrow> ms_op list" where
  "ex_live d = [Add 1 1, Add 2 1, Test 1 1, Test 2 (1 + d)]"

lemma ex_live_latencies: "d \<noteq> - 1 \<Longrightarrow> latencies (rev (ex_live d)) = [0, sint d]"
  by (simp add: ex_live_def index_of_def)

lemma ex_live_variance:
  "sample_variance (fold welford [0, 16] moments0) = Fin 128"
  by (simp add: sample_variance_def welford_def Let_def moments0_def d_of_int_def double_eval)

theorem sniff_average_in_range_witness:
  "\<exists>st s'. fetch_stats (fold ms_exec (ex_live 16) (ms_set_thresh 0 ms_init)) = Inr (st, s') \<and>
    0 \<le> average_latency st \<and> average_latency st \<le> 16 \<and> 0 \<le> variance_latency st \<and> hits st = 2"
proof -
  have l: "latencies (rev (ex_live 16)) = [0, 16]" using ex_live_latencies[of 16] by simp
  show ?thesis
    using sniff_average_in_range[of "ex_live 16" 0 16 0] unfolding l ex_live_variance by simp
qed

text \<open>A variance of \<open>2\<^sup>6\<^sup>3\<close> or more, a standard deviation of about three seconds, does not fit the
  64-bit integer it is returned in: reading the statistics is undefined behaviour.\<close>

theorem sniff_variance_overflow:
  assumes "2 \<le> length (latencies (rev ops))" "length (latencies (rev ops)) < 2 ^ 64"
    and "\<forall>v\<in>set (latencies (rev ops)). - (2 ^ 53) \<le> v \<and> v \<le> 2 ^ 53"
    and "\<not> sample_variance (fold welford (latencies (rev ops)) moments0) < Fin (2 ^ 63)"
  shows "fetch_stats (fold ms_exec ops (ms_set_thresh t ms_init)) = Inl FloatToInt"
proof -
  define s where "s = fold ms_exec ops (ms_set_thresh t ms_init)"
  have m: "ms_moments s = fold welford (latencies (rev ops)) moments0"
    using fold_live_spec[of ops t] by (simp add: live_spec_def s_def)
  have ok: "moments_ok (of_int (- (2 ^ 53))) (of_int (2 ^ 53)) (length (latencies (rev ops))) (ms_moments s)"
    unfolding m by (rule live_moments_ok) (use assms(2,3) in auto)
  then have "\<not> m_count (ms_moments s) < 2" using assms(1) by (simp add: moments_ok_def word_less_nat_alt)
  moreover have "s64_of_d (sample_variance (ms_moments s)) = Inl FloatToInt"
    using sample_variance_nonneg[OF ok assms(1)] assms(4) unfolding m by (rule s64_of_d_big)
  moreover obtain x where x: "m_mean (ms_moments s) = Fin x" "of_int (- (2 ^ 53)) \<le> x" "x \<le> of_int (2 ^ 53)"
    using ok assms(1) by (auto simp: moments_ok_def split: if_splits)
  moreover from s64_of_d_in[OF x(2,3)] obtain a where "s64_of_d (Fin x) = Inr a" by auto
  ultimately show ?thesis unfolding s_def[symmetric] by (simp add: fetch_stats_def Let_def)
qed

lemma ex_live_variance_big: "sample_variance (fold welford [0, 2 ^ 33] moments0) = Fin (2 ^ 65)"
proof -
  have "mkd (2 ^ 65) = Fin (2 ^ 65)" using mkd_fin[of "2 ^ 65"] rnd_nat_pow2[of 65] by simp
  then show ?thesis
    by (simp add: sample_variance_def welford_def Let_def moments0_def d_of_int_def double_eval)
qed

theorem sniff_variance_overflow_witness:
  "fetch_stats (fold ms_exec (ex_live (2 ^ 33)) (ms_set_thresh 0 ms_init)) = Inl FloatToInt"
proof -
  have l: "latencies (rev (ex_live (2 ^ 33))) = [0, 2 ^ 33]" using ex_live_latencies[of "2 ^ 33"] by simp
  show ?thesis
    by (rule sniff_variance_overflow) (unfold l ex_live_variance_big, simp_all)
qed

section \<open>Interleavings\<close>

text \<open>The threads share the entries and one mutex per entry. A thread is in one of these places:
  outside, spinning for the mutex, or inside a critical section before the access named. \<open>sections\<close>
  collects the critical sections that have ended, newest first, each with the time stamp it read.\<close>

datatype place =
    Outside
  | Spin ms_op
  | AddTime u32 u64        \<comment> \<open>before \<open>hit_list[index].timestamp = timestamp\<close>\<close>
  | AddId u32 u64          \<comment> \<open>before \<open>hit_list[index].identifier = identification\<close>\<close>
  | TestId u32 u64         \<comment> \<open>before the identifier is compared\<close>
  | TestTime u32 u64 bool  \<comment> \<open>before the time is read if the identifiers are equal\<close>
  | ClearTime u32 u64 u64  \<comment> \<open>before \<open>hit_list[index].timestamp = 0\<close>\<close>
  | ClearId u32 u64 u64    \<comment> \<open>before \<open>hit_list[index].identifier = 0\<close>\<close>
  | Unlock ms_op u64

record shared =
  mtx :: "u32 \<Rightarrow> nat option"
  mem :: "u32 \<Rightarrow> entry"
  thr :: "nat \<Rightarrow> place"
  sections :: "(ms_op \<times> u64) list"

definition ms_start :: shared where
  "ms_start = \<lparr>mtx = (\<lambda>_. None), mem = (\<lambda>_. no_entry), thr = (\<lambda>_. Outside), sections = []\<rparr>"

fun enter :: "ms_op \<Rightarrow> place" where
  "enter (Add i t) = AddTime i t"
| "enter (Test i t) = TestId i t"

abbreviation moves :: "nat \<Rightarrow> place \<Rightarrow> shared \<Rightarrow> shared" where
  "moves n p s \<equiv> s\<lparr>thr := (thr s)(n := p)\<rparr>"

abbreviation writes :: "u32 \<Rightarrow> (entry \<Rightarrow> entry) \<Rightarrow> shared \<Rightarrow> shared" where
  "writes x f s \<equiv> s\<lparr>mem := (mem s)(x := f (mem s x))\<rparr>"

inductive ms_step :: "shared \<Rightarrow> shared \<Rightarrow> bool" where
  call: "thr s n = Outside \<Longrightarrow> ms_step s (moves n (Spin op) s)"
| spin: "thr s n = Spin op \<Longrightarrow> mtx s (index_of (op_id op)) \<noteq> None \<Longrightarrow> ms_step s s"
| lock: "thr s n = Spin op \<Longrightarrow> mtx s (index_of (op_id op)) = None \<Longrightarrow>
    ms_step s (moves n (enter op) (s\<lparr>mtx := (mtx s)(index_of (op_id op) := Some n)\<rparr>))"
| add_time: "thr s n = AddTime i t \<Longrightarrow> ms_step s (moves n (AddId i t) (writes (index_of i) (e_timestamp_update (\<lambda>_. t)) s))"
| add_id: "thr s n = AddId i t \<Longrightarrow>
    ms_step s (moves n (Unlock (Add i t) 0) (writes (index_of i) (e_identifier_update (\<lambda>_. ucast i)) s))"
| test_id: "thr s n = TestId i t \<Longrightarrow> ms_step s (moves n (TestTime i t (e_identifier (mem s (index_of i)) = ucast i)) s)"
| test_time: "thr s n = TestTime i t b \<Longrightarrow>
    ms_step s (moves n (ClearTime i t (if b then e_timestamp (mem s (index_of i)) else 0)) s)"
| clear_time: "thr s n = ClearTime i t old \<Longrightarrow>
    ms_step s (moves n (ClearId i t old) (writes (index_of i) (e_timestamp_update (\<lambda>_. 0)) s))"
| clear_id: "thr s n = ClearId i t old \<Longrightarrow>
    ms_step s (moves n (Unlock (Test i t) old) (writes (index_of i) (e_identifier_update (\<lambda>_. 0)) s))"
| unlock: "thr s n = Unlock op old \<Longrightarrow>
    ms_step s (moves n Outside (s\<lparr>mtx := (mtx s)(index_of (op_id op) := None), sections := (op, old) # sections s\<rparr>))"

text \<open>The call whose critical section a thread is in.\<close>

fun in_section :: "place \<Rightarrow> ms_op option" where
  "in_section (AddTime i t) = Some (Add i t)"
| "in_section (AddId i t) = Some (Add i t)"
| "in_section (TestId i t) = Some (Test i t)"
| "in_section (TestTime i t b) = Some (Test i t)"
| "in_section (ClearTime i t old) = Some (Test i t)"
| "in_section (ClearId i t old) = Some (Test i t)"
| "in_section (Unlock op old) = Some op"
| "in_section _ = None"

text \<open>The entry a thread sees and what it has read, when \<open>e\<close> was the entry at its lock operation.\<close>

fun old_ts :: "ms_op \<Rightarrow> entry \<Rightarrow> u64" where
  "old_ts (Test i t) e = old_of i e"
| "old_ts (Add i t) e = 0"

fun progress :: "place \<Rightarrow> entry \<Rightarrow> entry \<Rightarrow> bool" where
  "progress (AddTime i t) e m \<longleftrightarrow> m = e"
| "progress (AddId i t) e m \<longleftrightarrow> m = e\<lparr>e_timestamp := t\<rparr>"
| "progress (TestId i t) e m \<longleftrightarrow> m = e"
| "progress (TestTime i t b) e m \<longleftrightarrow> m = e \<and> b = (e_identifier e = ucast i)"
| "progress (ClearTime i t old) e m \<longleftrightarrow> m = e \<and> old = old_of i e"
| "progress (ClearId i t old) e m \<longleftrightarrow> m = e\<lparr>e_timestamp := 0\<rparr> \<and> old = old_of i e"
| "progress (Unlock op old) e m \<longleftrightarrow> old = old_ts op e \<and> m = mem_exec op (\<lambda>_. e) (index_of (op_id op))"
| "progress _ e m \<longleftrightarrow> True"

text \<open>What the ended sections have read is what they read one after the other.\<close>

fun replays :: "(ms_op \<times> u64) list \<Rightarrow> bool" where
  "replays [] = True"
| "replays ((op, old) # h) = (replays h \<and> old = old_ts op (entries (map fst h) (index_of (op_id op))))"

definition ms_inv :: "shared \<Rightarrow> bool" where
  "ms_inv s \<longleftrightarrow> replays (sections s) \<and>
     (\<forall>n op. in_section (thr s n) = Some op \<longrightarrow> mtx s (index_of (op_id op)) = Some n \<and>
        progress (thr s n) (entries (map fst (sections s)) (index_of (op_id op))) (mem s (index_of (op_id op)))) \<and>
     (\<forall>x. mtx s x = None \<longrightarrow> mem s x = entries (map fst (sections s)) x)"

lemma ms_invD:
  assumes "ms_inv s"
  shows "replays (sections s)" "in_section (thr s n) = Some op \<Longrightarrow> mtx s (index_of (op_id op)) = Some n"
    "in_section (thr s n) = Some op \<Longrightarrow>
       progress (thr s n) (entries (map fst (sections s)) (index_of (op_id op))) (mem s (index_of (op_id op)))"
    "mtx s x = None \<Longrightarrow> mem s x = entries (map fst (sections s)) x"
  using assms by (auto simp: ms_inv_def)

text \<open>A step inside a critical section.\<close>

lemma inv_inside:
  assumes inv: "ms_inv s" and op: "in_section (thr s n) = Some op" "in_section p = Some op"
    and new: "progress p (entries (map fst (sections s)) (index_of (op_id op))) (f (mem s (index_of (op_id op))))"
  shows "ms_inv (moves n p (writes (index_of (op_id op)) f s))"
proof -
  have own: "mtx s (index_of (op_id op)) = Some n" using ms_invD(2)[OF inv op(1)] .
  have other: "index_of (op_id op') \<noteq> index_of (op_id op)" if "in_section (thr s m) = Some op'" "m \<noteq> n" for m op'
    using ms_invD(2)[OF inv that(1)] own that(2) by auto
  show ?thesis
    unfolding ms_inv_def
  proof (intro conjI allI impI)
    fix m op' assume "in_section (thr (moves n p (writes (index_of (op_id op)) f s)) m) = Some op'"
    then show "mtx (moves n p (writes (index_of (op_id op)) f s)) (index_of (op_id op')) = Some m"
      "progress (thr (moves n p (writes (index_of (op_id op)) f s)) m)
         (entries (map fst (sections (moves n p (writes (index_of (op_id op)) f s)))) (index_of (op_id op')))
         (mem (moves n p (writes (index_of (op_id op)) f s)) (index_of (op_id op')))"
      using own new op(2) other[of m op'] ms_invD(2,3)[OF inv, of m op'] by (cases "m = n"; simp)+
  next
    fix x assume "mtx (moves n p (writes (index_of (op_id op)) f s)) x = None"
    then show "mem (moves n p (writes (index_of (op_id op)) f s)) x =
        entries (map fst (sections (moves n p (writes (index_of (op_id op)) f s)))) x"
      using own ms_invD(4)[OF inv, of x] by (cases "x = index_of (op_id op)") simp_all
  qed (use ms_invD(1)[OF inv] in simp)
qed

lemma inv_inside_read:
  assumes "ms_inv s" "in_section (thr s n) = Some op" "in_section p = Some op"
    and "progress p (entries (map fst (sections s)) (index_of (op_id op))) (mem s (index_of (op_id op)))"
  shows "ms_inv (moves n p s)"
  using inv_inside[OF assms(1-3), of "\<lambda>e. e"] assms(4) by simp

lemma mem_exec_other: "x \<noteq> index_of (op_id op) \<Longrightarrow> mem_exec op hl x = hl x"
  by (cases op) (simp_all add: put_entry_def take_entry_def Let_def)

lemma mem_exec_own: "mem_exec op hl (index_of (op_id op)) = mem_exec op (\<lambda>_. hl (index_of (op_id op))) (index_of (op_id op))"
  by (cases op) (simp_all add: put_entry_def take_entry_def Let_def)

lemma inv_unlock:
  assumes inv: "ms_inv s" and th: "thr s n = Unlock op old"
  shows "ms_inv (moves n Outside (s\<lparr>mtx := (mtx s)(index_of (op_id op) := None), sections := (op, old) # sections s\<rparr>))"
    (is "ms_inv ?s'")
proof -
  let ?x = "index_of (op_id op)"
  have own: "mtx s ?x = Some n" using ms_invD(2)[OF inv, of n op] th by simp
  have p: "old = old_ts op (entries (map fst (sections s)) ?x)" "mem s ?x = entries (op # map fst (sections s)) ?x"
    using ms_invD(3)[OF inv, of n op] th mem_exec_own[of op "entries (map fst (sections s))"] by simp_all
  have other: "index_of (op_id op') \<noteq> ?x" if "in_section (thr s m) = Some op'" "m \<noteq> n" for m op'
    using ms_invD(2)[OF inv that(1)] own that(2) by auto
  show ?thesis
    unfolding ms_inv_def
  proof (intro conjI allI impI)
    show "replays (sections ?s')" using ms_invD(1)[OF inv] p(1) by simp
  next
    fix m op' assume a: "in_section (thr ?s' m) = Some op'"
    then have m: "m \<noteq> n" "in_section (thr s m) = Some op'" by (auto split: if_splits)
    then show "mtx ?s' (index_of (op_id op')) = Some m"
      "progress (thr ?s' m) (entries (map fst (sections ?s')) (index_of (op_id op'))) (mem ?s' (index_of (op_id op')))"
      using ms_invD(2,3)[OF inv m(2)] other[OF m(2,1)] by (simp_all add: mem_exec_other)
  next
    fix x assume a: "mtx ?s' x = None"
    show "mem ?s' x = entries (map fst (sections ?s')) x"
    proof (cases "x = ?x")
      case True
      then show ?thesis using p(2) by simp
    next
      case False
      then show ?thesis using a ms_invD(4)[OF inv, of x] by (simp add: mem_exec_other)
    qed
  qed
qed

lemma inv_lock:
  assumes inv: "ms_inv s" and th: "thr s n = Spin op" "mtx s (index_of (op_id op)) = None"
  shows "ms_inv (moves n (enter op) (s\<lparr>mtx := (mtx s)(index_of (op_id op) := Some n)\<rparr>))" (is "ms_inv ?s'")
proof -
  let ?x = "index_of (op_id op)"
  have sec: "in_section (enter op) = Some op" "progress (enter op) e m \<longleftrightarrow> m = e" for e m by (cases op; simp)+
  show ?thesis
    unfolding ms_inv_def
  proof (intro conjI allI impI)
    fix m op' assume a: "in_section (thr ?s' m) = Some op'"
    have "m \<noteq> n \<Longrightarrow> index_of (op_id op') \<noteq> ?x" using a ms_invD(2)[OF inv, of m op'] th(2) by auto
    then show "mtx ?s' (index_of (op_id op')) = Some m"
      "progress (thr ?s' m) (entries (map fst (sections ?s')) (index_of (op_id op'))) (mem ?s' (index_of (op_id op')))"
      using a sec ms_invD(2,3)[OF inv, of m op'] ms_invD(4)[OF inv th(2)] by (cases "m = n"; simp)+
  next
    fix x assume "mtx ?s' x = None"
    then show "mem ?s' x = entries (map fst (sections ?s')) x" using ms_invD(4)[OF inv, of x] by (simp split: if_splits)
  qed (use ms_invD(1)[OF inv] in simp)
qed

lemma inv_call:
  assumes inv: "ms_inv s" and "thr s n = Outside"
  shows "ms_inv (moves n (Spin op) s)"
  unfolding ms_inv_def using ms_invD[OF inv] by (auto split: if_splits)

lemma ms_inv_step: "ms_step s s' \<Longrightarrow> ms_inv s \<Longrightarrow> ms_inv s'"
proof (induction rule: ms_step.induct)
  case (add_time s n i t)
  then show ?case using inv_inside[of s n "Add i t"] ms_invD(3)[of s n "Add i t"] by simp
next
  case (add_id s n i t)
  then show ?case using inv_inside[of s n "Add i t"] ms_invD(3)[of s n "Add i t"] by (simp add: put_entry_def)
next
  case (test_id s n i t)
  then show ?case using inv_inside_read[of s n "Test i t"] ms_invD(3)[of s n "Test i t"] by simp
next
  case (test_time s n i t b)
  then show ?case using inv_inside_read[of s n "Test i t"] ms_invD(3)[of s n "Test i t"] by (simp add: old_of_def)
next
  case (clear_time s n i t old)
  then show ?case using inv_inside[of s n "Test i t"] ms_invD(3)[of s n "Test i t"] by simp
next
  case (clear_id s n i t old)
  then show ?case using inv_inside[of s n "Test i t"] ms_invD(3)[of s n "Test i t"]
    by (simp add: take_entry_def Let_def no_entry_def)
next
  case (lock s n op)
  then show ?case using inv_lock by simp
next
  case (unlock s n op old)
  then show ?case using inv_unlock by simp
qed (auto intro: inv_call)

lemma ms_inv_reachable: "ms_step\<^sup>*\<^sup>* ms_start s \<Longrightarrow> ms_inv s"
  by (induction rule: rtranclp_induct) (auto simp: ms_start_def ms_inv_def no_entry_def dest: ms_inv_step)

lemma replays_found: "replays h \<Longrightarrow> h = h1 @ (Test i t, old) # h2 \<Longrightarrow> old = found i (map fst h2)"
  by (induction h1 arbitrary: h) (auto simp: found_entries)

subsection \<open>A critical section that is entered ends\<close>

text \<open>The thread that owns a mutex gets to its release in steps of its own.\<close>

definition ends :: "nat \<Rightarrow> ms_op \<Rightarrow> shared \<Rightarrow> bool" where
  "ends n op s \<longleftrightarrow> (\<exists>s' old. ms_step\<^sup>*\<^sup>* s s' \<and> thr s' = (thr s)(n := Outside) \<and>
     mtx s' = (mtx s)(index_of (op_id op) := None) \<and> sections s' = (op, old) # sections s)"

lemma ends_unlock: "thr s n = Unlock op old \<Longrightarrow> ends n op s"
  unfolding ends_def by (rule exI, rule exI[of _ old], intro conjI, rule r_into_rtranclp, erule ms_step.unlock) simp_all

lemma ends_inside:
  assumes "ms_step s (moves n p (s\<lparr>mem := m\<rparr>))" "ends n op (moves n p (s\<lparr>mem := m\<rparr>))"
  shows "ends n op s"
proof -
  from assms(2) obtain s' old where "ms_step\<^sup>*\<^sup>* (moves n p (s\<lparr>mem := m\<rparr>)) s'" "thr s' = (thr s)(n := Outside)"
      "mtx s' = (mtx s)(index_of (op_id op) := None)" "sections s' = (op, old) # sections s"
    unfolding ends_def by (auto simp: fun_upd_upd)
  with assms(1) show ?thesis unfolding ends_def by (metis converse_rtranclp_into_rtranclp)
qed

lemma ends_add_id: "thr s n = AddId i t \<Longrightarrow> ends n (Add i t) s"
  by (rule ends_inside[OF ms_step.add_id], assumption, rule ends_unlock, simp)

lemma ends_add: "thr s n = AddTime i t \<Longrightarrow> ends n (Add i t) s"
  by (rule ends_inside[OF ms_step.add_time], assumption, rule ends_add_id, simp)

lemma ends_clear_id: "thr s n = ClearId i t old \<Longrightarrow> ends n (Test i t) s"
  by (rule ends_inside[OF ms_step.clear_id], assumption, rule ends_unlock, simp)

lemma ends_clear_time: "thr s n = ClearTime i t old \<Longrightarrow> ends n (Test i t) s"
  by (rule ends_inside[OF ms_step.clear_time], assumption, rule ends_clear_id, simp)

lemma ends_read:
  assumes "ms_step s (moves n p s)" "ends n op (moves n p s)"
  shows "ends n op s"
  using ends_inside[where s = s and m = "mem s" and n = n and p = p] assms by simp

lemma ends_test_time: "thr s n = TestTime i t b \<Longrightarrow> ends n (Test i t) s"
  by (rule ends_read[OF ms_step.test_time], assumption, rule ends_clear_time, simp)

lemma ends_test: "thr s n = TestId i t \<Longrightarrow> ends n (Test i t) s"
  by (rule ends_read[OF ms_step.test_id], assumption, rule ends_test_time, simp)

lemmas ends_intros = ends_unlock ends_add ends_add_id ends_clear_id ends_clear_time ends_test ends_test_time

lemma ends_section: "in_section (thr s n) = Some op \<Longrightarrow> ends n op s"
  by (cases "thr s n") (auto intro: ends_intros)

text \<open>A mutex is held only by a thread in a section of its entry.\<close>

definition held_ok :: "shared \<Rightarrow> bool" where
  "held_ok s \<longleftrightarrow> (\<forall>x n. mtx s x = Some n \<longrightarrow> (\<exists>op. in_section (thr s n) = Some op \<and> index_of (op_id op) = x))"

lemma enter_section [simp]: "in_section (enter op) = Some op"
  by (cases op) simp_all

lemma held_ok_reachable: "ms_step\<^sup>*\<^sup>* ms_start s \<Longrightarrow> held_ok s"
proof (induction rule: rtranclp_induct)
  case (step y z)
  from step.hyps(2) step.IH show ?case
    by (induction rule: ms_step.induct) (fastforce simp: held_ok_def split: if_splits)+
qed (simp add: held_ok_def ms_start_def)

text \<open>(C8) The mutexes do their work: in every state that any number of threads can reach by calling
  \<open>add_entry\<close> and \<open>test_for\<close>, interleaved at single memory accesses, no two threads are in sections
  of the same entry; every test has read the time that the calls whose sections ended before its
  own prescribe, as if they had been made one after the other; and an entry whose mutex is
  free holds what these calls leave.\<close>

theorem sniff_interleavings:
  assumes "ms_step\<^sup>*\<^sup>* ms_start s"
  shows "(in_section (thr s n) = Some op \<and> in_section (thr s m) = Some op' \<and> index_of (op_id op) = index_of (op_id op') \<longrightarrow> n = m) \<and>
    (sections s = h1 @ (Test i t, old) # h2 \<longrightarrow> old = found i (map fst h2)) \<and>
    (mtx s x = None \<longrightarrow> mem s x = entries (map fst (sections s)) x)"
proof (intro conjI impI)
  note inv = ms_inv_reachable[OF assms]
  show "n = m" if "in_section (thr s n) = Some op \<and> in_section (thr s m) = Some op' \<and> index_of (op_id op) = index_of (op_id op')"
    using that ms_invD(2)[OF inv, of n op] ms_invD(2)[OF inv, of m op'] by simp
  show "old = found i (map fst h2)" if "sections s = h1 @ (Test i t, old) # h2"
    using replays_found[OF ms_invD(1)[OF inv] that] .
  show "mem s x = entries (map fst (sections s)) x" if "mtx s x = None" using ms_invD(4)[OF inv that] .
qed

lemma spin_ends:
  assumes "thr s n = Spin op" "mtx s (index_of (op_id op)) = None"
  shows "\<exists>s' old. ms_step\<^sup>*\<^sup>* s s' \<and> thr s' = (thr s)(n := Outside) \<and> mtx s' = mtx s \<and> sections s' = (op, old) # sections s"
proof -
  let ?s = "moves n (enter op) (s\<lparr>mtx := (mtx s)(index_of (op_id op) := Some n)\<rparr>)"
  have "ends n op ?s" by (rule ends_section) simp
  then obtain s' old where "ms_step\<^sup>*\<^sup>* ?s s'" "thr s' = (thr s)(n := Outside)" "mtx s' = (mtx s)(index_of (op_id op) := None)"
      "sections s' = (op, old) # sections s"
    unfolding ends_def by auto
  moreover have "(mtx s)(index_of (op_id op) := None) = mtx s" using assms(2) by auto
  ultimately show ?thesis using ms_step.lock[OF assms] by (metis converse_rtranclp_into_rtranclp)
qed

text \<open>Thread 0 adds an entry, thread 1 has called \<open>test_for\<close> for it and spins.\<close>

lemma ex_race: "\<exists>s old. ms_step\<^sup>*\<^sup>* ms_start s \<and> thr s 1 = Spin (Test 7 1500) \<and> mtx s = (\<lambda>_. None) \<and> sections s = [(Add 7 1000, old)]"
proof -
  let ?s1 = "moves 0 (Spin (Add 7 1000)) ms_start" let ?s2 = "moves 1 (Spin (Test 7 1500)) ?s1"
  have 1: "ms_step ms_start ?s1" by (rule ms_step.call) (simp add: ms_start_def)
  have 2: "ms_step ?s1 ?s2" by (rule ms_step.call) (simp add: ms_start_def)
  have "\<exists>s' old. ms_step\<^sup>*\<^sup>* ?s2 s' \<and> thr s' = (thr ?s2)(0 := Outside) \<and> mtx s' = mtx ?s2 \<and> sections s' = (Add 7 1000, old) # sections ?s2"
    by (rule spin_ends) (simp_all add: ms_start_def)
  then obtain s' old where s': "ms_step\<^sup>*\<^sup>* ?s2 s'" "thr s' = (thr ?s2)(0 := Outside)" "mtx s' = mtx ?s2"
      "sections s' = (Add 7 1000, old) # sections ?s2" by blast
  have "ms_step\<^sup>*\<^sup>* ms_start s'" using 1 2 s'(1) by (meson converse_rtranclp_into_rtranclp)
  then show ?thesis using s'(2-4) by (intro exI[of _ s'] exI[of _ old]) (simp add: ms_start_def)
qed

theorem sniff_interleavings_witness:
  "\<exists>s. ms_step\<^sup>*\<^sup>* ms_start s \<and> sections s = [(Test 7 1500, 1000), (Add 7 1000, 0)]"
proof -
  obtain s0 o0 where s0: "ms_step\<^sup>*\<^sup>* ms_start s0" "thr s0 1 = Spin (Test 7 1500)" "mtx s0 = (\<lambda>_. None)" "sections s0 = [(Add 7 1000, o0)]"
    using ex_race by blast
  have "mtx s0 (index_of (op_id (Test 7 1500))) = None" using s0(3) by simp
  from spin_ends[OF s0(2) this] obtain s old where s: "ms_step\<^sup>*\<^sup>* s0 s" "sections s = (Test 7 1500, old) # sections s0" by blast
  have reach: "ms_step\<^sup>*\<^sup>* ms_start s" using s0(1) s(1) by (rule rtranclp_trans)
  have "sections s = [] @ (Test 7 1500, old) # [(Add 7 1000, o0)]" using s(2) s0(4) by simp
  then have "old = found 7 (map fst [(Add 7 1000, o0)])" using sniff_interleavings[OF reach] by blast
  moreover have "o0 = 0" using ms_invD(1)[OF ms_inv_reachable[OF reach]] s(2) s0(4) by simp
  ultimately show ?thesis using reach s(2) s0(4) by (intro exI[of _ s]) simp
qed

text \<open>(C28) No deadlock: from every reachable state in which a thread spins for a mutex, the threads can
  go on so that its critical section ends, whoever holds the mutex at that moment.\<close>

theorem sniff_no_deadlock:
  assumes "ms_step\<^sup>*\<^sup>* ms_start s" "thr s n = Spin op"
  shows "\<exists>s' old. ms_step\<^sup>*\<^sup>* s s' \<and> thr s' n = Outside \<and> (op, old) \<in> set (sections s')"
proof (cases "mtx s (index_of (op_id op))")
  case None
  from spin_ends[OF assms(2) None] show ?thesis by fastforce
next
  case (Some m)
  then obtain op' where op': "in_section (thr s m) = Some op'" "index_of (op_id op') = index_of (op_id op)"
    using held_ok_reachable[OF assms(1)] by (auto simp: held_ok_def)
  then obtain s1 where s1: "ms_step\<^sup>*\<^sup>* s s1" "thr s1 = (thr s)(m := Outside)" "mtx s1 = (mtx s)(index_of (op_id op) := None)"
    using ends_section unfolding ends_def by metis
  have "m \<noteq> n" using assms(2) op'(1) by auto
  then have "thr s1 n = Spin op" "mtx s1 (index_of (op_id op)) = None" using s1 assms(2) by simp_all
  from spin_ends[OF this] obtain s2 old where "ms_step\<^sup>*\<^sup>* s1 s2" "thr s2 n = Outside" "(op, old) \<in> set (sections s2)"
    by fastforce
  with s1(1) show ?thesis by (metis rtranclp_trans)
qed

theorem sniff_no_deadlock_witness:
  "\<exists>s s' old. ms_step\<^sup>*\<^sup>* ms_start s \<and> thr s 1 = Spin (Test 7 1500) \<and> ms_step\<^sup>*\<^sup>* s s' \<and> thr s' 1 = Outside \<and>
     (Test 7 1500, old) \<in> set (sections s')"
proof -
  obtain s where "ms_step\<^sup>*\<^sup>* ms_start s" "thr s 1 = Spin (Test 7 1500)" using ex_race by blast
  then show ?thesis using sniff_no_deadlock by metis
qed

end
