(* ===== verification/Pcap.thy ===== *)
theory Pcap
  imports Capture
begin

text \<open>
  The pcap recorder \<open>pcap_log_pkts\<close> (\<open>src/moonsniff.cpp\<close>). The file is a mapping of memory of a given
  size that doubles when it runs full; a copy that does not fit, or into a mapping that could
  not be made, is \<open>OutOfBounds\<close>. The parameters \<open>mmap_ok\<close> and \<open>remap_ok n\<close> say whether mapping the
  file, and enlarging the mapping of size \<open>n\<close>, succeeds; the code reports a failure and goes on.
\<close>

section \<open>The mapping\<close>

record mapping =
  map_size :: nat
  map_offset :: nat
  map_mem :: "nat \<Rightarrow> u8"
  map_valid :: bool

definition memcpy :: "nat \<Rightarrow> bytes \<Rightarrow> mapping \<Rightarrow> mapping res" where
  "memcpy off bs m =
     (if map_valid m \<and> off + length bs \<le> map_size m
      then Inr (m\<lparr>map_mem := (\<lambda>i. if off \<le> i \<and> i < off + length bs then bs ! (i - off) else map_mem m i)\<rparr>)
      else Inl OutOfBounds)"

definition INITIAL_FILE_SIZE :: nat where
  "INITIAL_FILE_SIZE = 512 * 1024 * 1024"

definition TCPDUMP_MAGIC_NANO :: u32 where
  "TCPDUMP_MAGIC_NANO = 0xA1B23C4D"

section \<open>Headers\<close>

record pcap_hdr =
  magic_number :: u32
  version_major :: u16
  version_minor :: u16
  thiszone :: u32
  sigfigs :: u32
  snaplen :: u32
  pnetwork :: u32

record pcaprec_hdr =
  ts_sec :: u32
  ts_usec :: u32
  incl_len :: u32
  orig_len :: u32

definition hdr_bytes :: "pcap_hdr \<Rightarrow> bytes" where
  "hdr_bytes h = put32 (magic_number h) @ le_bytes 2 (unat (version_major h)) @ le_bytes 2 (unat (version_minor h)) @
     put32 (thiszone h) @ put32 (sigfigs h) @ put32 (snaplen h) @ put32 (pnetwork h)"

definition rechdr_bytes :: "pcaprec_hdr \<Rightarrow> bytes" where
  "rechdr_bytes r = put32 (ts_sec r) @ put32 (ts_usec r) @ put32 (incl_len r) @ put32 (orig_len r)"

definition the_hdr :: "u32 \<Rightarrow> pcap_hdr" where
  "the_hdr snap_len = \<lparr>magic_number = TCPDUMP_MAGIC_NANO, version_major = 2, version_minor = 4, thiszone = 0, sigfigs = 0,
     snaplen = snap_len, pnetwork = 1\<rparr>"

section \<open>The recorder\<close>

definition packetLengthAdjust :: "bool \<Rightarrow> u32" where
  "packetLengthAdjust embedded = (if embedded then 0 else 8)"

definition included :: "bool \<Rightarrow> u32 \<Rightarrow> mbuf \<Rightarrow> u32" where
  "included embedded snap_len p =
     (if pkt_len p - packetLengthAdjust embedded < snap_len then pkt_len p - packetLengthAdjust embedded else snap_len)"

definition grow :: "(nat \<Rightarrow> bool) \<Rightarrow> mbuf \<Rightarrow> mapping \<Rightarrow> mapping" where
  "grow remap_ok p m =
     (if map_size m \<le> map_offset m + unat (pkt_len p) + 8
      then m\<lparr>map_valid := remap_ok (map_size m), map_size := map_size m * 2\<rparr>
      else m)"

definition split_stamp :: "bool \<Rightarrow> mbuf \<Rightarrow> (u32 \<times> u32) res" where
  "split_stamp embedded p =
     (if embedded then Inr (ucast (ts_field p mod 1000000000), ucast (ts_field p div 1000000000)) else trailer p)"

definition pcap_pkt :: "u64 \<Rightarrow> bool \<Rightarrow> u32 \<Rightarrow> (nat \<Rightarrow> bool) \<Rightarrow> mapping \<Rightarrow> mbuf \<Rightarrow> (mbuf list \<times> mapping) res" where
  "pcap_pkt tmst embedded snap_len remap_ok m p =
     rbind (if stamped tmst embedded p
            then let incl = included embedded snap_len p;
                     m = grow remap_ok p m
                 in rbind (split_stamp embedded p) (\<lambda>(low, high).
                    let rechdr = \<lparr>ts_sec = high, ts_usec = low, incl_len = incl, orig_len = pkt_len p - packetLengthAdjust embedded\<rparr>
                    in rbind (memcpy (map_offset m) (rechdr_bytes rechdr) m) (\<lambda>m.
                       if unat incl \<le> length (pkt_data p)
                       then rbind (memcpy (map_offset m + 16) (take (unat incl) (pkt_data p)) m) (\<lambda>m.
                            Inr (m\<lparr>map_offset := map_offset m + unat (incl + 16)\<rparr>))
                       else Inl OutOfBounds))
            else Inr m)
       (\<lambda>m. Inr ([p], m))"

text \<open>The result is the file after the final \<open>ftruncate\<close> and the buffers released.\<close>

definition pcap_log_pkts :: "u64 \<Rightarrow> bool \<Rightarrow> u32 \<Rightarrow> bool \<Rightarrow> (nat \<Rightarrow> bool) \<Rightarrow> mbuf list list \<Rightarrow> (bytes \<times> mbuf list) res" where
  "pcap_log_pkts tmst embedded snap_len mmap_ok remap_ok bursts =
     rbind (memcpy 0 (hdr_bytes (the_hdr snap_len))
              \<lparr>map_size = INITIAL_FILE_SIZE, map_offset = 0, map_mem = (\<lambda>_. 0), map_valid = mmap_ok\<rparr>) (\<lambda>m.
     rbind (run_loop (\<lambda>m rx_pkts. run_loop (pcap_pkt tmst embedded snap_len remap_ok) m rx_pkts)
              (m\<lparr>map_offset := map_offset m + 24\<rparr>) bursts) (\<lambda>(released, m).
     Inr (map (map_mem m) [0..<map_offset m], released)))"

section \<open>The file format\<close>

text \<open>A record: seconds, nanoseconds, length of the original packet, captured bytes.\<close>

type_synonym pcap_rec = "u32 \<times> u32 \<times> u32 \<times> bytes"

function parse_recs :: "bytes \<Rightarrow> pcap_rec list option" where
  "parse_recs bs =
     (if bs = [] then Some []
      else if length bs < 16 \<or> length bs < 16 + unat (get32 (drop 8 bs)) then None
      else map_option (Cons (get32 bs, get32 (drop 4 bs), get32 (drop 12 bs), take (unat (get32 (drop 8 bs))) (drop 16 bs)))
             (parse_recs (drop (16 + unat (get32 (drop 8 bs))) bs)))"
  by auto
termination
  by (relation "measure length") auto

declare parse_recs.simps [simp del]

definition parse_pcap :: "bytes \<Rightarrow> (u32 \<times> pcap_rec list) option" where
  "parse_pcap bs =
     (if length bs < 24 \<or> get32 bs \<noteq> 0xA1B23C4D \<or> get32 (drop 20 bs) \<noteq> 1 then None
      else map_option (Pair (get32 (drop 16 bs))) (parse_recs (drop 24 bs)))"

definition put_pcap :: "pcap_rec \<Rightarrow> bytes" where
  "put_pcap = (\<lambda>(s, ns, len, d). put32 s @ put32 ns @ put32 (of_nat (length d)) @ put32 len @ d)"

lemma concat_replicate_single: "concat (replicate n [x]) = replicate n x"
  by (induction n) auto

lemma parse_recs_Cons:
  assumes "length d < 2 ^ 32"
  shows "parse_recs (put_pcap (s, ns, len, d) @ rest) = map_option (Cons (s, ns, len, d)) (parse_recs rest)"
proof -
  define bs where "bs = put_pcap (s, ns, len, d) @ rest"
  have "unat (of_nat (length d) :: u32) = length d" using assms by (simp add: unat_of_nat take_bit_nat_eq_self)
  then have "get32 bs = s" "get32 (drop 4 bs) = ns" "unat (get32 (drop 8 bs)) = length d" "get32 (drop 12 bs) = len"
    "take (length d) (drop 16 bs) = d" "drop (16 + length d) bs = rest" "length bs = 16 + length d + length rest"
    by (simp_all add: bs_def put_pcap_def)
  moreover from this(7) have "bs \<noteq> []" by auto
  ultimately show ?thesis unfolding bs_def[symmetric] by (subst parse_recs.simps) simp
qed

lemma parse_recs_put:
  "\<forall>(s, ns, len, d)\<in>set rs. length d < 2 ^ 32 \<Longrightarrow> parse_recs (concat (map put_pcap rs)) = Some rs"
proof (induction rs)
  case (Cons r rs)
  then show ?case by (cases r) (simp add: parse_recs_Cons)
qed (simp add: parse_recs.simps)

section \<open>What is in the mapping\<close>

definition contents :: "mapping \<Rightarrow> bytes" where
  "contents m = map (map_mem m) [0..<map_offset m]"

lemma length_contents [simp]: "length (contents m) = map_offset m"
  by (simp add: contents_def)

text \<open>Bytes that are copied to the end become part of the contents when the offset moves.\<close>

lemma memcpy_append:
  assumes "memcpy (map_offset m) bs m = Inr m'"
  shows "contents (m'\<lparr>map_offset := map_offset m + length bs\<rparr>) = contents m @ bs"
proof (rule nth_equalityI)
  show "length (contents (m'\<lparr>map_offset := map_offset m + length bs\<rparr>)) = length (contents m @ bs)" by simp
  fix i assume "i < length (contents (m'\<lparr>map_offset := map_offset m + length bs\<rparr>))"
  then show "contents (m'\<lparr>map_offset := map_offset m + length bs\<rparr>) ! i = (contents m @ bs) ! i"
    using assms by (auto simp: contents_def memcpy_def nth_append split: if_splits)
qed

lemma memcpy_fields:
  assumes "memcpy off bs m = Inr m'"
  shows "map_offset m' = map_offset m" "map_size m' = map_size m" "map_valid m' = map_valid m"
  using assms by (auto simp: memcpy_def split: if_splits)

lemma memcpy_offset:
  "memcpy off bs m = Inr m' \<Longrightarrow> memcpy off bs (m\<lparr>map_offset := k\<rparr>) = Inr (m'\<lparr>map_offset := k\<rparr>)"
  by (cases m) (auto simp: memcpy_def fun_eq_iff split: if_splits)

text \<open>The record of a packet.\<close>

definition pcap_record :: "bool \<Rightarrow> u32 \<Rightarrow> mbuf \<Rightarrow> pcap_rec" where
  "pcap_record embedded snap_len p =
     (let (low, high) = (case split_stamp embedded p of Inr x \<Rightarrow> x | Inl _ \<Rightarrow> (0, 0))
      in (high, low, pkt_len p - packetLengthAdjust embedded, take (unat (included embedded snap_len p)) (pkt_data p)))"

lemma rechdr_put:
  "length d = unat n \<Longrightarrow> rechdr_bytes \<lparr>ts_sec = s, ts_usec = ns, incl_len = n, orig_len = len\<rparr> @ d = put_pcap (s, ns, len, d)"
  by (simp add: rechdr_bytes_def put_pcap_def)

lemma grow_fields: "map_offset (grow r p m) = map_offset m" "contents (grow r p m) = contents m"
  by (simp_all add: grow_def contents_def)

lemma pcap_pkt_contents:
  assumes "pcap_pkt tmst embedded snap_len remap_ok m p = Inr (rel, m')" "length (pkt_data p) \<le> 65535"
  shows "rel = [p] \<and> contents m' = contents m @ (if stamped tmst embedded p then put_pcap (pcap_record embedded snap_len p) else [])"
proof (cases "stamped tmst embedded p")
  case True
  define incl where "incl = included embedded snap_len p"
  define m0 where "m0 = grow remap_ok p m"
  define len where "len = pkt_len p - packetLengthAdjust embedded"
  from assms(1) True obtain low high m1 m2 where
    st: "split_stamp embedded p = Inr (low, high)" and
    c1: "memcpy (map_offset m0) (rechdr_bytes \<lparr>ts_sec = high, ts_usec = low, incl_len = incl, orig_len = len\<rparr>) m0 = Inr m1" and
    fits: "unat incl \<le> length (pkt_data p)" and
    c2: "memcpy (map_offset m1 + 16) (take (unat incl) (pkt_data p)) m1 = Inr m2" and
    m': "m' = m2\<lparr>map_offset := map_offset m2 + unat (incl + 16)\<rparr>" and rel: "rel = [p]"
    unfolding incl_def m0_def len_def by (auto simp: pcap_pkt_def Let_def res_simps split: if_splits)
  have n: "unat (incl + 16) = unat incl + 16" using fits assms(2) by (simp add: unat_word_ariths(1))
  let ?m1 = "m1\<lparr>map_offset := map_offset m0 + 16\<rparr>"
  have "contents ?m1 = contents m0 @ rechdr_bytes \<lparr>ts_sec = high, ts_usec = low, incl_len = incl, orig_len = len\<rparr>"
    using memcpy_append[OF c1] by (simp add: rechdr_bytes_def)
  moreover have "contents m' = contents ?m1 @ take (unat incl) (pkt_data p)"
  proof -
    have "memcpy (map_offset ?m1) (take (unat incl) (pkt_data p)) ?m1 = Inr (m2\<lparr>map_offset := map_offset m0 + 16\<rparr>)"
      using memcpy_offset[OF c2] memcpy_fields(1)[OF c1] by simp
    from memcpy_append[OF this] show ?thesis
      using fits memcpy_fields[OF c1] memcpy_fields[OF c2] by (simp add: m' n add.commute add.left_commute)
  qed
  moreover have "rechdr_bytes \<lparr>ts_sec = high, ts_usec = low, incl_len = incl, orig_len = len\<rparr> @ take (unat incl) (pkt_data p) =
      put_pcap (pcap_record embedded snap_len p)"
    using fits by (simp add: rechdr_put pcap_record_def st incl_def len_def)
  ultimately show ?thesis using True rel by (simp add: m0_def grow_fields)
qed (use assms in \<open>simp add: pcap_pkt_def\<close>)

abbreviation pcap_file :: "u64 \<Rightarrow> bool \<Rightarrow> u32 \<Rightarrow> mbuf list \<Rightarrow> bytes" where
  "pcap_file tmst embedded snap_len ps \<equiv>
     concat (map put_pcap (map (pcap_record embedded snap_len) (filter (stamped tmst embedded) ps)))"

lemma pcap_burst_contents:
  assumes "run_loop (pcap_pkt tmst embedded snap_len remap_ok) m ps = Inr (rel, m')" "\<forall>p\<in>set ps. length (pkt_data p) \<le> 65535"
  shows "rel = ps \<and> contents m' = contents m @ pcap_file tmst embedded snap_len ps"
  using assms
proof (induction ps arbitrary: m rel)
  case (Cons p ps)
  from Cons.prems(1) obtain r1 m1 r2 where 1: "pcap_pkt tmst embedded snap_len remap_ok m p = Inr (r1, m1)"
    and 2: "run_loop (pcap_pkt tmst embedded snap_len remap_ok) m1 ps = Inr (r2, m')" and rel: "rel = r1 @ r2"
    by (auto simp: run_loop_Cons)
  show ?case using pcap_pkt_contents[OF 1] Cons.IH[OF 2] Cons.prems(2) rel by simp
qed simp

lemma length_hdr [simp]: "length (hdr_bytes h) = 24"
  by (simp add: hdr_bytes_def)

lemma hdr_start:
  assumes "memcpy 0 (hdr_bytes (the_hdr snap_len)) \<lparr>map_size = n, map_offset = 0, map_mem = f, map_valid = v\<rparr> = Inr m"
  shows "map_offset m = 0" "contents (m\<lparr>map_offset := 24\<rparr>) = hdr_bytes (the_hdr snap_len)" "map_size m = n" "map_valid m = v"
  using memcpy_append[of "\<lparr>map_size = n, map_offset = 0, map_mem = f, map_valid = v\<rparr>" "hdr_bytes (the_hdr snap_len)" m]
    memcpy_fields[OF assms] assms
  by (simp_all add: contents_def)

lemma parse_hdr:
  "parse_pcap (hdr_bytes (the_hdr snap_len) @ bs) = map_option (Pair snap_len) (parse_recs bs)"
proof -
  define f where "f = hdr_bytes (the_hdr snap_len) @ bs"
  have "get32 f = 0xA1B23C4D" "get32 (drop 16 f) = snap_len" "get32 (drop 20 f) = 1" "drop 24 f = bs" "24 \<le> length f"
    by (simp_all add: f_def hdr_bytes_def the_hdr_def TCPDUMP_MAGIC_NANO_def)
  then show ?thesis by (simp add: f_def[symmetric] parse_pcap_def)
qed


section \<open>Bounds\<close>

text \<open>A mapping in use; \<open>fits p\<close>: the buffer holds the packet and its trailer.\<close>

definition map_ok :: "mapping \<Rightarrow> bool" where
  "map_ok m \<longleftrightarrow> map_valid m \<and> map_offset m \<le> map_size m \<and> INITIAL_FILE_SIZE \<le> map_size m"

definition fits :: "mbuf \<Rightarrow> bool" where
  "fits p \<longleftrightarrow> 8 \<le> unat (pkt_len p) \<and> unat (pkt_len p) \<le> length (pkt_data p) \<and> length (pkt_data p) \<le> 65535"

lemma memcpy_fits:
  "map_valid m \<Longrightarrow> off + length bs \<le> map_size m \<Longrightarrow> \<exists>m'. memcpy off bs m = Inr m' \<and>
     map_offset m' = map_offset m \<and> map_size m' = map_size m \<and> map_valid m'"
  by (simp add: memcpy_def)

lemma pcap_pkt_total:
  assumes "map_ok m" "\<forall>n. remap_ok n" "fits p"
  shows "\<exists>m'. pcap_pkt tmst False snap_len remap_ok m p = Inr ([p], m') \<and> map_ok m'"
proof (cases "stamped tmst False p")
  case True
  define m0 where "m0 = grow remap_ok p m"
  define incl where "incl = included False snap_len p"
  have p: "8 \<le> unat (pkt_len p)" "unat (pkt_len p) \<le> length (pkt_data p)" "length (pkt_data p) \<le> 65535"
    using assms(3) by (auto simp: fits_def)
  have len: "unat (pkt_len p - 8) = unat (pkt_len p) - 8" using p(1) by (simp add: unat_sub word_le_nat_alt)
  then have incl: "unat incl \<le> unat (pkt_len p) - 8"
    by (auto simp: incl_def included_def packetLengthAdjust_def word_less_nat_alt)
  have m0: "map_valid m0" "map_offset m0 + unat (pkt_len p) + 8 \<le> map_size m0" "INITIAL_FILE_SIZE \<le> map_size m0"
    using assms(1,2) p by (auto simp: m0_def grow_def map_ok_def INITIAL_FILE_SIZE_def)
  obtain low high where st: "split_stamp False p = Inr (low, high)"
    using trailer_eq[of 0 p] p by (auto simp: split_stamp_def pkt_ok_def)
  define hb where "hb = rechdr_bytes \<lparr>ts_sec = high, ts_usec = low, incl_len = incl, orig_len = pkt_len p - packetLengthAdjust False\<rparr>"
  have "length hb = 16" by (simp add: hb_def rechdr_bytes_def)
  then have "map_offset m0 + length hb \<le> map_size m0" using m0(2) p(1) by simp
  from memcpy_fits[OF m0(1) this] obtain m1 where
    m1: "memcpy (map_offset m0) hb m0 = Inr m1" "map_offset m1 = map_offset m0" "map_size m1 = map_size m0" "map_valid m1" by blast
  have "map_offset m1 + 16 + length (take (unat incl) (pkt_data p)) \<le> map_size m1" using m1 m0(2) incl p(1) by simp
  from memcpy_fits[OF m1(4) this] obtain m2 where
    m2: "memcpy (map_offset m1 + 16) (take (unat incl) (pkt_data p)) m1 = Inr m2" "map_offset m2 = map_offset m0"
      "map_size m2 = map_size m0" "map_valid m2" using m1(2,3) by auto
  have n: "unat (incl + 16) = unat incl + 16" using incl p by (simp add: unat_word_ariths(1))
  let ?m' = "m2\<lparr>map_offset := map_offset m2 + unat (incl + 16)\<rparr>"
  have "unat incl \<le> length (pkt_data p)" using incl p by simp
  then have "pcap_pkt tmst False snap_len remap_ok m p = Inr ([p], ?m')"
    using True m1(1) m2(1) by (simp add: pcap_pkt_def Let_def st m0_def[symmetric] incl_def[symmetric] hb_def)
  moreover have "map_ok ?m'" using m2 m0 n incl p(1) by (simp add: map_ok_def)
  ultimately show ?thesis by blast
qed (use assms in \<open>simp add: pcap_pkt_def\<close>)

lemma hdr_fits:
  "\<exists>m. memcpy 0 (hdr_bytes (the_hdr snap_len)) \<lparr>map_size = INITIAL_FILE_SIZE, map_offset = 0, map_mem = f, map_valid = True\<rparr> = Inr m \<and>
     map_offset m = 0 \<and> map_size m = INITIAL_FILE_SIZE \<and> map_valid m"
  using memcpy_fits[of "\<lparr>map_size = INITIAL_FILE_SIZE, map_offset = 0, map_mem = f, map_valid = True\<rparr>" 0 "hdr_bytes (the_hdr snap_len)"]
  by (simp add: INITIAL_FILE_SIZE_def)

lemma pcap_returns:
  assumes "\<forall>n. remap_ok n" "\<forall>p\<in>set (concat bursts). fits p"
  shows "\<exists>content released. pcap_log_pkts tmst False snap_len True remap_ok bursts = Inr (content, released)"
proof -
  obtain m where m: "memcpy 0 (hdr_bytes (the_hdr snap_len)) \<lparr>map_size = INITIAL_FILE_SIZE, map_offset = 0, map_mem = (\<lambda>_. 0), map_valid = True\<rparr> = Inr m"
    "map_offset m = 0" "map_size m = INITIAL_FILE_SIZE" "map_valid m" using hdr_fits by blast
  have "map_ok (m\<lparr>map_offset := map_offset m + 24\<rparr>)" using m by (simp add: map_ok_def INITIAL_FILE_SIZE_def)
  then have "\<exists>out t. run_loop (pcap_pkt tmst False snap_len remap_ok) (m\<lparr>map_offset := map_offset m + 24\<rparr>) (concat bursts) = Inr (out, t) \<and> map_ok t"
    by (rule run_loop_total [rotated]) (use pcap_pkt_total assms in blast)
  then show ?thesis using m(1) by (auto simp: pcap_log_pkts_def run_loop_concat)
qed

definition ex_captured :: mbuf where
  "ex_captured = ex_trail\<lparr>ol_flags := 1024\<rparr>"

lemma ex_captured_fits: "fits ex_captured"
  by (simp add: fits_def ex_captured_def ex_trail_def ex_pkt_def)

lemma ex_captured_record: "pcap_record False 4 ex_captured = (5, 7, 52, [0, 0, 0, 0])"
proof -
  have t: "trailer ex_captured = Inr (7, 5)" using ex_trailer by (simp add: trailer_def ex_captured_def)
  have len: "pkt_len ex_captured = 60" by (simp add: ex_captured_def ex_trail_def ex_pkt_def)
  have "take 4 (pkt_data ex_captured) = replicate 4 0" by (simp add: ex_captured_def ex_trail_def)
  then have "take 4 (pkt_data ex_captured) = [0, 0, 0, 0]" by (simp add: numeral_eq_Suc)
  then show ?thesis
    by (simp add: pcap_record_def split_stamp_def included_def packetLengthAdjust_def t len)
qed


text \<open>(C31) With time stamps at the end of the packets, the recorder stays inside its buffers: if the file
  can be mapped and enlarged, and every buffer holds its packet, then it returns, however many
  packets arrive and however often the mapping grows.\<close>

theorem pcap_in_bounds:
  assumes "\<forall>n. remap_ok n" "\<forall>p\<in>set (concat bursts). fits p"
  shows "\<exists>content released. pcap_log_pkts tmst False snap_len True remap_ok bursts = Inr (content, released)"
  using assms by (rule pcap_returns)

theorem pcap_in_bounds_witness:
  "\<exists>content released. pcap_log_pkts 1024 False 64 True (\<lambda>_. True) [[ex_captured], [ex_captured, ex_captured]] = Inr (content, released)"
  by (rule pcap_in_bounds) (simp_all add: ex_captured_fits)

section \<open>The missing bytes\<close>

text \<open>With the time stamp in the buffer, a record takes 16 bytes and the packet, but room is made for
  the packet and 8 bytes only.\<close>

lemma pcap_embedded_step:
  assumes "map_valid m" "map_offset m + 82 \<le> map_size m" "pkt_len p = 66" "66 \<le> length (pkt_data p)" "66 \<le> snap_len"
  shows "\<exists>m'. pcap_pkt tmst True snap_len remap_ok m p = Inr ([p], m') \<and> map_valid m' \<and> map_size m' = map_size m \<and>
    map_offset m' = map_offset m + 82"
proof -
  have incl: "included True snap_len p = 66" using assms(3,5) by (auto simp: included_def packetLengthAdjust_def)
  define hb where "hb = rechdr_bytes \<lparr>ts_sec = ucast (ts_field p div 1000000000), ts_usec = ucast (ts_field p mod 1000000000),
    incl_len = 66, orig_len = pkt_len p - packetLengthAdjust True\<rparr>"
  have "length hb = 16" by (simp add: hb_def rechdr_bytes_def)
  then have "map_offset m + length hb \<le> map_size m" using assms(2) by simp
  from memcpy_fits[OF assms(1) this] obtain m1 where
    m1: "memcpy (map_offset m) hb m = Inr m1" "map_offset m1 = map_offset m" "map_size m1 = map_size m" "map_valid m1" by blast
  have "map_offset m1 + 16 + length (take 66 (pkt_data p)) \<le> map_size m1" using m1 assms(2,4) by simp
  from memcpy_fits[OF m1(4) this] obtain m2 where
    m2: "memcpy (map_offset m1 + 16) (take 66 (pkt_data p)) m1 = Inr m2" "map_offset m2 = map_offset m" "map_size m2 = map_size m" "map_valid m2"
    using m1(2,3) by auto
  have g: "grow remap_ok p m = m" using assms(2,3) by (simp add: grow_def)
  have "pcap_pkt tmst True snap_len remap_ok m p = Inr ([p], m2\<lparr>map_offset := map_offset m2 + 82\<rparr>)"
    using m1(1) m2(1) assms(4)
    by (simp add: pcap_pkt_def stamped_def Let_def split_stamp_def incl g hb_def[symmetric])
  then show ?thesis using m2 by simp
qed

lemma pcap_embedded_last:
  assumes "map_offset m + 74 < map_size m" "map_size m < map_offset m + 82" "pkt_len p = 66" "66 \<le> length (pkt_data p)" "66 \<le> snap_len"
  shows "pcap_pkt tmst True snap_len remap_ok m p = Inl OutOfBounds"
proof -
  have incl: "included True snap_len p = 66" using assms(3,5) by (auto simp: included_def packetLengthAdjust_def)
  have g: "grow remap_ok p m = m" using assms(1,3) by (simp add: grow_def)
  have "rbind (memcpy (map_offset m) hb m) (\<lambda>m. rbind (memcpy (map_offset m + 16) (take 66 (pkt_data p)) m) f) = Inl OutOfBounds" for hb and f :: "mapping \<Rightarrow> mapping res"
    using assms(2,4) by (cases "memcpy (map_offset m) hb m") (auto simp: memcpy_def split: if_splits)
  then show ?thesis using assms(4) by (simp add: pcap_pkt_def stamped_def Let_def split_stamp_def incl g)
qed

lemma pcap_embedded_run:
  assumes "map_valid m" "map_offset m + 82 * n + 74 < map_size m" "map_size m < map_offset m + 82 * n + 82"
    and "pkt_len p = 66" "66 \<le> length (pkt_data p)" "66 \<le> snap_len"
  shows "run_loop (pcap_pkt tmst True snap_len remap_ok) m (replicate (Suc n) p) = Inl OutOfBounds"
  using assms(1-3)
proof (induction n arbitrary: m)
  case 0
  then show ?case using pcap_embedded_last[OF _ _ assms(4-6)] by (simp add: run_loop.simps)
next
  case (Suc n)
  have "map_offset m + 82 \<le> map_size m" using Suc.prems(2) by simp
  from pcap_embedded_step[OF Suc.prems(1) this assms(4-6), of tmst remap_ok] obtain m' where
    m': "pcap_pkt tmst True snap_len remap_ok m p = Inr ([p], m')" "map_valid m'" "map_size m' = map_size m" "map_offset m' = map_offset m + 82"
    by blast
  have "run_loop (pcap_pkt tmst True snap_len remap_ok) m' (replicate (Suc n) p) = Inl OutOfBounds"
    using Suc.prems m' by (intro Suc.IH) auto
  then show ?case using m'(1) by (simp add: run_loop.simps)
qed

text \<open>(C36) With time stamps in the buffers, the recorder can write past its mapping: it does when 6547206
  packets of 66 bytes arrive, in whatever bursts, although the file was mapped and nothing failed.\<close>

theorem pcap_embedded_overflow:
  assumes "pkt_len p = 66" "66 \<le> length (pkt_data p)" "66 \<le> snap_len" "concat bursts = replicate 6547206 p"
  shows "pcap_log_pkts tmst True snap_len True remap_ok bursts = Inl OutOfBounds"
proof -
  obtain m where m: "memcpy 0 (hdr_bytes (the_hdr snap_len)) \<lparr>map_size = INITIAL_FILE_SIZE, map_offset = 0, map_mem = (\<lambda>_. 0), map_valid = True\<rparr> = Inr m"
    "map_offset m = 0" "map_size m = INITIAL_FILE_SIZE" "map_valid m" using hdr_fits by blast
  have "run_loop (pcap_pkt tmst True snap_len remap_ok) (m\<lparr>map_offset := map_offset m + 24\<rparr>) (replicate (Suc 6547205) p) = Inl OutOfBounds"
    by (rule pcap_embedded_run) (use m assms in \<open>simp_all add: INITIAL_FILE_SIZE_def\<close>)
  then show ?thesis using m(1) assms(4) by (simp add: pcap_log_pkts_def run_loop_concat)
qed

theorem pcap_embedded_overflow_witness:
  "pcap_log_pkts 1024 True 128 True (\<lambda>_. True) (replicate 6547206 [(ex_pkt 0)\<lparr>pkt_len := 66, pkt_data := replicate 66 0\<rparr>]) = Inl OutOfBounds"
proof (rule pcap_embedded_overflow)
  show "concat (replicate 6547206 [(ex_pkt 0)\<lparr>pkt_len := 66, pkt_data := replicate 66 0\<rparr>]) =
      replicate 6547206 ((ex_pkt 0)\<lparr>pkt_len := 66, pkt_data := replicate 66 0\<rparr>)"
    by (rule concat_replicate_single)
qed simp_all

end
