(* ===== verification/RateLimiter.thy ===== *)
theory RateLimiter
  imports Mbuf Tsc Hist
begin

text \<open>
  The software rate limiter (\<open>src/software-rate-limiter.cpp\<close>): three loops that take packets out of a
  ring and give each to the network card when the time-stamp counter has reached the time
  scheduled for it, at constant, exponentially distributed or per-packet gaps.

  \<^item> \<open>env\<close> is what the loops see of the world: the readings of the counter, whether the card accepts
    the packet at each attempt, and the two conditions of \<open>limiter_control::running\<close> at each call.
  \<^item> \<open>limiter\<close> is the state of a loop: how much of the world it has used up, its local \<open>next_send\<close>, the
    counter of the control block, and \<open>sent\<close>, the packets the card has accepted, each with the
    time scheduled for it and the reading that ended the wait.
  \<^item> A loop may wait forever (\<open>None\<close>), and it may be stopped, which \<open>False\<close> in its result says.
  \<^item> The locale \<open>sender\<close> is the contract of sending one packet; each of the three loops is an
    instance.
\<close>

section \<open>The world and the state\<close>

record env =
  tsc :: "nat \<Rightarrow> u64"
  tsc_hz :: u64
  accepts :: "nat \<Rightarrow> bool"
  alive :: "nat \<Rightarrow> bool"
  stops :: "nat \<Rightarrow> u64"

record limiter =
  readings :: nat
  attempts :: nat
  checks :: nat
  draws :: nat
  next_send :: u64
  ctl_count :: u64
  sent :: "(u64 \<times> u64 \<times> mbuf) list"

abbreviation batch_size :: nat where
  "batch_size \<equiv> 64"

definition running :: "env \<Rightarrow> nat \<Rightarrow> bool" where
  "running e k \<longleftrightarrow> alive e k \<and> \<not> stops e k \<noteq> 0"

definition count_packets :: "nat \<Rightarrow> limiter \<Rightarrow> limiter" where
  "count_packets n s = s\<lparr>ctl_count := ctl_count s + of_nat n\<rparr>"

section \<open>Steps the loops share\<close>

text \<open>\<open>while ((cur = rte_get_tsc_cycles()) < t);\<close>\<close>

definition spin :: "env \<Rightarrow> u64 \<Rightarrow> limiter \<Rightarrow> (u64 \<times> limiter) run" where
  "spin e t s = map_option (\<lambda>k. Inr (tsc e (k - 1), s\<lparr>readings := k\<rparr>)) (tsc_wait (tsc e) t (readings s))"

text \<open>\<open>while (rte_eth_tx_burst(\<dots>) == 0) if (!ctl->running()) return;\<close>\<close>

partial_function (option) tx_wait :: "env \<Rightarrow> nat \<Rightarrow> nat \<Rightarrow> (bool \<times> nat \<times> nat) option" where
  "tx_wait e a c =
     (if accepts e a then Some (True, Suc a, c)
      else if running e c then tx_wait e (Suc a) (Suc c)
      else Some (False, Suc a, Suc c))"

definition transmit :: "env \<Rightarrow> u64 \<Rightarrow> u64 \<Rightarrow> mbuf \<Rightarrow> limiter \<Rightarrow> (bool \<times> limiter) run" where
  "transmit e t cur p s = map_option (\<lambda>(ok, a, c).
       Inr (ok, s\<lparr>attempts := a, checks := c, sent := sent s @ (if ok then [(t, cur, p)] else [])\<rparr>))
     (tx_wait e (attempts s) (checks s))"

text \<open>A loop whose body may return from the function.\<close>

fun loop_until :: "('s \<Rightarrow> 'x \<Rightarrow> (bool \<times> 's) run) \<Rightarrow> 's \<Rightarrow> 'x list \<Rightarrow> (bool \<times> 's) run" where
  "loop_until f s [] = Some (Inr (True, s))"
| "loop_until f s (x # xs) = obind (f s x) (\<lambda>(go, s'). if go then loop_until f s' xs else Some (Inr (False, s')))"

text \<open>The end of an iteration: the packets of the burst, or a look at the control block.\<close>

definition send_burst :: "env \<Rightarrow> (limiter \<Rightarrow> mbuf \<Rightarrow> (bool \<times> limiter) run) \<Rightarrow> mbuf list \<Rightarrow> limiter \<Rightarrow> (bool \<times> limiter) run" where
  "send_burst e f bufs s =
     (if bufs \<noteq> []
      then obind (loop_until f s bufs) (\<lambda>(go, s). Some (Inr (go, if go then count_packets (length bufs) s else s)))
      else Some (Inr (running e (checks s), s\<lparr>checks := Suc (checks s)\<rparr>)))"

text \<open>The start of an iteration with restart after 10 ms without a packet.\<close>

definition restart :: "env \<Rightarrow> limiter \<Rightarrow> limiter res" where
  "restart e s =
     (let cur = tsc e (readings s);
          s = s\<lparr>readings := Suc (readings s)\<rparr>
      in rbind (s64 (sint cur - sint (next_send s))) (\<lambda>d.
           Inr (if sint (tsc_hz e) sdiv 100 < d then s\<lparr>next_send := cur\<rparr> else s)))"

definition limiter0 :: limiter where
  "limiter0 = \<lparr>readings = 0, attempts = 0, checks = 0, draws = 0, next_send = 0, ctl_count = 0, sent = []\<rparr>"

section \<open>Constant bit rate\<close>

definition cbr_step :: "env \<Rightarrow> u64 \<Rightarrow> limiter \<Rightarrow> mbuf \<Rightarrow> (bool \<times> limiter) run" where
  "cbr_step e id_cycles s p =
     obind (spin e (next_send s) s) (\<lambda>(cur, s1).
       transmit e (next_send s) cur p (s1\<lparr>next_send := next_send s1 + id_cycles\<rparr>))"

definition cbr_iter :: "env \<Rightarrow> u64 \<Rightarrow> limiter \<Rightarrow> mbuf list \<Rightarrow> (bool \<times> limiter) run" where
  "cbr_iter e id_cycles s bufs = obind (Some (restart e s)) (send_burst e (cbr_step e id_cycles) bufs)"

definition cbr_cycles :: "env \<Rightarrow> u32 \<Rightarrow> u64 res" where
  "cbr_cycles e target = u64_of_d (d_of_u32 target / (Fin 1000000000 / d_of_u64 (tsc_hz e)))"

definition main_loop_cbr :: "env \<Rightarrow> u32 \<Rightarrow> mbuf list list \<Rightarrow> (bool \<times> limiter) run" where
  "main_loop_cbr e target bursts =
     obind (Some (cbr_cycles e target)) (\<lambda>id_cycles. loop_until (cbr_iter e id_cycles) limiter0 bursts)"

section \<open>Exponentially distributed gaps\<close>

text \<open>\<open>expo k avg\<close> is the \<open>k\<close>-th number drawn, for the mean \<open>avg\<close>.\<close>

definition pkt_cycles :: "env \<Rightarrow> u32 \<Rightarrow> mbuf \<Rightarrow> u64 res" where
  "pkt_cycles e link_speed p =
     (if link_speed div 1000 = 0 then Inl DivByZero
      else let pkt_time = ucast ((pkt_len p + 24) * 8 div (link_speed div 1000)) :: u64
           in u64_of_d (d_of_u64 pkt_time * (d_of_u64 (tsc_hz e) / Fin 1000000000)))"

definition poisson_avg :: "env \<Rightarrow> u32 \<Rightarrow> u64 \<Rightarrow> int res" where
  "poisson_avg e target pkt_time =
     rbind (s64_of_d (d_of_u64 (tsc_hz e) / (Fin 1000000000 / d_of_u32 target) - d_of_u64 pkt_time)) (\<lambda>w. Inr (sint w))"

definition poisson_step :: "env \<Rightarrow> (nat \<Rightarrow> int \<Rightarrow> double) \<Rightarrow> u32 \<Rightarrow> u32 \<Rightarrow> limiter \<Rightarrow> mbuf \<Rightarrow> (bool \<times> limiter) run" where
  "poisson_step e expo target link_speed s p =
     obind (Some (pkt_cycles e link_speed p)) (\<lambda>pkt_time.
     obind (Some (poisson_avg e target pkt_time)) (\<lambda>avg.
     obind (spin e (next_send s) s) (\<lambda>(cur, s1).
     let (delay, k) = (if avg \<le> 0 then (Fin 0, draws s1) else (expo (draws s1) avg, Suc (draws s1)))
     in obind (Some (u64_of_d (d_of_u64 (next_send s1) + (d_of_u64 pkt_time + delay)))) (\<lambda>nxt.
          transmit e (next_send s) cur p (s1\<lparr>next_send := nxt, draws := k\<rparr>)))))"

definition poisson_iter :: "env \<Rightarrow> (nat \<Rightarrow> int \<Rightarrow> double) \<Rightarrow> u32 \<Rightarrow> u32 \<Rightarrow> limiter \<Rightarrow> mbuf list \<Rightarrow> (bool \<times> limiter) run" where
  "poisson_iter e expo target link_speed s bufs =
     obind (Some (restart e s)) (send_burst e (poisson_step e expo target link_speed) bufs)"

definition main_loop_poisson :: "env \<Rightarrow> (nat \<Rightarrow> int \<Rightarrow> double) \<Rightarrow> u32 \<Rightarrow> u32 \<Rightarrow> mbuf list list \<Rightarrow> (bool \<times> limiter) run" where
  "main_loop_poisson e expo target link_speed bursts =
     loop_until (poisson_iter e expo target link_speed) limiter0 bursts"

section \<open>A gap per packet\<close>

text \<open>\<open>deq k n\<close> are the packets that the \<open>k\<close>-th call of \<open>ring_dequeue\<close> returns when it asks for \<open>n\<close>.
  The batch size is halved until a call returns packets; the loop then runs over the whole
  batch, and a place of the array behind the packets returned holds no packet.\<close>

fun dequeue :: "(nat \<Rightarrow> nat \<Rightarrow> mbuf list) \<Rightarrow> nat \<Rightarrow> nat \<Rightarrow> nat \<times> mbuf list \<times> nat" where
  "dequeue deq k cur_batch_size =
     (if deq k cur_batch_size = [] \<and> 1 < cur_batch_size then dequeue deq (Suc k) (cur_batch_size div 2)
      else (cur_batch_size, deq k cur_batch_size, Suc k))"

declare dequeue.simps [simp del]

definition gap_cycles :: "env \<Rightarrow> u32 \<Rightarrow> mbuf \<Rightarrow> u64 res" where
  "gap_cycles e link_speed p =
     u64_of_d (d_of_u64 (ts_field p * 8) / (d_of_u32 link_speed * Fin 1000000) * d_of_u64 (tsc_hz e))"

definition gap_step :: "env \<Rightarrow> u32 \<Rightarrow> limiter \<Rightarrow> mbuf option \<Rightarrow> (bool \<times> limiter) run" where
  "gap_step e link_speed s buf = (case buf of None \<Rightarrow> Some (Inl OutOfBounds) | Some p \<Rightarrow>
     obind (Some (gap_cycles e link_speed p)) (\<lambda>id_cycles.
     let s = s\<lparr>next_send := next_send s + id_cycles\<rparr>
     in obind (spin e (next_send s) s) (\<lambda>(cur, s1). transmit e (next_send s) cur p s1)))"

definition batch_array :: "nat \<Rightarrow> mbuf list \<Rightarrow> mbuf option list" where
  "batch_array n ps = map (\<lambda>i. if i < length ps then Some (ps ! i) else None) [0..<n]"

definition gap_iter :: "env \<Rightarrow> u32 \<Rightarrow> (nat \<Rightarrow> nat \<Rightarrow> mbuf list) \<Rightarrow> limiter \<times> nat \<Rightarrow> unit \<Rightarrow> (bool \<times> limiter \<times> nat) run" where
  "gap_iter e link_speed deq = (\<lambda>(s, k) _.
     let (cur_batch_size, ps, k') = dequeue deq k batch_size
     in if ps \<noteq> []
        then obind (loop_until (gap_step e link_speed) s (batch_array cur_batch_size ps)) (\<lambda>(go, s).
               Some (Inr (go, if go then count_packets (length ps) s else s, k')))
        else Some (Inr (running e (checks s), s\<lparr>checks := Suc (checks s)\<rparr>, k')))"

definition main_loop :: "env \<Rightarrow> u32 \<Rightarrow> (nat \<Rightarrow> nat \<Rightarrow> mbuf list) \<Rightarrow> nat \<Rightarrow> (bool \<times> limiter \<times> nat) run" where
  "main_loop e link_speed deq n =
     loop_until (gap_iter e link_speed deq) (limiter0\<lparr>readings := 1, next_send := tsc e 0\<rparr>, 0) (replicate n ())"

section \<open>Order and conservation\<close>

abbreviation pkts :: "(u64 \<times> u64 \<times> mbuf) list \<Rightarrow> mbuf list" where
  "pkts ys \<equiv> map (snd \<circ> snd) ys"

text \<open>From \<open>s\<close> to \<open>s'\<close> the card was given the packets \<open>xs\<close>, or the first of them when the loop was
  stopped, none of them before its time.\<close>

definition emits :: "limiter \<Rightarrow> mbuf list \<Rightarrow> bool \<Rightarrow> limiter \<Rightarrow> bool" where
  "emits s xs go s' \<longleftrightarrow> (\<exists>ys. sent s' = sent s @ ys \<and> (\<forall>(t, cur, p)\<in>set ys. t \<le> cur) \<and>
     prefix (pkts ys) xs \<and> (go \<longrightarrow> pkts ys = xs))"

lemma emits_refl: "sent s' = sent s \<Longrightarrow> emits s [] go s'"
  by (auto simp: emits_def)

lemma emits_trans: "emits s xs True s1 \<Longrightarrow> emits s1 ys go s2 \<Longrightarrow> emits s (xs @ ys) go s2"
proof -
  assume "emits s xs True s1" "emits s1 ys go s2"
  then obtain us vs where "sent s1 = sent s @ us" "\<forall>(t, cur, p)\<in>set us. t \<le> cur" "pkts us = xs"
      "sent s2 = sent s1 @ vs" "\<forall>(t, cur, p)\<in>set vs. t \<le> cur" "prefix (pkts vs) ys" "go \<longrightarrow> pkts vs = ys"
    by (auto simp: emits_def)
  then show ?thesis unfolding emits_def by (intro exI[of _ "us @ vs"]) auto
qed

lemma emits_stop: "emits s xs False s1 \<Longrightarrow> emits s (xs @ ys) False s1"
  by (auto simp: emits_def)

locale sender =
  fixes step :: "limiter \<Rightarrow> 'x \<Rightarrow> (bool \<times> limiter) run" and pkts_of :: "'x \<Rightarrow> mbuf list" and counted :: "'x \<Rightarrow> nat"
  assumes step_emits: "step s x = Some (Inr (go, s')) \<Longrightarrow> emits s (pkts_of x) go s'"
    and step_counts: "step s x = Some (Inr (True, s')) \<Longrightarrow> ctl_count s' = ctl_count s + of_nat (counted x)"
begin

lemma loop_emits: "loop_until step s xs = Some (Inr (go, s')) \<Longrightarrow> emits s (concat (map pkts_of xs)) go s'"
proof (induction xs arbitrary: s)
  case (Cons x xs)
  then obtain go1 s1 where 1: "step s x = Some (Inr (go1, s1))"
    and rest: "(if go1 then loop_until step s1 xs else Some (Inr (False, s1))) = Some (Inr (go, s'))"
    by (auto simp: obind_Inr_iff)
  show ?case
  proof (cases go1)
    case True
    then show ?thesis using emits_trans[of s "pkts_of x" s1] step_emits[OF 1] Cons.IH[of s1] rest by simp
  next
    case False
    then show ?thesis using emits_stop step_emits[OF 1] rest by auto
  qed
qed (simp add: emits_refl)

lemma loop_counts:
  "loop_until step s xs = Some (Inr (True, s')) \<Longrightarrow> ctl_count s' = ctl_count s + of_nat (sum_list (map counted xs))"
proof (induction xs arbitrary: s)
  case (Cons x xs)
  then obtain s1 where "step s x = Some (Inr (True, s1))" "loop_until step s1 xs = Some (Inr (True, s'))"
    by (auto simp: obind_Inr_iff split: if_splits)
  then show ?case using Cons.IH[of s1] step_counts by simp
qed simp

end

lemma tx_wait_cases:
  assumes "transmit e t cur p s = Some (Inr (go, s'))" "t \<le> cur"
  shows "emits s [p] go s'" "ctl_count s' = ctl_count s" "next_send s' = next_send s"
  using assms by (auto simp: transmit_def emits_def split: if_splits)

lemma spin_reads:
  assumes "spin e t s = Some (Inr (cur, s'))"
  shows "t \<le> cur" "sent s' = sent s" "ctl_count s' = ctl_count s" "next_send s' = next_send s" "\<exists>k. cur = tsc e k"
  using assms tsc_wait_reads by (auto simp: spin_def)

lemma emits_sent: "emits s1 xs go s2 \<Longrightarrow> sent s1 = sent s \<Longrightarrow> emits s xs go s2"
  by (simp add: emits_def)

lemma restart_keeps:
  "restart e s = Inr s' \<Longrightarrow> sent s' = sent s \<and> ctl_count s' = ctl_count s"
  by (auto simp: restart_def Let_def res_simps)

lemma spin_transmit:
  assumes "spin e t s = Some (Inr (cur, s1))" "transmit e t cur p s2 = Some (Inr (go, s'))"
    and "sent s2 = sent s1" "ctl_count s2 = ctl_count s1"
  shows "emits s [p] go s'" "ctl_count s' = ctl_count s" "next_send s' = next_send s2"
proof -
  note r = spin_reads[OF assms(1)]
  note t = tx_wait_cases[OF assms(2) r(1)]
  show "emits s [p] go s'" by (rule emits_sent[OF t(1)]) (simp add: assms(3) r(2))
  show "ctl_count s' = ctl_count s" "next_send s' = next_send s2" using t(2,3) r(3) assms(4) by simp_all
qed

text \<open>A sender of single packets makes the iteration with restart a sender of bursts.\<close>

locale packet_sender = sender step "\<lambda>p. [p]" "\<lambda>_. 0"
  for e :: env and step :: "limiter \<Rightarrow> mbuf \<Rightarrow> (bool \<times> limiter) run"
begin

lemma burst_emits:
  assumes "send_burst e step bufs s = Some (Inr (go, s'))"
  shows "emits s bufs go s'" "go \<Longrightarrow> ctl_count s' = ctl_count s + of_nat (length bufs)"
proof -
  have "emits s bufs go s' \<and> (go \<longrightarrow> ctl_count s' = ctl_count s + of_nat (length bufs))"
  proof (cases "bufs = []")
    case True
    then show ?thesis using assms by (auto simp: send_burst_def intro: emits_refl)
  next
    case False
    then obtain s1 where s1: "loop_until step s bufs = Some (Inr (go, s1))" "s' = (if go then count_packets (length bufs) s1 else s1)"
      using assms by (auto simp: send_burst_def obind_Inr_iff)
    have "sent s' = sent s1" "go \<longrightarrow> ctl_count s' = ctl_count s1 + of_nat (length bufs)"
      by (simp_all add: s1(2) count_packets_def)
    then show ?thesis using loop_emits[OF s1(1)] loop_counts s1(1) by (auto simp: emits_def)
  qed
  then show "emits s bufs go s'" "go \<Longrightarrow> ctl_count s' = ctl_count s + of_nat (length bufs)" by auto
qed

end

sublocale packet_sender \<subseteq> bursts: sender "\<lambda>s bufs. obind (Some (restart e s)) (send_burst e step bufs)" "\<lambda>b. b" length
proof
  fix s x go s' assume "obind (Some (restart e s)) (send_burst e step x) = Some (Inr (go, s'))"
  then obtain s1 where s1: "restart e s = Inr s1" "send_burst e step x s1 = Some (Inr (go, s'))" by (auto simp: obind_Inr_iff)
  show "emits s x go s'" by (rule emits_sent[OF burst_emits(1)[OF s1(2)]]) (simp add: restart_keeps[OF s1(1)])
next
  fix s x s' assume "obind (Some (restart e s)) (send_burst e step x) = Some (Inr (True, s'))"
  then obtain s1 where "restart e s = Inr s1" "send_burst e step x s1 = Some (Inr (True, s'))" by (auto simp: obind_Inr_iff)
  then show "ctl_count s' = ctl_count s + of_nat (length x)" using burst_emits(2) restart_keeps by auto
qed

interpretation cbs: packet_sender e "cbr_step e c" for e c
proof
  fix s x go s' assume "cbr_step e c s x = Some (Inr (go, s'))"
  then obtain cur s1 where st: "spin e (next_send s) s = Some (Inr (cur, s1))"
    "transmit e (next_send s) cur x (s1\<lparr>next_send := next_send s1 + c\<rparr>) = Some (Inr (go, s'))"
    by (auto simp: cbr_step_def obind_Inr_iff)
  show "emits s [x] go s'" using spin_transmit[OF st] by simp
next
  fix s x s' assume "cbr_step e c s x = Some (Inr (True, s'))"
  then obtain cur s1 where st: "spin e (next_send s) s = Some (Inr (cur, s1))"
    "transmit e (next_send s) cur x (s1\<lparr>next_send := next_send s1 + c\<rparr>) = Some (Inr (True, s'))"
    by (auto simp: cbr_step_def obind_Inr_iff)
  show "ctl_count s' = ctl_count s + of_nat 0" using spin_transmit[OF st] by simp
qed

lemma poisson_step_cases:
  assumes "poisson_step e expo target link_speed s p = Some (Inr (go, s'))"
  obtains cur s1 s2 where "spin e (next_send s) s = Some (Inr (cur, s1))" "transmit e (next_send s) cur p s2 = Some (Inr (go, s'))"
    "sent s2 = sent s1" "ctl_count s2 = ctl_count s1"
  using assms by (auto simp: poisson_step_def obind_Inr_iff Let_def split: if_splits)

interpretation pos: packet_sender e "poisson_step e expo target link_speed" for e expo target link_speed
proof
  fix s x go s' assume "poisson_step e expo target link_speed s x = Some (Inr (go, s'))"
  then show "emits s [x] go s'" by (rule poisson_step_cases) (rule spin_transmit(1))
next
  fix s x s' assume "poisson_step e expo target link_speed s x = Some (Inr (True, s'))"
  then show "ctl_count s' = ctl_count s + of_nat 0"
    by (rule poisson_step_cases) (simp add: spin_transmit(2))
qed

lemma gap_step_cases:
  assumes "gap_step e link_speed s x = Some (Inr (go, s'))"
  obtains p c cur s1 where "x = Some p" "gap_cycles e link_speed p = Inr c"
    "spin e (next_send s + c) (s\<lparr>next_send := next_send s + c\<rparr>) = Some (Inr (cur, s1))"
    "transmit e (next_send s + c) cur p s1 = Some (Inr (go, s'))"
  using assms by (auto simp: gap_step_def obind_Inr_iff Let_def split: option.splits)

interpretation gps: sender "gap_step e link_speed" "\<lambda>x. [the x]" "\<lambda>_. 0" for e link_speed
proof
  fix s x go s' assume "gap_step e link_speed s x = Some (Inr (go, s'))"
  then obtain p c cur s1 where p: "x = Some p" and st: "spin e (next_send s + c) (s\<lparr>next_send := next_send s + c\<rparr>) = Some (Inr (cur, s1))"
    "transmit e (next_send s + c) cur p s1 = Some (Inr (go, s'))" by (rule gap_step_cases)
  show "emits s [the x] go s'" using spin_transmit(1)[OF st] p by (simp add: emits_def)
next
  fix s x s' assume "gap_step e link_speed s x = Some (Inr (True, s'))"
  then obtain p c cur s1 where p: "x = Some p" and st: "spin e (next_send s + c) (s\<lparr>next_send := next_send s + c\<rparr>) = Some (Inr (cur, s1))"
    "transmit e (next_send s + c) cur p s1 = Some (Inr (True, s'))" by (rule gap_step_cases)
  show "ctl_count s' = ctl_count s + of_nat 0" using spin_transmit(2)[OF st] by simp
qed

text \<open>(C26) The limiters with constant and with random gaps neither lose, duplicate nor reorder packets
  and never send early: when a loop ends, the card has got the packets taken out of the ring in
  their order, all of them unless the limiter was stopped while the card refused a packet,
  each not before the time scheduled for it; and unless it was stopped the control block
  has counted them all.\<close>

theorem limiter_keeps_order:
  assumes "main_loop_cbr e target bursts = Some (Inr (go, s)) \<or> main_loop_poisson e expo target link_speed bursts = Some (Inr (go, s))"
  shows "prefix (pkts (sent s)) (concat bursts) \<and> (\<forall>(t, cur, p)\<in>set (sent s). t \<le> cur) \<and>
    (go \<longrightarrow> pkts (sent s) = concat bursts \<and> ctl_count s = of_nat (length (concat bursts)))"
proof -
  have "emits limiter0 (concat bursts) go s \<and> (go \<longrightarrow> ctl_count s = of_nat (length (concat bursts)))"
    using assms
  proof
    assume "main_loop_cbr e target bursts = Some (Inr (go, s))"
    then obtain c where run: "loop_until (cbr_iter e c) limiter0 bursts = Some (Inr (go, s))"
      by (auto simp: main_loop_cbr_def obind_Inr_iff)
    show ?thesis
      using cbs.bursts.loop_emits[of e c limiter0 bursts] cbs.bursts.loop_counts[of e c limiter0 bursts] run
      by (auto simp: cbr_iter_def[abs_def] length_concat limiter0_def)
  next
    assume "main_loop_poisson e expo target link_speed bursts = Some (Inr (go, s))"
    then have run: "loop_until (poisson_iter e expo target link_speed) limiter0 bursts = Some (Inr (go, s))"
      by (simp only: main_loop_poisson_def)
    show ?thesis
      using pos.bursts.loop_emits[of e expo target link_speed limiter0 bursts]
        pos.bursts.loop_counts[of e expo target link_speed limiter0 bursts] run
      by (auto simp: poisson_iter_def[abs_def] length_concat limiter0_def)
  qed
  then show ?thesis by (auto simp: emits_def limiter0_def)
qed

text \<open>A world in which the counter counts up to 100 and the card always accepts.\<close>

definition ex_env :: env where
  "ex_env = \<lparr>tsc = (\<lambda>k. if k < 100 then of_nat k else 100), tsc_hz = 1000000000, accepts = (\<lambda>_. True), alive = (\<lambda>_. True), stops = (\<lambda>_. 0)\<rparr>"

lemmas ex_env_run = ex_env_def limiter0_def loop_until.simps send_burst_def restart_def spin_def transmit_def count_packets_def Let_def s64_def
  tx_wait.simps

lemma ex_cbr_cycles: "cbr_cycles ex_env 2 = Inr 2"
  by (simp add: cbr_cycles_def ex_env_def double_eval d_of_u32_def rval_def u64_of_d.simps dtrunc_def)

lemma ex_cbr_run:
  "main_loop_cbr ex_env 2 [[ex_pkt 1, ex_pkt 2]] =
     Some (Inr (True, \<lparr>readings = 3, attempts = 2, checks = 0, draws = 0, next_send = 4, ctl_count = 2,
       sent = [(0, 1, ex_pkt 1), (2, 2, ex_pkt 2)]\<rparr>))"
  unfolding main_loop_cbr_def ex_cbr_cycles
  by (simp add: cbr_iter_def cbr_step_def ex_env_run tsc_wait.simps[of _ 0 "Suc 0"] tsc_wait.simps[of _ 2 "Suc (Suc 0)"])

theorem limiter_keeps_order_witness:
  "prefix (pkts [(0, 1, ex_pkt 1), (2, 2, ex_pkt 2)]) (concat [[ex_pkt 1, ex_pkt 2]])"
  using limiter_keeps_order[OF disjI1[OF ex_cbr_run]] by simp

section \<open>The schedule of the limiter with a gap per packet\<close>

fun sched :: "u64 \<Rightarrow> u64 list \<Rightarrow> u64 list" where
  "sched t [] = []"
| "sched t (c # cs) = (t + c) # sched (t + c) cs"

lemma sched_append: "sched t (as @ bs) = sched t as @ sched (t + sum_list as) bs"
  by (induction as arbitrary: t) (simp_all add: add.assoc)

definition gap_of :: "env \<Rightarrow> u32 \<Rightarrow> mbuf \<Rightarrow> u64" where
  "gap_of e link_speed p = (case gap_cycles e link_speed p of Inr c \<Rightarrow> c | Inl _ \<Rightarrow> 0)"

definition paced :: "env \<Rightarrow> u32 \<Rightarrow> limiter \<Rightarrow> mbuf list \<Rightarrow> bool \<Rightarrow> limiter \<Rightarrow> bool" where
  "paced e link_speed s xs go s' \<longleftrightarrow> (\<exists>ys. sent s' = sent s @ ys \<and> (\<forall>(t, cur, p)\<in>set ys. t \<le> cur) \<and> prefix (pkts ys) xs \<and>
     map fst ys = sched (next_send s) (map (gap_of e link_speed) (pkts ys)) \<and>
     (go \<longrightarrow> pkts ys = xs \<and> next_send s' = next_send s + sum_list (map (gap_of e link_speed) xs)))"

lemma paced_trans:
  assumes "paced e l s xs True s1" "paced e l s1 ys go s2"
  shows "paced e l s (xs @ ys) go s2"
proof -
  from assms obtain us vs where "sent s1 = sent s @ us" "\<forall>(t, cur, p)\<in>set us. t \<le> cur" "pkts us = xs"
      "map fst us = sched (next_send s) (map (gap_of e l) xs)" "next_send s1 = next_send s + sum_list (map (gap_of e l) xs)"
      "sent s2 = sent s1 @ vs" "\<forall>(t, cur, p)\<in>set vs. t \<le> cur" "prefix (pkts vs) ys"
      "map fst vs = sched (next_send s1) (map (gap_of e l) (pkts vs))"
      "go \<longrightarrow> pkts vs = ys \<and> next_send s2 = next_send s1 + sum_list (map (gap_of e l) ys)"
    unfolding paced_def by metis
  then show ?thesis unfolding paced_def by (intro exI[of _ "us @ vs"]) (auto simp: sched_append add.assoc)
qed

lemma paced_stop: "paced e l s xs False s1 \<Longrightarrow> paced e l s (xs @ ys) False s1"
  by (auto simp: paced_def)

lemma gap_step_paced:
  assumes "gap_step e l s (Some p) = Some (Inr (go, s'))"
  shows "paced e l s [p] go s'"
proof -
  from assms obtain c cur s1 where c: "gap_cycles e l p = Inr c"
    and st: "spin e (next_send s + c) (s\<lparr>next_send := next_send s + c\<rparr>) = Some (Inr (cur, s1))"
      "transmit e (next_send s + c) cur p s1 = Some (Inr (go, s'))" by (auto elim: gap_step_cases)
  note r = spin_reads[OF st(1)]
  have "next_send s' = next_send s + c" "sent s' = sent s @ (if go then [(next_send s + c, cur, p)] else [])"
    using st(2) r(2,4) by (auto simp: transmit_def)
  then show ?thesis using r(1) c by (simp add: paced_def gap_of_def)
qed

lemma gap_loop_paced:
  "loop_until (gap_step e l) s (map Some ps) = Some (Inr (go, s')) \<Longrightarrow> paced e l s ps go s'"
proof (induction ps arbitrary: s)
  case (Cons p ps)
  then obtain go1 s1 where 1: "gap_step e l s (Some p) = Some (Inr (go1, s1))"
    and rest: "(if go1 then loop_until (gap_step e l) s1 (map Some ps) else Some (Inr (False, s1))) = Some (Inr (go, s'))"
    by (auto simp: obind_Inr_iff)
  show ?case
  proof (cases go1)
    case True
    then show ?thesis using paced_trans[of e l s "[p]" s1] gap_step_paced[OF 1] Cons.IH[of s1] rest by simp
  next
    case False
    then have "paced e l s [p] False s1" using gap_step_paced[OF 1] by simp
    from paced_stop[OF this, of ps] show ?thesis using False rest by simp
  qed
qed (simp add: paced_def)

text \<open>\<open>ring_dequeue\<close> returns as many packets as asked for, or none.\<close>

definition bulk :: "(nat \<Rightarrow> nat \<Rightarrow> mbuf list) \<Rightarrow> bool" where
  "bulk deq \<longleftrightarrow> (\<forall>k n. deq k n = [] \<or> length (deq k n) = n)"

lemma dequeue_bulk:
  assumes "bulk deq" "dequeue deq k n = (b, ps, k')"
  shows "ps = [] \<or> length ps = b"
  using assms
proof (induction deq k n rule: dequeue.induct)
  case (1 deq k n)
  show ?case
  proof (cases "deq k n = [] \<and> 1 < n")
    case True
    then show ?thesis using 1 dequeue.simps[of deq k n] by simp
  next
    case False
    then show ?thesis using "1.prems" dequeue.simps[of deq k n] by (auto simp: bulk_def split: if_splits)
  qed
qed

lemma batch_array_full: "length ps = n \<Longrightarrow> batch_array n ps = map Some ps"
  by (rule nth_equalityI) (auto simp: batch_array_def)

text \<open>The packets that \<open>n\<close> iterations take out of the ring.\<close>

fun dequeued :: "(nat \<Rightarrow> nat \<Rightarrow> mbuf list) \<Rightarrow> nat \<Rightarrow> nat \<Rightarrow> mbuf list" where
  "dequeued deq k 0 = []"
| "dequeued deq k (Suc n) = (let (b, ps, k') = dequeue deq k batch_size in ps @ dequeued deq k' n)"

lemma gap_iter_paced:
  assumes "bulk deq" "gap_iter e l deq (s, k) u = Some (Inr (go, s', k'))" "dequeue deq k batch_size = (b, ps, k1)"
  shows "k' = k1 \<and> paced e l s ps go s'"
proof (cases "ps = []")
  case True
  then show ?thesis using assms(2,3) by (auto simp: gap_iter_def paced_def)
next
  case False
  then have "batch_array b ps = map Some ps" using dequeue_bulk[OF assms(1,3)] batch_array_full by blast
  then obtain s1 where s1: "loop_until (gap_step e l) s (map Some ps) = Some (Inr (go, s1))"
      "s' = (if go then count_packets (length ps) s1 else s1)" "k' = k1"
    using assms(2,3) False by (auto simp: gap_iter_def obind_Inr_iff)
  then have "sent s' = sent s1" "next_send s' = next_send s1" by (simp_all add: count_packets_def)
  then show ?thesis using gap_loop_paced[OF s1(1)] s1(3) by (simp add: paced_def)
qed

lemma main_loop_paced:
  assumes "bulk deq" "loop_until (gap_iter e l deq) (s, k) (replicate n ()) = Some (Inr (go, s', k'))"
  shows "paced e l s (dequeued deq k n) go s'"
  using assms(2)
proof (induction n arbitrary: s k)
  case 0
  then show ?case by (simp add: paced_def)
next
  case (Suc n)
  obtain b ps k1 where d: "dequeue deq k batch_size = (b, ps, k1)" by (cases "dequeue deq k batch_size")
  from Suc.prems obtain go1 s1 k2 where 1: "gap_iter e l deq (s, k) () = Some (Inr (go1, s1, k2))"
    and rest: "(if go1 then loop_until (gap_iter e l deq) (s1, k2) (replicate n ()) else Some (Inr (False, s1, k2))) = Some (Inr (go, s', k'))"
    by (auto simp: obind_Inr_iff)
  have p: "k2 = k1" "paced e l s ps go1 s1" using gap_iter_paced[OF assms(1) 1 d] by auto
  show ?case
  proof (cases go1)
    case True
    then show ?thesis using p paced_trans[of e l s ps s1] Suc.IH[of s1 k2] rest d by simp
  next
    case False
    then show ?thesis using p paced_stop[of e l s ps s1 "dequeued deq k1 n"] rest d by simp
  qed
qed

text \<open>(C11) The limiter with a gap per packet follows its schedule: if the ring returns full batches or
  nothing, then the \<open>i\<close>-th packet sent is scheduled for the start of the loop plus the gaps of the
  packets up to it, each in cycles of the counter, it is not sent before, and the packets sent
  are those taken out of the ring, in their order, all of them unless the limiter was stopped.\<close>

theorem limiter_schedule:
  assumes "main_loop e link_speed deq n = Some (Inr (go, s, k))" "bulk deq"
  shows "map fst (sent s) = sched (tsc e 0) (map (gap_of e link_speed) (pkts (sent s))) \<and>
    (\<forall>(t, cur, p)\<in>set (sent s). t \<le> cur) \<and> prefix (pkts (sent s)) (dequeued deq 0 n) \<and>
    (go \<longrightarrow> pkts (sent s) = dequeued deq 0 n)"
  using main_loop_paced[OF assms(2) assms(1)[unfolded main_loop_def]] by (auto simp: paced_def limiter0_def)

text \<open>A ring that holds two packets.\<close>

definition ex_deq :: "nat \<Rightarrow> nat \<Rightarrow> mbuf list" where
  "ex_deq k n = (if k = 5 \<and> n = 2 then [ex_pkt 0, ex_pkt 0] else [])"

lemma ex_dequeue: "dequeue ex_deq 0 batch_size = (2, [ex_pkt 0, ex_pkt 0], 6)"
  by (simp add: dequeue.simps ex_deq_def)

lemma ex_main_run:
  "\<exists>s k. main_loop ex_env 1000 ex_deq 1 = Some (Inr (True, s, k))"
  by (simp add: main_loop_def gap_iter_def ex_dequeue batch_array_def gap_step_def gap_cycles_def ex_env_run ex_pkt_def
      d_of_u32_def rval_def double_eval u64_of_d.simps dtrunc_def tsc_wait.simps[of _ 0] upt_rec)

theorem limiter_schedule_witness:
  "\<exists>s k. main_loop ex_env 1000 ex_deq 1 = Some (Inr (True, s, k)) \<and> pkts (sent s) = [ex_pkt 0, ex_pkt 0]"
proof -
  obtain s k where run: "main_loop ex_env 1000 ex_deq 1 = Some (Inr (True, s, k))" using ex_main_run by blast
  have "bulk ex_deq" by (simp add: bulk_def ex_deq_def)
  from limiter_schedule[OF run this] run show ?thesis using ex_dequeue by auto
qed

section \<open>The rate of the constant bit rate limiter\<close>

lemma loop_until_inv:
  assumes "\<And>s x go s'. P s \<Longrightarrow> f s x = Some (Inr (go, s')) \<Longrightarrow> P s'" "loop_until f s xs = Some (Inr (go, s'))" "P s"
  shows "P s'"
  using assms(2,3)
proof (induction xs arbitrary: s)
  case (Cons x xs)
  then show ?case using assms(1) by (auto simp: obind_Inr_iff split: if_splits)
qed simp

text \<open>The time scheduled for the \<open>i\<close>-th packet sent.\<close>

abbreviation sched_at :: "limiter \<Rightarrow> nat \<Rightarrow> nat" where
  "sched_at s i \<equiv> unat (fst (sent s ! i))"

definition spaced :: "nat \<Rightarrow> limiter \<Rightarrow> bool" where
  "spaced c s \<longleftrightarrow> (\<forall>j<length (sent s). \<forall>i\<le>j. sched_at s i + (j - i) * c \<le> sched_at s j) \<and>
     (\<forall>i<length (sent s). sched_at s i + (length (sent s) - i) * c \<le> unat (next_send s)) \<and> unat (next_send s) < 2 ^ 63"

lemma spaced_later:
  assumes "spaced c s" "sent s' = sent s" "next_send s \<le> next_send s'" "unat (next_send s') < 2 ^ 63"
  shows "spaced c s'"
  using assms by (fastforce simp: spaced_def word_le_nat_alt)

lemma spaced_send:
  assumes "spaced c s" "sent s' = sent s @ [(next_send s, cur, p)]" "unat (next_send s') = unat (next_send s) + c" "unat (next_send s') < 2 ^ 63"
  shows "spaced c s'"
proof -
  let ?n = "length (sent s)"
  have old: "sched_at s' i = sched_at s i" if "i < ?n" for i using that by (simp add: assms(2) nth_append)
  have new: "sched_at s' ?n = unat (next_send s)" by (simp add: assms(2))
  have len: "length (sent s') = Suc ?n" by (simp add: assms(2))
  have ahead: "sched_at s i + (?n - i) * c \<le> unat (next_send s)" if "i < ?n" for i using assms(1) that by (simp add: spaced_def)
  show ?thesis
    unfolding spaced_def len
  proof (intro conjI allI impI)
    fix j i assume ij: "j < Suc ?n" "i \<le> j"
    consider "j < ?n" | "j = ?n" "i < ?n" | "j = ?n" "i = ?n" using ij by linarith
    then show "sched_at s' i + (j - i) * c \<le> sched_at s' j"
    proof cases
      case 1
      then show ?thesis using assms(1) ij(2) old[of i] old[of j] by (simp add: spaced_def)
    next
      case 2
      then show ?thesis using ahead[of i] old[of i] new by simp
    qed simp
  next
    fix i assume "i < Suc ?n"
    then show "sched_at s' i + (Suc ?n - i) * c \<le> unat (next_send s')"
      using ahead[of i] old[of i] new assms(3) by (cases "i = ?n") (auto simp: Suc_diff_le)
  qed (rule assms(4))
qed

text \<open>A counter below \<open>2\<^sup>6\<^sup>2\<close> and a gap below \<open>2\<^sup>6\<^sup>2\<close>, so that nothing wraps around.\<close>

definition no_wrap :: "env \<Rightarrow> u64 \<Rightarrow> bool" where
  "no_wrap e c \<longleftrightarrow> (\<forall>k. unat (tsc e k) < 2 ^ 62) \<and> unat c < 2 ^ 62 \<and> unat (tsc_hz e) < 2 ^ 63"

lemma cbr_step_spaced:
  assumes "no_wrap e c" "spaced (unat c) s" "cbr_step e c s p = Some (Inr (go, s'))"
  shows "spaced (unat c) s'"
proof -
  from assms(3) obtain cur s1 where st: "spin e (next_send s) s = Some (Inr (cur, s1))"
    "transmit e (next_send s) cur p (s1\<lparr>next_send := next_send s1 + c\<rparr>) = Some (Inr (go, s'))"
    by (auto simp: cbr_step_def obind_Inr_iff)
  note r = spin_reads[OF st(1)]
  have nxt: "next_send s' = next_send s + c" using spin_transmit(3)[OF st] r(4) by simp
  have "unat cur < 2 ^ 62" "unat c < 2 ^ 62" using r(5) assms(1) by (auto simp: no_wrap_def)
  then have small: "unat (next_send s) < 2 ^ 62" using r(1) by (simp add: word_le_nat_alt)
  then have add: "unat (next_send s') = unat (next_send s) + unat c"
    unfolding nxt using \<open>unat c < 2 ^ 62\<close> by (intro unat_add_no_wrap) simp
  have sent: "sent s' = sent s @ (if go then [(next_send s, cur, p)] else [])"
    using st(2) r(2) by (auto simp: transmit_def)
  have lim: "unat (next_send s') < 2 ^ 63" using add small \<open>unat c < 2 ^ 62\<close> by simp
  show ?thesis
  proof (cases go)
    case True
    then show ?thesis using spaced_send[OF assms(2) _ add lim] sent by simp
  next
    case False
    then show ?thesis using spaced_later[OF assms(2) _ _ lim] sent add by (simp add: word_le_nat_alt)
  qed
qed

lemma sint_small:
  assumes "unat w < 2 ^ 63"
  shows "sint (w :: u64) = int (unat w)"
proof -
  have "int (unat w) < int (2 ^ 63)" using assms by (simp only: of_nat_less_iff)
  then have "uint w < 2 ^ 63" by simp
  moreover have "- (2 ^ 63) \<le> uint w" by (rule order.trans[OF _ uint_ge_0]) simp
  ultimately show ?thesis by (simp add: sint_uint signed_take_bit_int_eq_self)
qed

lemma restart_spaced:
  assumes "no_wrap e c" "spaced (unat c) s" "restart e s = Inr s'"
  shows "spaced (unat c) s'"
proof -
  define cur where "cur = tsc e (readings s)"
  have cur: "unat cur < 2 ^ 62" using assms(1) by (simp add: no_wrap_def cur_def)
  have nxt: "unat (next_send s) < 2 ^ 63" using assms(2) by (simp add: spaced_def)
  have hz: "0 \<le> sint (tsc_hz e) sdiv 100"
  proof -
    have "sint (tsc_hz e) = int (unat (tsc_hz e))" using assms(1) by (intro sint_small) (simp add: no_wrap_def)
    then show ?thesis by (simp add: signed_divide_int_def pos_imp_zdiv_nonneg_iff)
  qed
  have "sint cur = int (unat cur)" "sint (next_send s) = int (unat (next_send s))" using cur nxt by (simp_all add: sint_small)
  then have later: "next_send s \<le> cur" if "sint (tsc_hz e) sdiv 100 < sint cur - sint (next_send s)"
    using that hz by (simp add: word_le_def)
  have keep: "sent s' = sent s" "next_send s' = (if sint (tsc_hz e) sdiv 100 < sint cur - sint (next_send s) then cur else next_send s)"
    using assms(3) by (auto simp: restart_def Let_def res_simps s64_def cur_def split: if_splits)
  show ?thesis
    by (rule spaced_later[OF assms(2) keep(1)]) (use keep(2) later cur nxt in \<open>auto split: if_splits\<close>)
qed

lemma cbr_iter_spaced:
  assumes "no_wrap e c" "spaced (unat c) s" "cbr_iter e c s bufs = Some (Inr (go, s'))"
  shows "spaced (unat c) s'"
proof -
  from assms(3) obtain s1 where s1: "restart e s = Inr s1" "send_burst e (cbr_step e c) bufs s1 = Some (Inr (go, s'))"
    by (auto simp: cbr_iter_def obind_Inr_iff)
  have sp: "spaced (unat c) s1" using restart_spaced[OF assms(1,2) s1(1)] .
  show ?thesis
  proof (cases "bufs = []")
    case True
    then have "sent s' = sent s1" "next_send s' = next_send s1" using s1(2) by (auto simp: send_burst_def)
    then show ?thesis using sp by (simp add: spaced_def)
  next
    case False
    then obtain s2 where s2: "loop_until (cbr_step e c) s1 bufs = Some (Inr (go, s2))" "s' = (if go then count_packets (length bufs) s2 else s2)"
      using s1(2) by (auto simp: send_burst_def obind_Inr_iff)
    have "spaced (unat c) s2" using s2(1) sp
      by (rule loop_until_inv[where P = "spaced (unat c)", rotated]) (rule cbr_step_spaced[OF assms(1)])
    then show ?thesis using s2(2) by (auto simp: spaced_def count_packets_def)
  qed
qed

text \<open>(C10) The constant bit rate limiter never exceeds its rate: while the counter is below \<open>2\<^sup>6\<^sup>2\<close>, the times
  scheduled for the \<open>i\<close>-th and the \<open>j\<close>-th packet are at least \<open>j - i\<close> gaps apart, over the whole run
  and across restarts, and no packet is sent before its time.\<close>

theorem limiter_cbr_rate:
  assumes "main_loop_cbr e target bursts = Some (Inr (go, s))" "cbr_cycles e target = Inr c" "no_wrap e c"
    and "i \<le> j" "j < length (sent s)"
  shows "unat (fst (sent s ! i)) + (j - i) * unat c \<le> unat (fst (sent s ! j)) \<and> fst (sent s ! j) \<le> fst (snd (sent s ! j))"
proof -
  have run: "loop_until (cbr_iter e c) limiter0 bursts = Some (Inr (go, s))"
    using assms(1,2) by (simp add: main_loop_cbr_def)
  have "spaced (unat c) limiter0" by (simp add: spaced_def limiter0_def)
  with run have sp: "spaced (unat c) s"
    by (rule loop_until_inv[where P = "spaced (unat c)", rotated]) (rule cbr_iter_spaced[OF assms(3)])
  have "emits limiter0 (concat bursts) go s"
    using cbs.bursts.loop_emits[of e c limiter0 bursts] run by (simp add: cbr_iter_def[abs_def])
  then have "\<forall>(t, cur, p)\<in>set (sent s). t \<le> cur" by (auto simp: emits_def limiter0_def)
  from bspec[OF this nth_mem[OF assms(5)]] show ?thesis
    using sp assms(4,5) by (auto simp: spaced_def split: prod.splits)
qed

theorem limiter_cbr_rate_witness:
  "unat (fst ([(0, 1, ex_pkt 1), (2, 2, ex_pkt 2)] ! 0) :: u64) + (1 - 0) * unat (2 :: u64) \<le>
     unat (fst ([(0, 1, ex_pkt 1), (2, 2, ex_pkt 2)] ! 1) :: u64)"
proof -
  have "unat (tsc ex_env k) < 2 ^ 62" for k by (simp add: ex_env_def unat_of_nat take_bit_nat_eq_self)
  then have "no_wrap ex_env 2" by (simp add: no_wrap_def) (simp add: ex_env_def)
  from limiter_cbr_rate[OF ex_cbr_run ex_cbr_cycles this, of 0 1] show ?thesis by simp
qed

section \<open>The loops return\<close>

text \<open>The counter runs on, through its overflow at \<open>2\<^sup>6\<^sup>4\<close>, and the card accepts a packet from time to time.\<close>

definition keeps_going :: "env \<Rightarrow> bool" where
  "keeps_going e \<longleftrightarrow> (\<forall>t. clock_reaches (tsc e) t) \<and> (\<forall>k. \<exists>j\<ge>k. accepts e j)"

definition returns :: "'a option \<Rightarrow> bool" where
  "returns m \<longleftrightarrow> m \<noteq> None"

named_theorems returns_intros

lemma returns_Some [returns_intros]: "returns (Some x)"
  by (simp add: returns_def)

lemma returns_obind [returns_intros]: "returns m \<Longrightarrow> (\<And>x. returns (f x)) \<Longrightarrow> returns (obind m f)"
  by (cases "(m, f)" rule: obind.cases) (auto simp: returns_def)

lemma returns_if [returns_intros]: "returns x \<Longrightarrow> returns y \<Longrightarrow> returns (if b then x else y)"
  by simp

lemma returns_prod [returns_intros]: "(\<And>a b. returns (f a b)) \<Longrightarrow> returns (case p of (a, b) \<Rightarrow> f a b)"
  by (cases p) simp

lemma returns_loop_until [returns_intros]: "(\<And>s x. returns (f s x)) \<Longrightarrow> returns (loop_until f s xs)"
  by (induction xs arbitrary: s) (auto intro!: returns_intros)

lemma tx_wait_returns:
  assumes "\<forall>k. \<exists>j\<ge>k. accepts e j"
  shows "returns (tx_wait e a c)"
proof -
  obtain j where "a \<le> j" "accepts e j" using assms by blast
  then show ?thesis
  proof (induction "j - a" arbitrary: a c)
    case 0
    then have "accepts e a" by simp
    then show ?case by (subst tx_wait.simps) (simp add: returns_Some)
  next
    case (Suc n)
    then have "returns (tx_wait e (Suc a) (Suc c))" by (intro Suc.hyps(1)) auto
    then show ?case by (subst tx_wait.simps) (simp add: returns_Some)
  qed
qed

lemma spin_returns: "keeps_going e \<Longrightarrow> returns (spin e t s)"
  using tsc_wait_returns[of "tsc e" t "readings s"] by (auto simp: spin_def keeps_going_def returns_def)

lemma transmit_returns: "keeps_going e \<Longrightarrow> returns (transmit e t cur p s)"
  using tx_wait_returns[of e "attempts s" "checks s"] by (auto simp: transmit_def keeps_going_def returns_def)

lemma cbr_step_returns: "keeps_going e \<Longrightarrow> returns (cbr_step e c s p)"
  unfolding cbr_step_def by (intro returns_intros spin_returns transmit_returns)

lemma poisson_step_returns: "keeps_going e \<Longrightarrow> returns (poisson_step e expo target l s p)"
  unfolding poisson_step_def Let_def by (intro returns_intros spin_returns transmit_returns)

lemma gap_step_returns: "keeps_going e \<Longrightarrow> returns (gap_step e l s x)"
  unfolding gap_step_def Let_def by (cases x) (auto intro!: returns_intros spin_returns transmit_returns)

lemma gap_iter_returns: "keeps_going e \<Longrightarrow> returns (gap_iter e l deq sk u)"
  by (cases sk) (auto simp: gap_iter_def Let_def split: prod.split intro!: returns_intros gap_step_returns)

lemma send_burst_returns [returns_intros]: "(\<And>s p. returns (f s p)) \<Longrightarrow> returns (send_burst e f bufs s)"
  unfolding send_burst_def by (intro returns_intros)


text \<open>A world in which the counter runs through its overflow.\<close>

definition ex_wrap :: env where
  "ex_wrap = ex_env\<lparr>tsc := of_nat\<rparr>"

lemma ex_wrap_going: "keeps_going ex_wrap"
proof -
  have "clock_reaches of_nat t" for t :: u64
    unfolding clock_reaches_def
  proof
    fix k :: nat
    have "(of_nat (2 ^ 64) :: u64) = 0" by simp
    then have "(of_nat (k * 2 ^ 64 + unat t) :: u64) = of_nat (unat t)" by (simp only: of_nat_add of_nat_mult mult_zero_right add_0)
    then have "(of_nat (k * 2 ^ 64 + unat t) :: u64) = t" by (simp only: of_nat_unat ucast_id)
    moreover have "k \<le> k * 2 ^ 64 + unat t" by simp
    ultimately show "\<exists>j\<ge>k. t \<le> of_nat j" by (metis order_refl)
  qed
  then show ?thesis by (auto simp: keeps_going_def ex_wrap_def ex_env_def)
qed


text \<open>The limiter with random gaps cannot be used on links slower than 1000 Mbit/s: the first packet is
  a division by zero.\<close>

theorem limiter_poisson_slow_link:
  assumes "link_speed < 1000"
  shows "main_loop_poisson e expo target link_speed ((p # ps) # bursts) = Some (Inl DivByZero)"
proof -
  have z: "link_speed div 1000 = 0" using assms by (simp add: word_unat_eq_iff unat_div word_less_nat_alt)
  have "- (2 ^ 63) \<le> sint cur \<and> sint cur < 2 ^ 63" for cur :: u64
    using sint_greater_eq[of cur] sint_less[of cur] by simp
  then have r: "\<exists>s. restart e limiter0 = Inr s" by (auto simp: restart_def limiter0_def Let_def s64_def)
  have "poisson_step e expo target link_speed s p = Some (Inl DivByZero)" for s
    using z by (simp add: poisson_step_def pkt_cycles_def)
  then have "send_burst e (poisson_step e expo target link_speed) (p # ps) s = Some (Inl DivByZero)" for s
    by (simp add: send_burst_def)
  then show ?thesis using r by (auto simp: main_loop_poisson_def poisson_iter_def)
qed

theorem limiter_poisson_slow_link_witness:
  "main_loop_poisson ex_wrap (\<lambda>_ _. Fin 1) 1000000 100 [[ex_pkt 0]] = Some (Inl DivByZero)"
  by (rule limiter_poisson_slow_link) simp

end
