(* ===== verification/SwTimestamp.thy ===== *)
theory SwTimestamp
  imports Mbuf Bytes
begin

text \<open>
  Software timestamping (\<open>src/software-timestamping.c\<close>): the counter is written into the packet right
  before each attempt to send it. The input has one element per iteration of the loop: the
  counter that was read and whether the card accepted the packet; it ends when \<open>is_running\<close> returns
  false. \<open>offs\<close> counts 64-bit words from the start of the packet.
\<close>

definition store64 :: "bytes \<Rightarrow> nat \<Rightarrow> u64 \<Rightarrow> bytes res" where
  "store64 bs i v =
     (if 8 * i + 8 \<le> length bs then Inr (take (8 * i) bs @ put64 v @ drop (8 * i + 8) bs) else Inl OutOfBounds)"

text \<open>The result is the packet as the card got it, if it did, and the packet as it is left.\<close>

fun moongen_send_packet_with_timestamp :: "u16 \<Rightarrow> (u64 \<times> bool) list \<Rightarrow> mbuf \<Rightarrow> (mbuf option \<times> mbuf) res" where
  "moongen_send_packet_with_timestamp offs [] pkt = Inr (None, pkt)"
| "moongen_send_packet_with_timestamp offs ((tsc, accepted) # rest) pkt =
     rbind (store64 (pkt_data pkt) (unat offs) tsc) (\<lambda>bs.
       let pkt = pkt\<lparr>pkt_data := bs\<rparr>
       in if accepted then Inr (Some pkt, pkt) else moongen_send_packet_with_timestamp offs rest pkt)"

text \<open>The offset in bytes that the scripts use, by default that of the first aligned word of the UDP
  payload, and the reader (\<open>sendWithTimestamp\<close> and \<open>getSoftwareTxTimestamp\<close> of \<open>lua/software-timestamps.lua\<close>).\<close>

definition word_offs :: "nat option \<Rightarrow> nat" where
  "word_offs offs = (case offs of Some n \<Rightarrow> n div 8 | None \<Rightarrow> 6)"

definition getSoftwareTxTimestamp :: "mbuf \<Rightarrow> nat option \<Rightarrow> u64" where
  "getSoftwareTxTimestamp p offs = get64 (drop (8 * word_offs offs) (pkt_data p))"

lemma store64_twice:
  assumes "8 * i + 8 \<le> length bs"
  shows "store64 (take (8 * i) bs @ put64 v @ drop (8 * i + 8) bs) i w = Inr (take (8 * i) bs @ put64 w @ drop (8 * i + 8) bs)"
  using assms by (simp add: store64_def)

lemma send_tries:
  assumes "8 * unat offs + 8 \<le> length bs" "find snd tries = Some (t, b)"
  shows "moongen_send_packet_with_timestamp offs tries
      (pkt\<lparr>pkt_data := take (8 * unat offs) bs @ put64 v @ drop (8 * unat offs + 8) bs\<rparr>) =
    (let q = pkt\<lparr>pkt_data := take (8 * unat offs) bs @ put64 t @ drop (8 * unat offs + 8) bs\<rparr> in Inr (Some q, q))"
  using assms(2)
proof (induction tries arbitrary: v)
  case (Cons x tries)
  then show ?case by (cases x) (auto simp: store64_twice[OF assms(1)] Let_def split: if_splits)
qed simp

text \<open>(C40) The time stamp is that of the attempt that succeeds: if the word lies in the buffer, the packet
  leaves exactly when some attempt is accepted, the script that reads it at the same offset gets
  the counter of the first accepted attempt, and no other byte of the packet has changed.\<close>

theorem sw_timestamp_of_success:
  assumes "8 * unat offs + 8 \<le> length (pkt_data pkt)" "find snd tries = Some (t, b)" "word_offs bo = unat offs"
  shows "\<exists>q. moongen_send_packet_with_timestamp offs tries pkt = Inr (Some q, q) \<and>
    getSoftwareTxTimestamp q bo = t \<and> pkt_len q = pkt_len pkt \<and>
    (\<forall>i<length (pkt_data pkt). i < 8 * unat offs \<or> 8 * unat offs + 8 \<le> i \<longrightarrow> pkt_data q ! i = pkt_data pkt ! i)"
proof -
  let ?n = "8 * unat offs" let ?bs = "pkt_data pkt"
  obtain x rest where tries: "tries = x # rest" using assms(2) by (cases tries) auto
  let ?q = "\<lambda>t. pkt\<lparr>pkt_data := take ?n ?bs @ put64 t @ drop (?n + 8) ?bs\<rparr>"
  have "moongen_send_packet_with_timestamp offs tries pkt = Inr (Some (?q t), ?q t)"
    using assms(2) send_tries[OF assms(1), where tries = rest and pkt = pkt and v = "fst x"] assms(1)
    by (cases x) (auto simp: tries store64_def Let_def split: if_splits)
  moreover have "getSoftwareTxTimestamp (?q t) bo = t"
    using assms(1) by (simp add: getSoftwareTxTimestamp_def assms(3))
  moreover have "pkt_data (?q t) ! i = ?bs ! i" if "i < length ?bs" "i < ?n \<or> ?n + 8 \<le> i" for i
    using that assms(1) by (auto simp: nth_append min_def)
  ultimately show ?thesis by (intro exI[of _ "?q t"]) auto
qed

theorem sw_timestamp_of_success_witness:
  "\<exists>q. moongen_send_packet_with_timestamp 6 [(10, False), (20, True)] (ex_pkt 0) = Inr (Some q, q) \<and> getSoftwareTxTimestamp q None = 20"
  using sw_timestamp_of_success[of 6 "ex_pkt 0" "[(10, False), (20, True)]" 20 True None] by (auto simp: ex_pkt_def word_offs_def)

end
