(* ===== verification/Snmp.thy ===== *)
theory Snmp
  imports Decimal
begin

text \<open>
  The SNMP helper of the RFC 2544 benchmark (\<open>rfc2544/utils/snmpc.c\<close>): the object identifiers of routes
  and addresses, and the variables of the set requests that create and delete them.

  \<^item> \<open>pton4\<close> and \<open>pton6\<close> are \<open>inet_pton\<close> of the C library: the bytes of a textual address, or \<open>None\<close> when it
    is not one, in which case the code reads its buffer without a value.
  \<^item> A request is the list of its variables, each an object identifier in text, as it is passed to
    \<open>read_objid\<close>, and a value. The exchange with the agent is \<open>snmp_synch_response\<close>, whose status and the
    error status of the response are arguments of the functions that compute the result; both
    are zero for success, as net-snmp defines them.
\<close>

definition MAX_OID_STR_LEN :: nat where
  "MAX_OID_STR_LEN = 512"

definition MAX_IP_OID_LEN :: nat where
  "MAX_IP_OID_LEN = 2 + 3 + 4 * 16"

section \<open>Addresses\<close>

definition ip2oid :: "(string \<Rightarrow> bytes option) \<Rightarrow> (string \<Rightarrow> bytes option) \<Rightarrow> string \<Rightarrow> nat \<Rightarrow> string res" where
  "ip2oid pton4 pton6 ip maxlen =
     (if CHR 0x2E \<in> set ip
      then case pton4 ip of None \<Rightarrow> Inl Uninit | Some buf \<Rightarrow> Inr (snprintf maxlen (oid_join (1 # 4 # map unat buf)))
      else case pton6 ip of None \<Rightarrow> Inl Uninit | Some buf \<Rightarrow> Inr (snprintf maxlen (oid_join (2 # 16 # map unat buf))))"

text \<open>The number of bytes \<open>inet_pton\<close> writes.\<close>

definition pton_ok :: "(string \<Rightarrow> bytes option) \<Rightarrow> (string \<Rightarrow> bytes option) \<Rightarrow> bool" where
  "pton_ok pton4 pton6 \<longleftrightarrow> (\<forall>ip b. pton4 ip = Some b \<longrightarrow> length b = 4) \<and> (\<forall>ip b. pton6 ip = Some b \<longrightarrow> length b = 16)"

definition addr_of :: "(string \<Rightarrow> bytes option) \<Rightarrow> (string \<Rightarrow> bytes option) \<Rightarrow> string \<Rightarrow> bytes option" where
  "addr_of pton4 pton6 ip = (if CHR 0x2E \<in> set ip then pton4 ip else pton6 ip)"

definition addr_oid :: "bytes \<Rightarrow> nat list" where
  "addr_oid b = (if length b = 4 then 1 else 2) # length b # map unat b"

lemma addr_oid_length:
  assumes "length b = 4 \<or> length b = 16"
  shows "length (oid_join (addr_oid b)) < MAX_IP_OID_LEN"
proof -
  have digits: "length (dec_nat n) = 1" if "n < 10" for n using that by (simp add: dec_nat.simps[of n])
  have two: "length (dec_nat 16) = 2" by (simp add: dec_nat.simps[of 16] dec_nat.simps[of "Suc 0"])
  have len: "Suc (length (oid_join (map unat b))) \<le> 4 * length b"
  proof -
    have "\<forall>n\<in>set (map unat b). n < 256" using unat_u8_less by auto
    moreover have "map unat b \<noteq> []" using assms by auto
    ultimately show ?thesis using oid_join_length[of "map unat b"] by simp
  qed
  have "oid_join (x # y # map unat b) = dec_nat x @ CHR 0x2E # dec_nat y @ CHR 0x2E # oid_join (map unat b)" for x y
    using assms by (cases b) auto
  then show ?thesis using assms len digits[of 1] digits[of 2] digits[of 4] two by (auto simp: addr_oid_def MAX_IP_OID_LEN_def)
qed

lemma ip2oid_eq:
  assumes "pton_ok pton4 pton6" "addr_of pton4 pton6 ip = Some b"
  shows "ip2oid pton4 pton6 ip MAX_IP_OID_LEN = Inr (oid_join (addr_oid b))" "length b = 4 \<or> length b = 16"
proof -
  show len: "length b = 4 \<or> length b = 16" using assms by (auto simp: pton_ok_def addr_of_def split: if_splits)
  have "length (oid_join (addr_oid b)) \<le> MAX_IP_OID_LEN - 1" using addr_oid_length[OF len] by simp
  then have "snprintf MAX_IP_OID_LEN (oid_join (addr_oid b)) = oid_join (addr_oid b)" by (simp add: snprintf_def)
  then show "ip2oid pton4 pton6 ip MAX_IP_OID_LEN = Inr (oid_join (addr_oid b))"
    using assms by (auto simp: ip2oid_def addr_of_def pton_ok_def addr_oid_def split: if_splits)
qed

text \<open>The identifier of an address is never cut off and determines the address: for every address that
  \<open>inet_pton\<close> accepts, what \<open>ip2oid\<close> stores fits its buffer with the terminating zero, and the numbers
  it consists of are the address type, the number of bytes and the bytes.\<close>

lemma snmp_address_oid:
  assumes "pton_ok pton4 pton6" "addr_of pton4 pton6 ip = Some b"
  shows "\<exists>s. ip2oid pton4 pton6 ip MAX_IP_OID_LEN = Inr s \<and> length s < MAX_IP_OID_LEN \<and> oid_parse s = addr_oid b"
  using ip2oid_eq[OF assms] addr_oid_length oid_parse_join[of "addr_oid b"] by (auto simp: addr_oid_def)

definition ex_pton4 :: "string \<Rightarrow> bytes option" where
  "ex_pton4 ip = (if ip = ''10.0.0.255'' then Some [10, 0, 0, 255] else None)"

lemma ex_pton_ok: "pton_ok ex_pton4 (\<lambda>_. None)" "addr_of ex_pton4 (\<lambda>_. None) ''10.0.0.255'' = Some [10, 0, 0, 255]"
  by (auto simp: pton_ok_def addr_of_def ex_pton4_def)

section \<open>Requests\<close>

datatype asn = AsnInteger int | AsnGauge nat | AsnObjectId nat

type_synonym varbind = "string \<times> asn"

definition route_oid :: "string \<Rightarrow> string \<Rightarrow> string \<Rightarrow> string \<Rightarrow> string" where
  "route_oid column dst_buf pfx next_buf =
     snprintf MAX_OID_STR_LEN (''IP-FORWARD-MIB::'' @ column @ ''.'' @ dst_buf @ ''.'' @ pfx @ ''.2.0.0.'' @ next_buf)"

text \<open>\<open>metric\<close> is \<open>None\<close> when the argument is missing or not an integer.\<close>

definition add_route_request ::
  "(string \<Rightarrow> bytes option) \<Rightarrow> (string \<Rightarrow> bytes option) \<Rightarrow> string \<Rightarrow> u32 \<Rightarrow> string \<Rightarrow> u32 \<Rightarrow> u32 \<Rightarrow> u32 option \<Rightarrow> varbind list res" where
  "add_route_request pton4 pton6 dst pfx next_hop iface rtype metric =
     rbind (ip2oid pton4 pton6 dst MAX_IP_OID_LEN) (\<lambda>dst_buf.
     rbind (ip2oid pton4 pton6 next_hop MAX_IP_OID_LEN) (\<lambda>next_buf.
     Inr [(route_oid ''inetCidrRouteStatus'' dst_buf (dec_int (sint pfx)) next_buf, AsnInteger 4),
          (route_oid ''inetCidrRouteIfIndex'' dst_buf (dec_int (sint pfx)) next_buf, AsnInteger (sint iface)),
          (route_oid ''inetCidrRouteType'' dst_buf (dec_int (sint pfx)) next_buf, AsnInteger (sint rtype)),
          (route_oid ''inetCidrRouteNextHopAS'' dst_buf (dec_int (sint pfx)) next_buf, AsnGauge 0),
          (route_oid ''inetCidrRouteMetric1'' dst_buf (dec_int (sint pfx)) next_buf,
           AsnInteger (case metric of Some m \<Rightarrow> sint m | None \<Rightarrow> -1))]))"

definition delete_route_request ::
  "(string \<Rightarrow> bytes option) \<Rightarrow> (string \<Rightarrow> bytes option) \<Rightarrow> string \<Rightarrow> u32 \<Rightarrow> string \<Rightarrow> varbind list res" where
  "delete_route_request pton4 pton6 dst pfx next_hop =
     rbind (ip2oid pton4 pton6 dst MAX_IP_OID_LEN) (\<lambda>dst_buf.
     rbind (ip2oid pton4 pton6 next_hop MAX_IP_OID_LEN) (\<lambda>next_buf.
     Inr [(route_oid ''inetCidrRouteStatus'' dst_buf (dec_nat (unat pfx)) next_buf, AsnInteger 6)]))"

definition address_oid :: "string \<Rightarrow> string \<Rightarrow> string" where
  "address_oid column ip_buf = snprintf MAX_OID_STR_LEN (''IP-MIB::'' @ column @ ''.'' @ ip_buf)"

definition add_ip_request ::
  "(string \<Rightarrow> bytes option) \<Rightarrow> (string \<Rightarrow> bytes option) \<Rightarrow> string \<Rightarrow> u32 \<Rightarrow> varbind list res" where
  "add_ip_request pton4 pton6 ip if_id =
     rbind (ip2oid pton4 pton6 ip MAX_IP_OID_LEN) (\<lambda>ip_buf.
     Inr [(address_oid ''iAddressRowStatus'' ip_buf, AsnInteger 4),
          (address_oid ''iAddressIfIndex'' ip_buf, AsnInteger (sint if_id)),
          (address_oid ''iAddressStatus'' ip_buf, AsnInteger 1),
          (address_oid ''iAddressPrefix'' ip_buf, AsnObjectId 2)])"

definition del_ip_request :: "(string \<Rightarrow> bytes option) \<Rightarrow> (string \<Rightarrow> bytes option) \<Rightarrow> string \<Rightarrow> varbind list res" where
  "del_ip_request pton4 pton6 ip =
     rbind (ip2oid pton4 pton6 ip MAX_IP_OID_LEN) (\<lambda>ip_buf. Inr [(address_oid ''iAddressRowStatus'' ip_buf, AsnInteger 6)])"

text \<open>The number of results: after \<open>addRouteEntry\<close> and \<open>get\<close>, and after the other set requests.\<close>

definition add_route_results :: "int \<Rightarrow> int \<Rightarrow> nat" where
  "add_route_results ret errstat = (if ret = 0 then 1 else 0)"

definition set_results :: "int \<Rightarrow> int \<Rightarrow> nat" where
  "set_results ret errstat =
     (let ret = (if ret = 0 \<and> errstat = 0 then ret else if ret = 0 then errstat else ret)
      in if ret = 0 then 1 else 0)"

text \<open>The whole identifier of a column of a route.\<close>

definition full_route_oid :: "string \<Rightarrow> bytes \<Rightarrow> string \<Rightarrow> bytes \<Rightarrow> string" where
  "full_route_oid column dst pfx next_hop =
     ''IP-FORWARD-MIB::'' @ column @ ''.'' @ oid_join (addr_oid dst) @ ''.'' @ pfx @ ''.2.0.0.'' @ oid_join (addr_oid next_hop)"

lemma route_oid_fits:
  assumes "length d = 4 \<or> length d = 16" "length h = 4 \<or> length h = 16" "length column \<le> 30" "length pfx \<le> 20"
  shows "route_oid column (oid_join (addr_oid d)) pfx (oid_join (addr_oid h)) = full_route_oid column d pfx h"
  using addr_oid_length[OF assms(1)] addr_oid_length[OF assms(2)] assms(3,4)
  by (simp add: route_oid_def full_route_oid_def snprintf_def MAX_OID_STR_LEN_def MAX_IP_OID_LEN_def)

lemma dec_nat_bound: "n < 10 ^ k \<Longrightarrow> 0 < k \<Longrightarrow> length (dec_nat n) \<le> k"
proof (induction k arbitrary: n)
  case (Suc k)
  show ?case
  proof (cases "n < 10")
    case True
    then show ?thesis by (simp add: dec_nat.simps[of n])
  next
    case False
    then have "0 < k" using Suc.prems(1) by (cases k) auto
    moreover have "n div 10 < 10 ^ k" using Suc.prems(1) by (simp add: less_mult_imp_div_less mult.commute)
    ultimately have "length (dec_nat (n div 10)) \<le> k" using Suc.IH by blast
    then show ?thesis using False by (simp add: dec_nat.simps[of n])
  qed
qed simp

lemma dec_u32_length: "length (dec_nat (unat (w :: u32))) \<le> 10"
  using unat_u32_less[of w] by (intro dec_nat_bound) simp_all

lemma sint_u32_nonneg: "unat (w :: u32) < 2 ^ 31 \<Longrightarrow> sint w = int (unat w)"
proof -
  assume "unat w < 2 ^ 31"
  then have "int (unat w) < int (2 ^ 31)" by (simp only: of_nat_less_iff)
  then have "uint w < 2 ^ 31" by simp
  moreover have "- (2 ^ 31) \<le> uint w" by (rule order.trans[OF _ uint_ge_0]) simp
  ultimately show ?thesis by (simp add: sint_uint signed_take_bit_int_eq_self)
qed

text \<open>Creating and deleting a route name the same row: for addresses that \<open>inet_pton\<close> accepts and a
  prefix length that is not negative, no identifier is cut off, the five variables of the
  request that creates the route are columns of one row, given by the two addresses and the
  prefix length, and the request that deletes it sets the status of that row.\<close>

lemma snmp_route_rows:
  assumes "pton_ok pton4 pton6" "addr_of pton4 pton6 dst = Some d" "addr_of pton4 pton6 next_hop = Some h" "unat pfx < 2 ^ 31"
  shows "(\<exists>vs. add_route_request pton4 pton6 dst pfx next_hop iface rtype metric = Inr vs \<and>
      map fst vs = map (\<lambda>column. full_route_oid column d (dec_nat (unat pfx)) h)
        [''inetCidrRouteStatus'', ''inetCidrRouteIfIndex'', ''inetCidrRouteType'', ''inetCidrRouteNextHopAS'', ''inetCidrRouteMetric1'']) \<and>
    delete_route_request pton4 pton6 dst pfx next_hop =
      Inr [(full_route_oid ''inetCidrRouteStatus'' d (dec_nat (unat pfx)) h, AsnInteger 6)]"
proof -
  note a = ip2oid_eq[OF assms(1,2)] and b = ip2oid_eq[OF assms(1,3)]
  have "dec_int (sint pfx) = dec_nat (unat pfx)" using sint_u32_nonneg[OF assms(4)] by (simp add: dec_int_def)
  moreover have "length (dec_nat (unat pfx)) \<le> 20" using dec_u32_length[of pfx] by simp
  ultimately show ?thesis
    by (simp add: add_route_request_def delete_route_request_def a(1) b(1) route_oid_fits[OF a(2) b(2)])
qed

text \<open>When the agent answers a request for a new route with an error, the caller gets the number of results
  of a success; all other set requests return none.\<close>

lemma snmp_add_route_hides_error: "errstat \<noteq> 0 \<Longrightarrow> add_route_results 0 errstat = 1 \<and> set_results 0 errstat = 0"
  by (simp add: add_route_results_def set_results_def)

end
