(* ===== verification/SnmpSession.thy ===== *)
theory SnmpSession
  imports Snmp "HOL-Library.AList"
begin

text \<open>
  The methods of an SNMP session as Lua sees them (\<open>rfc2544/utils/snmpc.c\<close>), and the life of the sessions
  of a script.

  \<^item> A method is a function of the Lua stack, which holds its arguments from the bottom on. It raises an
    error or returns the topmost values of the stack; how many is what the C function returns.
  \<^item> \<open>lua\<close> are the conversions of the Lua interpreter, \<open>net\<close> the functions of net-snmp and of the C library that
    the methods call. Opening, exchanging, freeing and closing are recorded as events.
  \<^item> What the methods print is not part of the model.
\<close>

section \<open>Lua and net-snmp\<close>

datatype lval =
    LNil
  | LNum int
  | LStr string
  | LTable "(string \<times> string) list"
  | LSession nat  \<comment> \<open>the address of a \<open>session_userdata_t\<close>\<close>

datatype lua_out = Raise string | Return "lval list"

record lua =
  checklstring :: "lval \<Rightarrow> string option"
  checkinteger :: "lval \<Rightarrow> u32 option"
  tointegerx :: "lval \<Rightarrow> u32 option"

record snmp_conf =
  peername :: string
  version :: u32
  community :: string
  community_len :: nat

type_synonym snmp_var = "nat list \<times> bytes"  \<comment> \<open>name and encoded value\<close>

record response =
  errstat :: int
  variables :: "snmp_var list"

datatype request = MsgGet "nat list" | MsgSet "varbind list"

record net =
  snmp_open :: "snmp_conf \<Rightarrow> nat option"
  get_node :: "string \<Rightarrow> nat list option"
  snmp_synch_response :: "nat option \<Rightarrow> request \<Rightarrow> int \<times> response option"
  snmp_close :: "nat option \<Rightarrow> nat"
  snprint_objid :: "nat \<Rightarrow> nat list \<Rightarrow> string"
  snprint_value :: "nat \<Rightarrow> snmp_var \<Rightarrow> string"
  inet_pton4 :: "string \<Rightarrow> bytes option"
  inet_pton6 :: "string \<Rightarrow> bytes option"
  SNMP_VERSION_1 :: u32
  SNMP_VERSION_2c :: u32
  SNMP_VERSION_3 :: u32

datatype snmp_ev =
    Opened snmp_conf "nat option"
  | Exchanged "nat option" request "response option"
  | Freed response
  | Closed "nat option"

type_synonym heap = "nat \<Rightarrow> nat option"  \<comment> \<open>the session a userdata points to, if any\<close>

type_synonym snmp_call = "(snmp_ev list \<times> lua_out) res"

definition BUF_LEN :: nat where
  "BUF_LEN = 1024"

definition cstr :: "string \<Rightarrow> string" where
  "cstr s = takeWhile (\<lambda>ch. ch \<noteq> CHR 0x00) s"

definition arg :: "lval list \<Rightarrow> nat \<Rightarrow> lval" where
  "arg stk i = (if 0 < i \<and> i \<le> length stk then stk ! (i - 1) else LNil)"

definition lua_return :: "nat \<Rightarrow> lval list \<Rightarrow> lua_out" where
  "lua_return n stk = Return (drop (length stk - n) stk)"

definition raise :: "string \<Rightarrow> snmp_call" where
  "raise msg = Inr ([], Raise msg)"

text \<open>The checks of the interpreter raise an error when the argument has the wrong type; the check for a string
  replaces a number on the stack by its text.\<close>

definition check :: "'a option \<Rightarrow> ('a \<Rightarrow> snmp_call) \<Rightarrow> snmp_call" where
  "check v k = (case v of None \<Rightarrow> raise ''bad argument'' | Some x \<Rightarrow> k x)"

definition check_str :: "lua \<Rightarrow> lval list \<Rightarrow> nat \<Rightarrow> (string \<Rightarrow> lval list \<Rightarrow> snmp_call) \<Rightarrow> snmp_call" where
  "check_str L stk i k = check (checklstring L (arg stk i)) (\<lambda>s. k s (stk[i - 1 := LStr s]))"

definition checkudata :: "lval \<Rightarrow> nat option" where
  "checkudata v = (case v of LSession u \<Rightarrow> Some u | _ \<Rightarrow> None)"

section \<open>Opening and closing\<close>

text \<open>\<open>u\<close> is the address that \<open>lua_newuserdata\<close> returns; the last result is the heap after the call.\<close>

definition l_session_open :: "lua \<Rightarrow> net \<Rightarrow> nat \<Rightarrow> heap \<Rightarrow> lval list \<Rightarrow> snmp_ev list \<times> lua_out \<times> heap" where
  "l_session_open L net u hp stk =
     (case checklstring L (arg stk 1) of None \<Rightarrow> ([], Raise ''bad argument'', hp) | Some peer \<Rightarrow>
      let stk = stk[0 := LStr peer] in
      if length peer < 1 then ([], Raise ''peername cannot be empty'', hp)
      else case checkinteger L (arg stk 2) of None \<Rightarrow> ([], Raise ''bad argument'', hp) | Some ver \<Rightarrow>
        if ver = SNMP_VERSION_3 net then ([], Raise ''snmp.version3 not supported yet'', hp)
        else case checklstring L (arg stk 3) of None \<Rightarrow> ([], Raise ''bad argument'', hp) | Some commstr \<Rightarrow>
          let stk = stk[2 := LStr commstr] in
          if length commstr < 1 then ([], Raise ''community cannot be empty'', hp)
          else let conf = \<lparr>peername = cstr peer, version = ver, community = cstr commstr, community_len = length (cstr commstr)\<rparr>;
                   session = snmp_open net conf
               in ([Opened conf session], lua_return (if session \<noteq> None then 1 else 0) (stk @ [LSession u]), hp(u := session)))"

definition l_session_close :: "net \<Rightarrow> heap \<Rightarrow> lval list \<Rightarrow> snmp_call" where
  "l_session_close net hp stk =
     check (checkudata (arg stk 1)) (\<lambda>u. Inr ([Closed (hp u)], lua_return (snmp_close net (hp u)) stk))"

section \<open>Requests\<close>

text \<open>\<open>read_response\<close> is the access to the response when the status is success, \<open>free_response\<close> the end of every
  request.\<close>

definition read_response :: "int \<Rightarrow> response option \<Rightarrow> (int \<times> snmp_var list) res" where
  "read_response ret response =
     (if ret = 0 then case response of None \<Rightarrow> Inl NullDeref | Some r \<Rightarrow> Inr (errstat r, variables r) else Inr (0, []))"

definition free_response :: "response option \<Rightarrow> snmp_ev list" where
  "free_response response = (case response of None \<Rightarrow> [] | Some r \<Rightarrow> [Freed r])"

definition var_table :: "net \<Rightarrow> snmp_var list \<Rightarrow> (string \<times> string) list" where
  "var_table net vs = fold (\<lambda>v. AList.update (snprint_objid net BUF_LEN (fst v)) (snprint_value net BUF_LEN v)) vs []"

definition exchange_get :: "net \<Rightarrow> nat option \<Rightarrow> lval list \<Rightarrow> nat list \<Rightarrow> snmp_call" where
  "exchange_get net session stk req_oid =
     (let (ret, response) = snmp_synch_response net session (MsgGet req_oid)
      in rbind (read_response ret response) (\<lambda>(err, vs).
           let stk = (if ret = 0 \<and> err = 0 then stk @ [LTable (var_table net vs)] else stk)
           in Inr (Exchanged session (MsgGet req_oid) response # free_response response,
                   lua_return (if ret = 0 then 1 else 0) stk)))"

definition l_session_get :: "lua \<Rightarrow> net \<Rightarrow> heap \<Rightarrow> lval list \<Rightarrow> snmp_call" where
  "l_session_get L net hp stk =
     check_str L stk 2 (\<lambda>oid_str stk.
     if length oid_str < 1 then raise (''oid cannot be empty'' @ [CHR 0x0A])
     else check (checkudata (arg stk 1)) (\<lambda>u.
       case get_node net (cstr oid_str) of
         None \<Rightarrow> raise (''cannot parse oid '' @ cstr oid_str @ [CHR 0x0A])
       | Some req_oid \<Rightarrow> exchange_get net (hp u) stk req_oid))"

definition l_session_set :: "lval list \<Rightarrow> snmp_call" where
  "l_session_set stk = raise (''not implemented, yet'' @ [CHR 0x0A])"

definition exchange_set :: "(int \<Rightarrow> int \<Rightarrow> nat) \<Rightarrow> net \<Rightarrow> nat option \<Rightarrow> lval list \<Rightarrow> varbind list \<Rightarrow> snmp_call" where
  "exchange_set results net session stk vars =
     (let (ret, response) = snmp_synch_response net session (MsgSet vars)
      in rbind (read_response ret response) (\<lambda>(err, _).
           Inr (Exchanged session (MsgSet vars) response # free_response response, lua_return (results ret err) stk)))"

definition l_session_add_route_entry :: "lua \<Rightarrow> net \<Rightarrow> heap \<Rightarrow> lval list \<Rightarrow> snmp_call" where
  "l_session_add_route_entry L net hp stk =
     check (checkudata (arg stk 1)) (\<lambda>u.
     check_str L stk 2 (\<lambda>dst stk.
     check (checkinteger L (arg stk 3)) (\<lambda>pfx.
     check_str L stk 4 (\<lambda>next_hop stk.
     check (checkinteger L (arg stk 5)) (\<lambda>iface.
     check (checkinteger L (arg stk 6)) (\<lambda>rtype.
     rbind (add_route_request (inet_pton4 net) (inet_pton6 net) (cstr dst) pfx (cstr next_hop) iface rtype
              (tointegerx L (arg stk 7)))
       (exchange_set add_route_results net (hp u) stk)))))))"

definition l_session_delete_route_entry :: "lua \<Rightarrow> net \<Rightarrow> heap \<Rightarrow> lval list \<Rightarrow> snmp_call" where
  "l_session_delete_route_entry L net hp stk =
     check (checkudata (arg stk 1)) (\<lambda>u.
     check (checkinteger L (arg stk 3)) (\<lambda>pfx.
     check_str L stk 2 (\<lambda>dst stk.
     rbind (ip2oid (inet_pton4 net) (inet_pton6 net) (cstr dst) MAX_IP_OID_LEN) (\<lambda>_.
     check_str L stk 4 (\<lambda>next_hop stk.
     rbind (delete_route_request (inet_pton4 net) (inet_pton6 net) (cstr dst) pfx (cstr next_hop))
       (exchange_set set_results net (hp u) stk))))))"

definition l_session_add_ip :: "lua \<Rightarrow> net \<Rightarrow> heap \<Rightarrow> lval list \<Rightarrow> snmp_call" where
  "l_session_add_ip L net hp stk =
     check (checkudata (arg stk 1)) (\<lambda>u.
     check_str L stk 2 (\<lambda>ip stk.
     rbind (ip2oid (inet_pton4 net) (inet_pton6 net) (cstr ip) MAX_IP_OID_LEN) (\<lambda>_.
     check (checkinteger L (arg stk 3)) (\<lambda>pfx.
     check (checkinteger L (arg stk 4)) (\<lambda>if_id.
     rbind (add_ip_request (inet_pton4 net) (inet_pton6 net) (cstr ip) if_id)
       (exchange_set set_results net (hp u) stk))))))"

definition l_session_del_ip :: "lua \<Rightarrow> net \<Rightarrow> heap \<Rightarrow> lval list \<Rightarrow> snmp_call" where
  "l_session_del_ip L net hp stk =
     check (checkudata (arg stk 1)) (\<lambda>u.
     check_str L stk 2 (\<lambda>ip stk.
     rbind (del_ip_request (inet_pton4 net) (inet_pton6 net) (cstr ip))
       (exchange_set set_results net (hp u) stk)))"

section \<open>The module\<close>

definition session_functions :: "lua \<Rightarrow> net \<Rightarrow> heap \<Rightarrow> (string \<times> (lval list \<Rightarrow> snmp_call)) list" where
  "session_functions L net hp =
     [(''__gc'', l_session_close net hp),
      (''get'', l_session_get L net hp),
      (''set'', l_session_set),
      (''deleteRouteEntry'', l_session_delete_route_entry L net hp),
      (''addRouteEntry'', l_session_add_route_entry L net hp),
      (''addIp'', l_session_add_ip L net hp),
      (''delIp'', l_session_del_ip L net hp)]"

text \<open>The table that \<open>luaopen_snmp\<close> returns, and the metatable of the sessions, whose \<open>__index\<close> is itself.\<close>

datatype mval = MOpen "lval list \<Rightarrow> snmp_ev list \<times> lua_out \<times> heap" | MTypes | MVersion u32

definition luaopen_snmp :: "lua \<Rightarrow> net \<Rightarrow> nat \<Rightarrow> heap \<Rightarrow> (string \<times> mval) list" where
  "luaopen_snmp L net u hp =
     [(''session'', MOpen (l_session_open L net u hp)), (''types'', MTypes),
      (''version1'', MVersion (SNMP_VERSION_1 net)), (''version2c'', MVersion (SNMP_VERSION_2c net)),
      (''version3'', MVersion (SNMP_VERSION_3 net))]"

section \<open>What the methods do\<close>

lemma arg_update [simp]: "i \<noteq> j \<Longrightarrow> 0 < i \<Longrightarrow> 0 < j \<Longrightarrow> arg (stk[j - 1 := v]) i = arg stk i"
  by (auto simp: arg_def)

lemma arg_update_1 [simp]: "arg (stk[1 := v]) 1 = arg stk 1" "arg (stk[Suc 0 := v]) (Suc 0) = arg stk (Suc 0)"
  by (auto simp: arg_def)

text \<open>A method raises an error or exchanges one message on the session of its first argument, and frees the
  response.\<close>

definition one_exchange :: "heap \<Rightarrow> lval list \<Rightarrow> snmp_ev list \<Rightarrow> bool" where
  "one_exchange hp stk evs \<longleftrightarrow>
     evs = [] \<or> (\<exists>u q resp. arg stk 1 = LSession u \<and> evs = Exchanged (hp u) q resp # free_response resp)"

lemma checkudata_Some [simp]: "checkudata v = Some u \<longleftrightarrow> v = LSession u"
  by (cases v) (auto simp: checkudata_def)

lemma check_Inr:
  "check v k = Inr (evs, out) \<longleftrightarrow> (v = None \<and> evs = [] \<and> out = Raise ''bad argument'') \<or> (\<exists>x. v = Some x \<and> k x = Inr (evs, out))"
  by (cases v) (auto simp: check_def raise_def)

lemma exchange_set_one:
  "exchange_set results net (hp u) stk vs = Inr (evs, out) \<Longrightarrow> arg stk0 1 = LSession u \<Longrightarrow> one_exchange hp stk0 evs"
  by (cases "snmp_synch_response net (hp u) (MsgSet vs)") (auto simp: exchange_set_def one_exchange_def rbind_Inr_iff)

lemma exchange_get_one:
  "exchange_get net (hp u) stk oid = Inr (evs, out) \<Longrightarrow> arg stk0 1 = LSession u \<Longrightarrow> one_exchange hp stk0 evs"
  by (cases "snmp_synch_response net (hp u) (MsgGet oid)") (auto simp: exchange_get_def one_exchange_def rbind_Inr_iff Let_def)

lemma no_exchange [simp]: "one_exchange hp stk []"
  by (simp add: one_exchange_def)

lemma get_one: "l_session_get L net hp stk = Inr (evs, out) \<Longrightarrow> one_exchange hp stk evs"
  by (auto simp: l_session_get_def check_str_def check_Inr raise_def split: if_splits option.splits dest!: exchange_get_one[where ?stk0.0 = stk])

lemma set_methods_one:
  "l_session_add_route_entry L net hp stk = Inr (evs, out) \<Longrightarrow> one_exchange hp stk evs"
  "l_session_delete_route_entry L net hp stk = Inr (evs, out) \<Longrightarrow> one_exchange hp stk evs"
  "l_session_add_ip L net hp stk = Inr (evs, out) \<Longrightarrow> one_exchange hp stk evs"
  "l_session_del_ip L net hp stk = Inr (evs, out) \<Longrightarrow> one_exchange hp stk evs"
  by (auto simp: l_session_add_route_entry_def l_session_delete_route_entry_def l_session_add_ip_def l_session_del_ip_def
      check_str_def check_Inr rbind_Inr_iff dest!: exchange_set_one[where ?stk0.0 = stk])

lemma method_one:
  assumes "map_of (session_functions L net hp) m = Some f" "m \<noteq> ''__gc''" "f stk = Inr (evs, out)"
  shows "one_exchange hp stk evs"
proof -
  have "f \<in> {l_session_get L net hp, l_session_set, l_session_delete_route_entry L net hp,
      l_session_add_route_entry L net hp, l_session_add_ip L net hp, l_session_del_ip L net hp}"
    using assms(1,2) unfolding session_functions_def by (auto split: if_splits)
  then show ?thesis using assms(3) by (auto simp: l_session_set_def raise_def dest: get_one set_methods_one)
qed

section \<open>The life of the sessions\<close>

text \<open>
  \<open>alive\<close> are the userdata that the collector has not finalised, \<open>held\<close> those that the script can still reach. A script
  gets userdata from \<open>snmp.session\<close> only, passes what it holds to the methods, and may drop it; the
  collector finalises what is no longer reachable by the \<open>__gc\<close> method. Each call has a \<open>net\<close> of its own,
  as an agent need not answer two requests alike.
\<close>

record snmp_state =
  sess :: heap
  alive :: "nat set"
  held :: "nat set"
  events :: "snmp_ev list"

definition open_sessions :: "snmp_state \<Rightarrow> nat set" where
  "open_sessions st = {s. \<exists>u\<in>alive st. sess st u = Some s}"

inductive snmp_script :: "lua \<Rightarrow> snmp_state \<Rightarrow> bool" for L where
  start: "snmp_script L \<lparr>sess = Map.empty, alive = {}, held = {}, events = []\<rparr>"
| session: "\<lbrakk>snmp_script L st; u \<notin> alive st; \<forall>conf s. snmp_open net conf = Some s \<longrightarrow> s \<notin> open_sessions st;
    l_session_open L net u (sess st) stk = (evs, out, hp')\<rbrakk> \<Longrightarrow>
    snmp_script L (st\<lparr>sess := hp', alive := (if evs = [] then alive st else insert u (alive st)),
      held := (if out = Return [LSession u] then insert u (held st) else held st), events := events st @ evs\<rparr>)"
| invoke: "\<lbrakk>snmp_script L st; m \<noteq> ''__gc''; map_of (session_functions L net (sess st)) m = Some f;
    \<forall>u. LSession u \<in> set stk \<longrightarrow> u \<in> held st; f stk = Inr (evs, out)\<rbrakk> \<Longrightarrow>
    snmp_script L (st\<lparr>events := events st @ evs\<rparr>)"
| forget: "\<lbrakk>snmp_script L st; keep \<subseteq> held st\<rbrakk> \<Longrightarrow> snmp_script L (st\<lparr>held := keep\<rparr>)"
| collect: "\<lbrakk>snmp_script L st; u \<in> alive st; u \<notin> held st; l_session_close net (sess st) [LSession u] = Inr (evs, out)\<rbrakk> \<Longrightarrow>
    snmp_script L (st\<lparr>alive := alive st - {u}, events := events st @ evs\<rparr>)"

text \<open>What net-snmp asks of its user, as a function that reads the events: the sessions that are open, and a response
  that is still to be freed.\<close>

fun use_ev :: "nat set \<times> response option \<Rightarrow> snmp_ev \<Rightarrow> (nat set \<times> response option) option" where
  "use_ev (opn, Some r) e = (if e = Freed r then Some (opn, None) else None)"
| "use_ev (opn, None) (Opened conf None) = Some (opn, None)"
| "use_ev (opn, None) (Opened conf (Some s)) = (if s \<in> opn then None else Some (insert s opn, None))"
| "use_ev (opn, None) (Exchanged None q r) = None"
| "use_ev (opn, None) (Exchanged (Some s) q r) = (if s \<in> opn then Some (opn, r) else None)"
| "use_ev (opn, None) (Freed r) = None"
| "use_ev (opn, None) (Closed None) = Some (opn, None)"
| "use_ev (opn, None) (Closed (Some s)) = (if s \<in> opn then Some (opn - {s}, None) else None)"

primrec use_log :: "nat set \<times> response option \<Rightarrow> snmp_ev list \<Rightarrow> (nat set \<times> response option) option" where
  "use_log p [] = Some p"
| "use_log p (e # es) = (case use_ev p e of None \<Rightarrow> None | Some p' \<Rightarrow> use_log p' es)"

lemma use_log_append: "use_log p (xs @ ys) = (case use_log p xs of None \<Rightarrow> None | Some p' \<Rightarrow> use_log p' ys)"
  by (induction xs arbitrary: p) (auto split: option.splits)

definition owned_once :: "heap \<Rightarrow> nat set \<Rightarrow> bool" where
  "owned_once h us \<longleftrightarrow> (\<forall>s. \<forall>u\<in>us. \<forall>v\<in>us. h u = Some s \<longrightarrow> h v = Some s \<longrightarrow> u = v)"

definition snmp_inv :: "snmp_state \<Rightarrow> bool" where
  "snmp_inv st \<longleftrightarrow> use_log ({}, None) (events st) = Some (open_sessions st, None) \<and>
     held st \<subseteq> alive st \<and> (\<forall>u\<in>held st. sess st u \<noteq> None) \<and>
     owned_once (sess st) (alive st)"

lemma owned_once_insert:
  "owned_once h us \<Longrightarrow> u \<notin> us \<Longrightarrow> (\<And>s v. x = Some s \<Longrightarrow> v \<in> us \<Longrightarrow> h v \<noteq> Some s) \<Longrightarrow> owned_once (h(u := x)) (insert u us)"
  unfolding owned_once_def by (metis (no_types, lifting) fun_upd_apply insert_iff)

lemma owned_once_subset: "owned_once h us \<Longrightarrow> vs \<subseteq> us \<Longrightarrow> owned_once h vs"
  by (auto simp: owned_once_def)

lemma open_cases:
  assumes "l_session_open L net u hp stk = (evs, out, hp')"
  shows "(evs = [] \<and> (\<exists>msg. out = Raise msg) \<and> hp' = hp) \<or>
    (\<exists>conf. evs = [Opened conf (snmp_open net conf)] \<and> hp' = hp(u := snmp_open net conf) \<and>
      out = Return (if snmp_open net conf = None then [] else [LSession u]))"
  using assms by (auto simp: l_session_open_def lua_return_def Let_def split: option.splits if_splits)

lemma arg_1_set: "arg stk 1 = LSession u \<Longrightarrow> LSession u \<in> set stk"
  by (cases stk) (auto simp: arg_def split: if_splits)

lemma one_exchange_use:
  assumes "one_exchange hp stk evs" "\<And>u. arg stk 1 = LSession u \<Longrightarrow> \<exists>s. hp u = Some s \<and> s \<in> opn"
  shows "use_log (opn, None) evs = Some (opn, None)"
  using assms by (fastforce simp: one_exchange_def free_response_def split: option.splits)

lemma session_inv:
  assumes "snmp_inv st" "u \<notin> alive st" "\<forall>conf s. snmp_open net conf = Some s \<longrightarrow> s \<notin> open_sessions st"
    "l_session_open L net u (sess st) stk = (evs, out, hp')"
  shows "snmp_inv (st\<lparr>sess := hp', alive := (if evs = [] then alive st else insert u (alive st)),
      held := (if out = Return [LSession u] then insert u (held st) else held st), events := events st @ evs\<rparr>)"
  using open_cases[OF assms(4)]
proof (elim disjE exE conjE)
  fix msg
  assume "evs = []" "out = Raise msg" "hp' = sess st"
  then show ?thesis using assms(1) by (simp add: snmp_inv_def open_sessions_def)
next
  fix conf
  assume evs: "evs = [Opened conf (snmp_open net conf)]" and hp': "hp' = (sess st)(u := snmp_open net conf)"
    and out: "out = Return (if snmp_open net conf = None then [] else [LSession u])"
  show ?thesis
  proof (cases "snmp_open net conf")
    case None
    then have "open_sessions st = {s. \<exists>v\<in>insert u (alive st). hp' v = Some s}" "owned_once hp' (insert u (alive st))"
      using assms(1,2) hp' by (auto simp: snmp_inv_def open_sessions_def intro: owned_once_insert)
    then show ?thesis using assms(1,2) evs hp' out None by (auto simp: snmp_inv_def open_sessions_def use_log_append)
  next
    case (Some s)
    have "s \<notin> open_sessions st" using assms(3) Some by blast
    then have "use_log ({}, None) (events st @ evs) = Some (insert s (open_sessions st), None)"
      using assms(1) evs Some by (simp add: snmp_inv_def use_log_append)
    moreover have "insert s (open_sessions st) = {s. \<exists>v\<in>insert u (alive st). hp' v = Some s}"
      using assms(2) hp' Some by (auto simp: open_sessions_def)
    moreover have "owned_once hp' (insert u (alive st))"
      using assms(1,2) hp' Some \<open>s \<notin> open_sessions st\<close> by (auto simp: snmp_inv_def open_sessions_def intro: owned_once_insert)
    ultimately show ?thesis using assms(1,2) evs hp' out Some by (auto simp: snmp_inv_def open_sessions_def)
  qed
qed

lemma method_inv:
  assumes "snmp_inv st" "m \<noteq> ''__gc''" "map_of (session_functions L net (sess st)) m = Some f"
    "\<forall>u. LSession u \<in> set stk \<longrightarrow> u \<in> held st" "f stk = Inr (evs, out)"
  shows "snmp_inv (st\<lparr>events := events st @ evs\<rparr>)"
proof -
  have "\<exists>s. sess st u = Some s \<and> s \<in> open_sessions st" if "arg stk 1 = LSession u" for u
    using assms(1,4) arg_1_set[OF that] by (force simp: snmp_inv_def open_sessions_def)
  then have "use_log (open_sessions st, None) evs = Some (open_sessions st, None)"
    by (rule one_exchange_use[OF method_one[OF assms(3,2,5)]])
  then show ?thesis using assms(1) by (simp add: snmp_inv_def open_sessions_def use_log_append)
qed

lemma collect_inv:
  assumes "snmp_inv st" "u \<in> alive st" "u \<notin> held st" "l_session_close net (sess st) [LSession u] = Inr (evs, out)"
  shows "snmp_inv (st\<lparr>alive := alive st - {u}, events := events st @ evs\<rparr>)"
proof -
  have evs: "evs = [Closed (sess st u)]" using assms(4) by (auto simp: l_session_close_def arg_def check_def checkudata_def)
  have "use_log (open_sessions st, None) evs = Some ({s. \<exists>v\<in>alive st - {u}. sess st v = Some s}, None)"
  proof (cases "sess st u")
    case None
    then show ?thesis using evs by (auto simp: open_sessions_def)
  next
    case (Some s)
    then have "open_sessions st - {s} = {s. \<exists>v\<in>alive st - {u}. sess st v = Some s}" "s \<in> open_sessions st"
      using assms(1,2) by (auto simp: open_sessions_def snmp_inv_def owned_once_def)
    then show ?thesis using evs Some by simp
  qed
  moreover have "owned_once (sess st) (alive st - {u})" using assms(1) owned_once_subset[of "sess st" "alive st"] by (auto simp: snmp_inv_def)
  ultimately show ?thesis using assms(1,3) by (auto simp: snmp_inv_def open_sessions_def use_log_append)
qed


definition ex_lua :: lua where
  "ex_lua = \<lparr>checklstring = (\<lambda>v. case v of LStr s \<Rightarrow> Some s | LNum n \<Rightarrow> Some (dec_int n) | _ \<Rightarrow> None),
     checkinteger = (\<lambda>v. case v of LNum n \<Rightarrow> Some (word_of_int n) | _ \<Rightarrow> None),
     tointegerx = (\<lambda>v. case v of LNum n \<Rightarrow> Some (word_of_int n) | _ \<Rightarrow> None)\<rparr>"

definition ex_response :: "int \<Rightarrow> response" where
  "ex_response err = \<lparr>errstat = err, variables = [([1, 3], [42])]\<rparr>"

definition ex_net :: "int \<Rightarrow> net" where
  "ex_net err = \<lparr>snmp_open = (\<lambda>_. Some 7), get_node = (\<lambda>_. Some [1, 3]),
     snmp_synch_response = (\<lambda>_ _. (0, Some (ex_response err))), snmp_close = (\<lambda>_. 1),
     snprint_objid = (\<lambda>_. oid_join), snprint_value = (\<lambda>_ v. concat (map (dec_nat \<circ> unat) (snd v))),
     inet_pton4 = ex_pton4, inet_pton6 = (\<lambda>_. None),
     SNMP_VERSION_1 = 0, SNMP_VERSION_2c = 1, SNMP_VERSION_3 = 3\<rparr>"

definition ex_conf :: snmp_conf where
  "ex_conf = \<lparr>peername = ''dut'', version = 1, community = ''public'', community_len = 6\<rparr>"

lemma ex_open: "l_session_open ex_lua (ex_net 0) 1 Map.empty [LStr ''dut'', LNum 1, LStr ''public''] =
    ([Opened ex_conf (Some 7)], Return [LSession 1], Map.empty(1 := Some 7))"
  by (simp add: l_session_open_def ex_lua_def ex_net_def ex_conf_def arg_def cstr_def lua_return_def Let_def eval_nat_numeral)

lemma ex_get: "l_session_get ex_lua (ex_net 0) (Map.empty(1 := Some 7)) [LSession 1, LStr ''.1.3''] =
    Inr ([Exchanged (Some 7) (MsgGet [1, 3]) (Some (ex_response 0)), Freed (ex_response 0)],
      Return [LTable (var_table (ex_net 0) [([1, 3], [42])])])"
  by (simp add: l_session_get_def exchange_get_def check_str_def check_def checkudata_def ex_lua_def ex_net_def ex_response_def
      arg_def read_response_def free_response_def lua_return_def)

definition ex_state :: "nat set \<Rightarrow> nat set \<Rightarrow> snmp_ev list \<Rightarrow> snmp_state" where
  "ex_state us hs evs = \<lparr>sess = Map.empty(1 := Some 7), alive = us, held = hs, events = evs\<rparr>"

lemma ex_script: "snmp_script ex_lua (ex_state {} {}
    [Opened ex_conf (Some 7), Exchanged (Some 7) (MsgGet [1, 3]) (Some (ex_response 0)), Freed (ex_response 0), Closed (Some 7)])"
proof -
  have "snmp_script ex_lua (ex_state {1} {1} [Opened ex_conf (Some 7)])"
    using snmp_script.session[OF snmp_script.start, of 1 "ex_net 0" ex_lua "[LStr ''dut'', LNum 1, LStr ''public'']"] ex_open
    by (simp add: open_sessions_def ex_state_def)
  from snmp_script.invoke[OF this, of "''get''" "ex_net 0" _ "[LSession 1, LStr ''.1.3'']"]
  have "snmp_script ex_lua (ex_state {1} {1}
      [Opened ex_conf (Some 7), Exchanged (Some 7) (MsgGet [1, 3]) (Some (ex_response 0)), Freed (ex_response 0)])"
    using ex_get by (simp add: session_functions_def ex_state_def)
  from snmp_script.forget[OF this, of "{}"]
  have "snmp_script ex_lua (ex_state {1} {}
      [Opened ex_conf (Some 7), Exchanged (Some 7) (MsgGet [1, 3]) (Some (ex_response 0)), Freed (ex_response 0)])"
    by (simp add: ex_state_def)
  from snmp_script.collect[OF this, of 1 "ex_net 0"] show ?thesis
    by (simp add: l_session_close_def check_def checkudata_def arg_def ex_state_def)
qed


text \<open>The metatable is its own \<open>__index\<close>, so a script can also call \<open>__gc\<close> on a session that it keeps; the pointer
  stays in the userdata, and the collector closes the session a second time.\<close>

lemma snmp_explicit_gc_closes_twice:
  assumes "h u = Some s"
  shows "\<exists>f out. map_of (session_functions L net h) ''__gc'' = Some f \<and> f [LSession u] = Inr ([Closed (Some s)], out) \<and>
    use_log (opn, None) ([Closed (Some s)] @ [Closed (Some s)]) = None"
  using assms by (simp add: session_functions_def l_session_close_def check_def checkudata_def arg_def)

section \<open>Results\<close>

text \<open>net-snmp returns a response with the status success.\<close>

definition answers_ok :: "net \<Rightarrow> bool" where
  "answers_ok net \<longleftrightarrow> (\<forall>s q. fst (snmp_synch_response net s q) = 0 \<longrightarrow> snd (snmp_synch_response net s q) \<noteq> None)"

lemma answersD: "answers_ok net \<Longrightarrow> snmp_synch_response net s q = (0, response) \<Longrightarrow> \<exists>r. response = Some r"
  unfolding answers_ok_def by (metis fst_conv not_None_eq snd_conv)

lemma exchange_set_eq:
  assumes "answers_ok net"
  shows "exchange_set results net s stk vs =
    (let (ret, response) = snmp_synch_response net s (MsgSet vs)
     in Inr (Exchanged s (MsgSet vs) response # free_response response,
             lua_return (results ret (if ret = 0 then errstat (the response) else 0)) stk))"
  using answersD[OF assms, of s "MsgSet vs"]
  by (cases "snmp_synch_response net s (MsgSet vs)") (auto simp: exchange_set_def read_response_def)

lemma var_table_lookup:
  "map_of (var_table net vs) =
     map_of (map (\<lambda>v. (snprint_objid net BUF_LEN (fst v), snprint_value net BUF_LEN v)) (rev vs))"
proof -
  have "map_of (fold (\<lambda>v. AList.update (f v) (g v)) vs t) = map_of t ++ map_of (map (\<lambda>v. (f v, g v)) (rev vs))" for f g and t :: "(string \<times> string) list"
    by (induction vs arbitrary: t) (auto simp: update_conv' map_add_def fun_eq_iff split: option.splits)
  then show ?thesis by (simp add: var_table_def)
qed

text \<open>(C35) The outcome of \<open>session:get(oid)\<close> for an identifier that net-snmp knows. The method is defined and sends one
  request, on the session of the script, for this identifier. Without an answer it returns nothing. With a good answer
  it returns a table that gives each name the printed value of its last variable. When the agent
  answers with an error it returns one value as well, which is the identifier it was called with.\<close>

theorem snmp_get_result:
  assumes "answers_ok net" "checklstring L (LStr oid_str) = Some oid_str" "oid_str \<noteq> []"
    "get_node net (cstr oid_str) = Some req_oid" "snmp_synch_response net (h u) (MsgGet req_oid) = (ret, response)"
  shows "\<exists>out. l_session_get L net h [LSession u, LStr oid_str] =
      Inr (Exchanged (h u) (MsgGet req_oid) response # free_response response, Return out) \<and>
    (if ret \<noteq> 0 then out = []
     else \<exists>r. response = Some r \<and>
       (if errstat r = 0
        then \<exists>t. out = [LTable t] \<and>
          map_of t = map_of (map (\<lambda>v. (snprint_objid net BUF_LEN (fst v), snprint_value net BUF_LEN v)) (rev (variables r)))
        else out = [LStr oid_str]))"
proof -
  have "\<exists>r. response = Some r" if "ret = 0"
    using answersD[OF assms(1)] assms(5) that by blast
  then consider "ret \<noteq> 0" | r where "ret = 0" "response = Some r" "errstat r = 0" | r where "ret = 0" "response = Some r" "errstat r \<noteq> 0"
    by blast
  then show ?thesis
    by cases (use assms in \<open>simp_all add: l_session_get_def exchange_get_def check_str_def check_def checkudata_def arg_def
        read_response_def lua_return_def var_table_lookup\<close>)
qed

lemma ex_answers_ok: "answers_ok (ex_net err)"
  by (simp add: answers_ok_def ex_net_def)

theorem snmp_get_result_witness:
  "\<exists>evs. l_session_get ex_lua (ex_net 2) (Map.empty(1 := Some 7)) [LSession 1, LStr ''.1.3''] = Inr (evs, Return [LStr ''.1.3''])"
proof -
  have "checklstring ex_lua (LStr ''.1.3'') = Some ''.1.3''" "get_node (ex_net 2) (cstr ''.1.3'') = Some [1, 3]"
    "snmp_synch_response (ex_net 2) ((Map.empty(1 := Some 7)) 1) (MsgGet [1, 3]) = (0, Some (ex_response 2))"
    by (simp_all add: ex_lua_def ex_net_def)
  from snmp_get_result[of "ex_net 2" ex_lua "''.1.3''" "[1, 3]" "Map.empty(1 := Some 7)" 1, OF ex_answers_ok this(1) _ this(2,3)] show ?thesis by (auto simp: ex_response_def)
qed

text \<open>(C34) Adding a route and deleting it, from the call of the method to the request on the wire and back. For addresses
  that \<open>inet_pton\<close> accepts and a prefix length that is not negative, each method is defined and sends one
  request on the session it is called on: the first sets five columns of the row given by the
  addresses and the prefix length, the second the status of that row to destroy. Deleting
  returns a value, its last argument, if the agent answers without an error; adding returns one whenever the agent
  answers, also when it refuses the route.\<close>

theorem snmp_route_methods:
  assumes "answers_ok net" "pton_ok (inet_pton4 net) (inet_pton6 net)"
    "addr_of (inet_pton4 net) (inet_pton6 net) (cstr dst) = Some d" "addr_of (inet_pton4 net) (inet_pton6 net) (cstr hop) = Some g"
    "\<And>s. checklstring L (LStr s) = Some s" "checkinteger L (LNum p) = Some pfx" "unat pfx < 2 ^ 31"
    "checkinteger L (LNum i) = Some iface" "checkinteger L (LNum t) = Some rtype"
  shows "(\<exists>vs. map fst vs = map (\<lambda>column. full_route_oid column d (dec_nat (unat pfx)) g)
        [''inetCidrRouteStatus'', ''inetCidrRouteIfIndex'', ''inetCidrRouteType'', ''inetCidrRouteNextHopAS'', ''inetCidrRouteMetric1''] \<and>
      (let (ret, response) = snmp_synch_response net (h u) (MsgSet vs)
       in l_session_add_route_entry L net h [LSession u, LStr dst, LNum p, LStr hop, LNum i, LNum t] =
            Inr (Exchanged (h u) (MsgSet vs) response # free_response response, Return (if ret = 0 then [LNum t] else [])))) \<and>
    (let vs = [(full_route_oid ''inetCidrRouteStatus'' d (dec_nat (unat pfx)) g, AsnInteger 6)];
         (ret, response) = snmp_synch_response net (h u) (MsgSet vs)
     in l_session_delete_route_entry L net h [LSession u, LStr dst, LNum p, LStr hop] =
          Inr (Exchanged (h u) (MsgSet vs) response # free_response response,
               Return (if ret = 0 \<and> map_option errstat response = Some 0 then [LStr hop] else [])))"
proof -
  note rows = snmp_route_rows[OF assms(2-4,7)]
  obtain vs where vs: "add_route_request (inet_pton4 net) (inet_pton6 net) (cstr dst) pfx (cstr hop) iface rtype (tointegerx L LNil) = Inr vs"
    "map fst vs = map (\<lambda>column. full_route_oid column d (dec_nat (unat pfx)) g)
        [''inetCidrRouteStatus'', ''inetCidrRouteIfIndex'', ''inetCidrRouteType'', ''inetCidrRouteNextHopAS'', ''inetCidrRouteMetric1'']"
    using rows by blast
  have "l_session_add_route_entry L net h [LSession u, LStr dst, LNum p, LStr hop, LNum i, LNum t] =
      exchange_set add_route_results net (h u) [LSession u, LStr dst, LNum p, LStr hop, LNum i, LNum t] vs"
    using assms(5,6,8,9) vs(1) by (simp add: l_session_add_route_entry_def check_str_def check_def checkudata_def arg_def)
  moreover have "l_session_delete_route_entry L net h [LSession u, LStr dst, LNum p, LStr hop] =
      exchange_set set_results net (h u) [LSession u, LStr dst, LNum p, LStr hop]
        [(full_route_oid ''inetCidrRouteStatus'' d (dec_nat (unat pfx)) g, AsnInteger 6)]"
    using assms(5,6) rows ip2oid_eq(1)[OF assms(2,3)]
    by (simp add: l_session_delete_route_entry_def check_str_def check_def checkudata_def arg_def)
  ultimately show ?thesis using vs(2)
    by (intro conjI exI[of _ vs])
      (auto simp: exchange_set_eq[OF assms(1)] add_route_results_def set_results_def lua_return_def Let_def
        split: prod.splits dest: answersD[OF assms(1)])
qed

theorem snmp_route_methods_witness:
  "(\<exists>evs. l_session_add_route_entry ex_lua (ex_net 2) (Map.empty(1 := Some 7))
      [LSession 1, LStr ''10.0.0.255'', LNum 24, LStr ''10.0.0.255'', LNum 3, LNum 4] = Inr (evs, Return [LNum 4])) \<and>
   (\<exists>evs. l_session_delete_route_entry ex_lua (ex_net 2) (Map.empty(1 := Some 7))
      [LSession 1, LStr ''10.0.0.255'', LNum 24, LStr ''10.0.0.255''] = Inr (evs, Return []))"
proof -
  have pton: "inet_pton4 (ex_net 2) = ex_pton4" "inet_pton6 (ex_net 2) = (\<lambda>_. None)" "cstr ''10.0.0.255'' = ''10.0.0.255''"
    by (simp_all add: ex_net_def cstr_def)
  have synch: "snmp_synch_response (ex_net 2) s q = (0, Some (ex_response 2))" for s q by (simp add: ex_net_def)
  note * = snmp_route_methods[of "ex_net 2" "''10.0.0.255''" "[10, 0, 0, 255]" "''10.0.0.255''" "[10, 0, 0, 255]" ex_lua 24 24 3 3 4 4
      "Map.empty(1 := Some 7)" 1, unfolded pton synch, OF ex_answers_ok ex_pton_ok ex_pton_ok(2)]
  then show ?thesis by (auto simp: ex_lua_def ex_response_def Let_def)
qed

end
