(* ===== verification/Spec2Isabelle.thy ===== *)
theory Spec2Isabelle
  imports LeakyBucket TokenBucket HwPath ArrMatch Hist MoonemSw Sniff Pcap RateLimiter SwTimestamp SnmpSession
begin

text \<open>
  A verification library for the native code of MoonGen: the C and C++ sources under \<open>src/\<close> of the
  repository, the SNMP module \<open>rfc2544/utils/snmpc.c\<close>, the Lua readers of what this code writes, and the
  script that matches its recordings.

  \<^bold>\<open>The program.\<close> MoonGen is a packet generator and path emulator on top of DPDK and libmoon. Its native
  parts are the inner loops that the Lua scripts start on a core of their own:

  \<^item> The \<^emph>\<open>path emulator\<close> (moonem) receives bursts of packets, drops some of them according to a loss model or
    a rate limit, stamps the others with the time at which they are to leave and puts them into a
    ring. A transmit thread takes them out. In hardware mode (\<open>moonem.cpp\<close>, \<open>launch-timestamp.cpp\<close>,
    \<open>crc-ratecontrol.cpp\<close>) it turns launch times into gaps between packets, which are filled with invalid
    frames; in software mode (\<open>moonem_sw.cpp\<close>) it waits for the time-stamp counter.
  \<^item> The \<^emph>\<open>software rate limiter\<close> (\<open>software-rate-limiter.cpp\<close>) paces the packets of a ring by busy waiting.
  \<^item> \<^emph>\<open>MoonSniff\<close> (\<open>moonsniff.cpp\<close>) matches packets in front of and behind a device under test, live or
    through capture files, which \<open>examples/moonsniff/arrmatch.lua\<close> joins afterwards; \<open>histogram.cpp\<close> collects
    latencies.
  \<^item> \<open>software-timestamping.c\<close> stamps single packets; \<open>snmpc.c\<close> configures routers over SNMP.

  \<^bold>\<open>The model.\<close> The theories are a shallow embedding, one per component, in the order of the code:

  \<^item> \<open>Prelude\<close>: word types, \<open>ub\<close> (the kinds of undefined behaviour), \<open>'a res\<close> (a value or undefined
    behaviour), \<open>'a run\<close> (\<open>None\<close>: does not return), loops over the inputs (\<open>run_loop\<close>), word lemmas.
    \<open>Float64\<close>: IEEE binary64 as rationals with rounding to nearest even, infinities and NaN, and the
    conversions of C with their undefined cases. \<open>Bytes\<close>: little-endian memory. \<open>Decimal\<close>: decimal output
    and \<open>snprintf\<close>. \<open>Tsc\<close>: the busy wait on the time-stamp counter.
  \<^item> \<open>Mbuf\<close>: packet buffers, the calls that consume them, and the locales \<open>burst_filter\<close> (one packet of a
    burst) and \<open>burst_handler\<close> (one burst), which carry conservation and order of packets from a
    single step to a whole run. They are interpreted for each loss model, rate limiter and loop.
  \<^item> \<open>Loss\<close> (\<open>moonem_common.h\<close>): generator, loss models, \<open>applyLoss\<close>.
  \<^item> \<open>Moonem\<close> (\<open>moonem.cpp\<close>): the four receive loops, with \<open>LeakyBucket\<close> and \<open>TokenBucket\<close> for the properties of
    the two rate limiters.
  \<^item> \<open>CrcRate\<close> (\<open>crc-ratecontrol.cpp\<close>): class \<open>RateLimiterCRC\<close> as the record \<open>crc\<close>, its environment as \<open>world\<close>;
    \<open>paced\<close> is the abstract specification that \<open>send_packets\<close> refines.
  \<^item> \<open>LaunchTs\<close> (\<open>launch-timestamp.cpp\<close>): class \<open>DelayEmulator\<close> as the record \<open>emu\<close>; the locale \<open>pacer\<close> is what it
    relies on in the limiter, interpreted on \<open>CrcRate\<close>. \<open>HwPath\<close> composes the receive loop with a delay, the
    ring, the emulator and the limiter; \<open>delivers\<close> is the specification of the resulting stream of frames.
  \<^item> \<open>MoonemSw\<close> (\<open>moonem_sw.cpp\<close>): receive loops and transmit loop of the software mode; the locale \<open>ring_feeder\<close>
    is what the transmit loop relies on in a receive loop.
  \<^item> \<open>Welford\<close> and \<open>Hist\<close> (\<open>histogram.cpp\<close>): running moments, buckets, the output file.
  \<^item> \<open>Sniff\<close> (live mode of \<open>moonsniff.cpp\<close>): the calls as functions, their refinement to a specification
    over the sequence of calls, and the critical sections as a step relation of any number of threads.
    \<open>Capture\<close> and \<open>Pcap\<close>: the two recording modes with their file formats. \<open>ArrMatch\<close> (\<open>arrmatch.lua\<close>): matching of
    two recordings, composed with the recorder and the histogram.
  \<^item> \<open>RateLimiter\<close> (\<open>software-rate-limiter.cpp\<close>): three loops over an explicit environment \<open>env\<close>; locales \<open>sender\<close> and
    \<open>packet_sender\<close>.
  \<^item> \<open>SwTimestamp\<close> (\<open>software-timestamping.c\<close>).
  \<^item> \<open>Snmp\<close> (\<open>snmpc.c\<close>): identifiers and variables of the requests. \<open>SnmpSession\<close>: the methods from the Lua stack to
    their results, the tables of the module, and \<open>snmp_script\<close>, the step relation of a script, its agents
    and the garbage collector.

  Structures and classes are records with the source's fields, functions keep the source's names, and
  a function that models part of a function is named after it (\<open>token_step\<close>, \<open>token_iter\<close>: packet loop and one
  iteration). Code outside the repository is an input: received bursts, counter readings, allocation
  and memory mapping results, acceptance by the card, random numbers. Calls that take packets are
  outputs (\<open>call\<close>). The main loops end when their input does: an input list is what happened until
  \<open>is_running\<close> turned false, and the theorems hold for all lists.

  \<^bold>\<open>Conventions.\<close> Unsigned integers are words that wrap. Signed arithmetic and conversions from double are
  \<open>Inl\<close> where C makes them undefined. Every operation on doubles is rounded on its own to binary64: no
  fused or extended precision. Zero has no sign; no operation of the sources depends on it. Memory is
  little-endian. Busy waits and the filler loop are \<open>partial_function\<close>: \<open>None\<close> means that they do not return,
  and the theorems that state results also state that they return. No fuel is used. Bounds such as
  \<open>2\<^sup>5\<^sup>2\<close> or \<open>2\<^sup>6\<^sup>2\<close> in hypotheses are times in nanoseconds or counter ticks, so 52 days or 40 years, at which
  doubles stop being exact or signed differences overflow.

  \<^bold>\<open>What is shown.\<close> Conservation and order of packets in every receive loop; conformance of the token
  buckets and departure bounds of the leaky bucket in spite of rounding; exact pacing by fillers and
  the accuracy of launch times, from the receive loop to the frames on the wire; delivery by the software path; schedule, rate and termination of the
  software limiter; mutual exclusion, linearisation and absence of deadlock in the live mode; round
  trips of both capture formats; that matching two recordings gives the true latencies although the recorded
  time stamps wrap; buckets, counts and moments of the histogram; the rows that SNMP requests name,
  the results of the methods and the use of sessions and responses; and, as theorems about
  concrete runs, the defects found on the way.

  \<^bold>\<open>Not modelled.\<close> \<open>moongen-main.cpp\<close> only passes paths to libmoon. The Lua scripts configure devices and
  start tasks through libmoon, which is a submodule without sources here; the translated exceptions are the readers
  \<open>readSingle\<close> and \<open>getSoftwareTxTimestamp\<close> and the matching in \<open>arrmatch.lua\<close> without its debug mode. The exported
  functions of the limiters, the emulator and the recorders (\<open>mg_ratelimiter_crc_*\<close>, \<open>mg_launchtimer_*\<close>,
  \<open>mg_rate_limiter_*\<close>, \<open>ms_log_pkts\<close>, \<open>pcap_log_pkts\<close>) forward their arguments and have no definition of their own. DPDK, libmoon, net-snmp and the Lua interpreter are inputs or outputs.
  Textual identifiers are not resolved: \<open>read_objid\<close> needs the MIB files. Messages to the console are modelled in the live mode of MoonSniff only. The statistics of \<open>test_for\<close> are
  not protected by the mutexes; the scripts call it from one thread, and the model of the interleavings ends with
  the critical section. That the ring may be full is not modelled: the receive loops ignore the result of
  \<open>rte_ring_sp_enqueue_bulk\<close>, and the model records the call.
\<close>

section \<open>The receive loops of the path emulator\<close>

text \<open>(C14) The hardware receive loops neither lose nor duplicate a packet: whatever the bursts and the
  configuration, when a loop returns, the buffers it has passed to \<open>rte_pktmbuf_free\<close>, to the ring
  and to the network card are together exactly the buffers it has received.\<close>

theorem receivers_conserve_packets:
  "(receiver_loop_delay c bursts = Inr (cs, s1) \<longrightarrow> mset (trace_ids cs) = mset (map mid (concat bursts))) \<and>
   (receiver_loop_rate_leaky_bucket c bursts = Inr (cs, s2) \<longrightarrow> mset (trace_ids cs) = mset (map mid (concat bursts))) \<and>
   (receiver_loop_rate_token_bucket c bursts = Inr (cs, s3) \<longrightarrow> mset (trace_ids cs) = mset (map mid (concat bursts))) \<and>
   (receiver_loop_rate_token_bucket_fwd c bursts = Inr (cs, s3) \<longrightarrow> mset (trace_ids cs) = mset (map mid (concat bursts)))"
  unfolding receiver_loop_delay_def receiver_loop_rate_leaky_bucket_def
    receiver_loop_rate_token_bucket_def receiver_loop_rate_token_bucket_fwd_def
  using dly.run_exact[of c] lkr.run_exact[of c] tkbr.run_exact[of c] fwdr.run_exact[of c] by simp

theorem receivers_conserve_packets_witness:
  "receiver_loop_rate_leaky_bucket (ex_cfg NONE []) [ex_burst] =
     Inr ([Enqueue [(ex_pkt 0)\<lparr>ts_field := 5000\<rparr>, (ex_pkt 1)\<lparr>ts_field := 5084\<rparr>, (ex_pkt 2)\<lparr>ts_field := 5168\<rparr>]],
          \<lparr>next_at = Fin 5252, lk_loss = init_loss (ex_cfg NONE [])\<rparr>) \<and>
   mset (trace_ids [Enqueue [(ex_pkt 0)\<lparr>ts_field := 5000\<rparr>, (ex_pkt 1)\<lparr>ts_field := 5084\<rparr>, (ex_pkt 2)\<lparr>ts_field := 5168\<rparr>]]) =
     mset (map mid (concat [ex_burst]))"
  using receivers_conserve_packets ex_leaky_run by blast

text \<open>(C15) The hardware receive loops keep the order of arrival: the packets handed to the ring or the
  network card, over the whole run, are a subsequence of the packets received.\<close>

theorem receivers_keep_order:
  "(receiver_loop_delay c bursts = Inr (cs, s1) \<longrightarrow> subseq (map mid (forwarded cs)) (map mid (concat bursts))) \<and>
   (receiver_loop_rate_leaky_bucket c bursts = Inr (cs, s2) \<longrightarrow> subseq (map mid (forwarded cs)) (map mid (concat bursts))) \<and>
   (receiver_loop_rate_token_bucket c bursts = Inr (cs, s3) \<longrightarrow> subseq (map mid (forwarded cs)) (map mid (concat bursts))) \<and>
   (receiver_loop_rate_token_bucket_fwd c bursts = Inr (cs, s3) \<longrightarrow> subseq (map mid (forwarded cs)) (map mid (concat bursts)))"
  unfolding receiver_loop_delay_def receiver_loop_rate_leaky_bucket_def
    receiver_loop_rate_token_bucket_def receiver_loop_rate_token_bucket_fwd_def
  using dly.run_in_order[of c] lkr.run_in_order[of c] tkbr.run_in_order[of c] fwdr.run_in_order[of c] by simp

theorem receivers_keep_order_witness:
  "subseq (map mid (forwarded [Enqueue [(ex_pkt 0)\<lparr>ts_field := 5000\<rparr>, (ex_pkt 1)\<lparr>ts_field := 5084\<rparr>,
      (ex_pkt 2)\<lparr>ts_field := 5168\<rparr>]])) (map mid (concat [ex_burst]))"
  using receivers_keep_order ex_leaky_run by blast

text \<open>(C16) The same for the receive loops of the software path: every buffer received goes exactly once
  to the pool, the ring or the network card, and what goes to the ring or the card keeps the
  order of arrival.\<close>

theorem sw_receivers_conserve_packets:
  "(sw_receiver_loop_fwd c bursts = Inr (cs, s) \<longrightarrow>
      mset (trace_ids cs) = mset (map mid (concat bursts)) \<and> subseq (map mid (forwarded cs)) (map mid (concat bursts))) \<and>
   (sw_receives hz c inputs cs \<longrightarrow>
      mset (trace_ids cs) = mset (map mid (concat (map snd inputs))) \<and>
      subseq (map mid (forwarded cs)) (map mid (concat (map snd inputs))))"
proof (intro conjI impI)
  assume "sw_receiver_loop_fwd c bursts = Inr (cs, s)"
  then have run: "run_loop (hand_over Send c) (init_loss c) bursts = Inr (cs, s)" by (simp only: sw_receiver_loop_fwd_def)
  show "mset (trace_ids cs) = mset (map mid (concat bursts))" "subseq (map mid (forwarded cs)) (map mid (concat bursts))"
    using sfw.run_exact[OF run] sfw.run_in_order[OF run] by simp_all
next
  assume "sw_receives hz c inputs cs"
  then show "mset (trace_ids cs) = mset (map mid (concat (map snd inputs)))"
    "subseq (map mid (forwarded cs)) (map mid (concat (map snd inputs)))"
    by (rule sw_receives_exact sw_receives_in_order)+
qed

theorem sw_receivers_conserve_packets_witness:
  "sw_receives 1000 ex_sw_cfg ex_sw_in [Enqueue (take 2 ex_sw_ring), Enqueue (drop 2 ex_sw_ring)] \<and>
   mset (trace_ids [Enqueue (take 2 ex_sw_ring), Enqueue (drop 2 ex_sw_ring)]) = mset (map mid (concat (map snd ex_sw_in)))"
proof -
  have "sw_receives 1000 ex_sw_cfg ex_sw_in [Enqueue (take 2 ex_sw_ring), Enqueue (drop 2 ex_sw_ring)]"
    using ex_sw_run unfolding sw_receives_def by blast
  then show ?thesis using sw_receivers_conserve_packets by blast
qed

end
